(* ===== verification/Prelude.thy ===== *)
theory Prelude
  imports
    Main
    "HOL-Library.Word"
    "HOL-Library.List_Lexorder"
    "HOL-Library.Product_Lexorder"
    "HOL-Library.Char_ord"
begin

text \<open>
  What every component of the development shares.

  \<^item> The machine types of the Rust sources: \<open>u8\<close> to \<open>u64\<close> and \<open>i64\<close> are
    fixed-width words, so the casts and shifts of the byte formats keep their
    width. An \<open>i64\<close> is the 64-bit word of its two's-complement bits and is
    compared with \<open>sint\<close>. A \<open>usize\<close> that counts or indexes bytes already in
    memory is a \<open>nat\<close>; where the code adds two such numbers that come from a
    file, the 64-bit wrap-around is written out at that place.
  \<^item> \<open>Result\<close> is the sum type, with \<open>Inl\<close> for the error; \<open>and_then\<close> is the
    \<open>?\<close> operator.
  \<^item> \<open>BTreeMap\<close> is an association list in ascending key order, so iteration
    order is the order of the list.
  \<^item> The byte order conversions and the text validation of the standard library.
  \<^item> The codec interface: what a reader returns on the bytes its writer produced,
    and the loops over it.
\<close>

unbundle bit_operations_syntax

named_theorems codec_simps \<open>how the writers extend a buffer\<close>
named_theorems bt_simps \<open>ordered maps: lookup, keys and order after an update\<close>

section \<open>Machine types\<close>

type_synonym u8 = "8 word"
type_synonym u16 = "16 word"
type_synonym u32 = "32 word"
type_synonym u64 = "64 word"
type_synonym i64 = "64 word"
type_synonym bytes = "u8 list"

text \<open>\<open>TimeBasis\<close> of \<^verbatim>\<open>store.rs\<close>, which the store and the cluster share.\<close>

datatype time_basis = OccurredAt | ReceivedAt | CommittedAt

section \<open>Results\<close>

definition and_then :: "'e + 'a \<Rightarrow> ('a \<Rightarrow> 'e + 'b) \<Rightarrow> 'e + 'b" where
  "and_then r f = (case r of Inl e \<Rightarrow> Inl e | Inr x \<Rightarrow> f x)"

definition ok_or :: "'a option \<Rightarrow> 'e \<Rightarrow> 'e + 'a" where
  "ok_or x e = (case x of None \<Rightarrow> Inl e | Some v \<Rightarrow> Inr v)"

lemma and_then_simps [simp]:
  "and_then (Inl e) f = Inl e"
  "and_then (Inr x) f = f x"
  by (simp_all add: and_then_def)

lemma ok_or_simps [simp]:
  "ok_or None e = Inl e"
  "ok_or (Some v) e = Inr v"
  by (simp_all add: ok_or_def)

lemma and_then_cong [fundef_cong]:
  "r = r' \<Longrightarrow> (\<And>x. r' = Inr x \<Longrightarrow> f x = g x) \<Longrightarrow> and_then r f = and_then r' g"
  by (cases r') (auto simp: and_then_def)

lemma and_then_Inr_conv:
  "and_then r f = Inr y \<longleftrightarrow> (\<exists>x. r = Inr x \<and> f x = Inr y)"
  by (cases r) auto

lemma and_then_Inl_conv:
  "and_then r f = Inl e \<longleftrightarrow> r = Inl e \<or> (\<exists>x. r = Inr x \<and> f x = Inl e)"
  by (cases r) auto

lemma ok_or_Inr_conv: "ok_or x e = Inr v \<longleftrightarrow> x = Some v"
  by (cases x) auto

lemma ok_or_Inl_conv: "ok_or x e = Inl e' \<longleftrightarrow> x = None \<and> e' = e"
  by (cases x) auto

lemmas result_convs = and_then_Inr_conv and_then_Inl_conv ok_or_Inr_conv ok_or_Inl_conv

text \<open>\<open>collect\<close> of an iterator of results: the first error ends it.\<close>

fun collect :: "('a \<Rightarrow> 'e + 'b) \<Rightarrow> 'a list \<Rightarrow> 'e + 'b list" where
  "collect f [] = Inr []"
| "collect f (x # xs) = and_then (f x) (\<lambda>y. and_then (collect f xs) (\<lambda>ys. Inr (y # ys)))"

lemma collect_Inr: "collect f xs = Inr ys \<longleftrightarrow> list_all2 (\<lambda>x y. f x = Inr y) xs ys"
  by (induction xs arbitrary: ys) (auto simp: and_then_Inr_conv list_all2_Cons1)

lemma collect_all: "collect f xs = Inr ys \<Longrightarrow> (\<And>x y. f x = Inr y \<Longrightarrow> P y) \<Longrightarrow> \<forall>y\<in>set ys. P y"
  by (induction xs arbitrary: ys) (auto simp: and_then_Inr_conv)

lemma collect_length: "collect f xs = Inr ys \<Longrightarrow> length ys = length xs"
  by (auto simp: collect_Inr dest: list_all2_lengthD)

section \<open>Ordered maps\<close>

type_synonym ('k, 'v) btree = "('k \<times> 'v) list"

fun bt_insert :: "'k::linorder \<Rightarrow> 'v \<Rightarrow> ('k, 'v) btree \<Rightarrow> ('k, 'v) btree" where
  "bt_insert k v [] = [(k, v)]"
| "bt_insert k v ((k', v') # m) =
     (if k < k' then (k, v) # (k', v') # m
      else if k = k' then (k, v) # m
      else (k', v') # bt_insert k v m)"

definition bt_remove :: "'k \<Rightarrow> ('k, 'v) btree \<Rightarrow> ('k, 'v) btree" where
  "bt_remove k m = filter (\<lambda>p. fst p \<noteq> k) m"

abbreviation bt_get :: "('k, 'v) btree \<Rightarrow> 'k \<Rightarrow> 'v option" where
  "bt_get \<equiv> map_of"

definition bt_values :: "('k, 'v) btree \<Rightarrow> 'v list" where
  "bt_values m = map snd m"

definition bt_keys :: "('k, 'v) btree \<Rightarrow> 'k list" where
  "bt_keys m = map fst m"

definition bt_ok :: "('k::linorder, 'v) btree \<Rightarrow> bool" where
  "bt_ok m = sorted_wrt (<) (map fst m)"

lemma bt_get_insert [simp, bt_simps]: "bt_get (bt_insert k v m) = (bt_get m)(k \<mapsto> v)"
  by (induction k v m rule: bt_insert.induct) (auto simp: fun_eq_iff)

lemma bt_get_remove [simp, bt_simps]: "bt_get (bt_remove k m) = (bt_get m)(k := None)"
  by (induction m) (auto simp: bt_remove_def fun_eq_iff)

lemma fst_set_bt_insert [bt_simps]: "fst ` set (bt_insert k v m) = insert k (fst ` set m)"
  by (induction k v m rule: bt_insert.induct) auto

lemma set_bt_insert: "set (bt_insert k v m) \<subseteq> insert (k, v) (set m)"
  by (induction k v m rule: bt_insert.induct) auto

lemma bt_ok_Nil [simp]: "bt_ok []"
  by (simp add: bt_ok_def)

lemma bt_ok_Cons: "bt_ok ((k, v) # m) \<longleftrightarrow> (\<forall>k' \<in> fst ` set m. k < k') \<and> bt_ok m"
  by (auto simp: bt_ok_def)

lemma bt_ok_insert [simp, intro]: "bt_ok m \<Longrightarrow> bt_ok (bt_insert k v m)"
  by (induction k v m rule: bt_insert.induct)
    (auto simp: bt_ok_Cons fst_set_bt_insert dest: less_trans)

lemma bt_ok_filter: "bt_ok m \<Longrightarrow> bt_ok (filter P m)"
  by (induction m) (auto simp: bt_ok_def)

lemma bt_ok_remove [simp, intro]: "bt_ok m \<Longrightarrow> bt_ok (bt_remove k m)"
  unfolding bt_remove_def by (rule bt_ok_filter)

lemma bt_ok_distinct: "bt_ok m \<Longrightarrow> distinct (map fst m)"
  by (simp add: bt_ok_def strict_sorted_iff)

lemma bt_get_eq_Some: "bt_ok m \<Longrightarrow> bt_get m k = Some v \<longleftrightarrow> (k, v) \<in> set m"
  by (rule map_of_eq_Some_iff) (rule bt_ok_distinct)

lemma bt_ok_map_snd [simp]: "bt_ok (map (\<lambda>(k, v). (k, f k v)) m) \<longleftrightarrow> bt_ok m"
  by (simp add: bt_ok_def comp_def case_prod_beta)

lemma bt_rebuild: "bt_ok m \<Longrightarrow> map (\<lambda>k. (k, the (bt_get m k))) (map fst m) = m"
  using bt_ok_distinct[of m] by (auto intro: map_idI simp: comp_def)

text \<open>Two ordered maps with the same lookups are the same list.\<close>

lemma bt_ext:
  assumes "bt_ok m" "bt_ok n" "bt_get m = bt_get n"
  shows "m = n"
proof -
  have "set (map fst m) = set (map fst n)"
    using assms(3) by (metis dom_map_of_conv_image_fst list.set_map)
  then have "map fst m = map fst n"
    using assms(1,2) by (intro sorted_distinct_set_unique) (auto simp: bt_ok_def strict_sorted_iff)
  then show ?thesis
    using bt_rebuild[OF assms(1)] bt_rebuild[OF assms(2)] assms(3) by metis
qed

section \<open>Sorting without repeats\<close>

text \<open>
  \<open>sort_unstable\<close> followed by \<open>dedup\<close>. On a total order whose equality is
  equality of the whole value the unstable sort has one possible result.
\<close>

definition sort_dedup :: "'a::linorder list \<Rightarrow> 'a list" where
  "sort_dedup xs = remdups_adj (sort xs)"

lemma set_sort_dedup [simp]: "set (sort_dedup xs) = set xs"
  by (simp add: sort_dedup_def)

lemma sorted_remdups_adj_distinct: "sorted xs \<Longrightarrow> distinct (remdups_adj xs)"
  by (induction xs rule: remdups_adj.induct) auto

lemma sorted_sort_dedup [simp]: "sorted (sort_dedup xs)"
  by (simp add: sort_dedup_def sorted_remdups_adj)

lemma distinct_sort_dedup [simp]: "distinct (sort_dedup xs)"
  by (simp add: sort_dedup_def sorted_remdups_adj_distinct)

lemma sort_dedup_eqI: "set xs = set ys \<Longrightarrow> sort_dedup xs = sort_dedup ys"
  by (rule sorted_distinct_set_unique) auto

lemma sort_dedup_id: "sorted xs \<Longrightarrow> distinct xs \<Longrightarrow> sort_dedup xs = xs"
  by (rule sorted_distinct_set_unique) auto

section \<open>Byte orders\<close>

fun le_bytes :: "nat \<Rightarrow> nat \<Rightarrow> bytes" where
  "le_bytes 0 v = []"
| "le_bytes (Suc k) v = word_of_nat v # le_bytes k (v div 256)"

fun le_nat :: "bytes \<Rightarrow> nat" where
  "le_nat [] = 0"
| "le_nat (b # bs) = unat b + 256 * le_nat bs"

definition be_bytes :: "nat \<Rightarrow> nat \<Rightarrow> bytes" where
  "be_bytes k v = rev (le_bytes k v)"

definition be_nat :: "bytes \<Rightarrow> nat" where
  "be_nat bs = le_nat (rev bs)"

lemma length_le_bytes [simp]: "length (le_bytes k v) = k"
  by (induction k arbitrary: v) auto

lemma length_be_bytes [simp]: "length (be_bytes k v) = k"
  by (simp add: be_bytes_def)

lemma unat_byte_of_nat [simp]: "unat (word_of_nat v :: u8) = v mod 256"
  by (simp add: unat_of_nat)

lemma unat_u8_bound: "unat (b :: u8) < 256"
  using unsigned_less[of b] by simp

lemma le_nat_le_bytes_mod: "le_nat (le_bytes k v) = v mod 256 ^ k"
proof (induction k arbitrary: v)
  case (Suc k)
  then show ?case by (simp add: mod_mult2_eq)
qed simp

lemma le_nat_le_bytes: "v < 256 ^ k \<Longrightarrow> le_nat (le_bytes k v) = v"
  by (simp add: le_nat_le_bytes_mod)

lemma be_nat_be_bytes: "v < 256 ^ k \<Longrightarrow> be_nat (be_bytes k v) = v"
  by (simp add: be_nat_def be_bytes_def le_nat_le_bytes)

lemma le_nat_bound: "le_nat bs < 256 ^ length bs"
proof (induction bs)
  case (Cons b bs)
  have "unat b < 256" by (rule unat_u8_bound)
  with Cons show ?case by simp
qed simp

lemma be_nat_bound: "be_nat bs < 256 ^ length bs"
  using le_nat_bound[of "rev bs"] by (simp add: be_nat_def)

lemma le_bytes_le_nat: "length bs = k \<Longrightarrow> le_bytes k (le_nat bs) = bs"
proof (induction bs arbitrary: k)
  case (Cons b bs)
  have "unat b < 256" by (rule unat_u8_bound)
  then have "(unat b + 256 * le_nat bs) div 256 = le_nat bs" by simp
  moreover have "(word_of_nat (unat b + 256 * le_nat bs) :: u8) = b"
    using \<open>unat b < 256\<close> by (intro word_unat_eq_iff[THEN iffD2]) (simp del: of_nat_add)
  ultimately show ?case using Cons by (cases k) auto
qed simp

lemma be_bytes_be_nat: "length bs = k \<Longrightarrow> be_bytes k (be_nat bs) = bs"
  by (simp add: be_bytes_def be_nat_def le_bytes_le_nat)

lemma word_le_bytes:
  fixes v :: "'a::len word"
  assumes "LENGTH('a) = 8 * k"
  shows "word_of_nat (le_nat (le_bytes k (unat v))) = v"
proof -
  have "unat v < 2 ^ (8 * k)" using unsigned_less[of v] assms by metis
  then have "unat v < 256 ^ k" by (simp add: power_mult)
  then show ?thesis by (simp add: le_nat_le_bytes)
qed

lemma word_be_bytes:
  fixes v :: "'a::len word"
  assumes "LENGTH('a) = 8 * k"
  shows "word_of_nat (be_nat (be_bytes k (unat v))) = v"
  using word_le_bytes[OF assms, of v] by (simp add: be_nat_def be_bytes_def)

section \<open>Text\<close>

text \<open>
  A Rust \<open>String\<close> is a byte vector that holds valid UTF-8. Stored text is
  therefore modelled by its bytes, and \<open>utf8_valid\<close> is \<open>std::str::from_utf8\<close>:
  the well-formed byte sequences of the Unicode standard.
\<close>

definition utf8_tail :: "u8 \<Rightarrow> bool" where
  "utf8_tail b = (0x80 \<le> b \<and> b \<le> 0xBF)"

fun utf8_valid :: "bytes \<Rightarrow> bool" where
  "utf8_valid [] = True"
| "utf8_valid (a # bs) =
     (if a \<le> 0x7F then utf8_valid bs
      else (case bs of
        [] \<Rightarrow> False
      | b # cs \<Rightarrow>
          if 0xC2 \<le> a \<and> a \<le> 0xDF then utf8_tail b \<and> utf8_valid cs
          else (case cs of
            [] \<Rightarrow> False
          | c # ds \<Rightarrow>
              if 0xE0 \<le> a \<and> a \<le> 0xEF then
                (if a = 0xE0 then 0xA0 \<le> b \<and> b \<le> 0xBF
                 else if a = 0xED then 0x80 \<le> b \<and> b \<le> 0x9F
                 else utf8_tail b) \<and> utf8_tail c \<and> utf8_valid ds
              else (case ds of
                [] \<Rightarrow> False
              | d # es \<Rightarrow>
                  0xF0 \<le> a \<and> a \<le> 0xF4 \<and>
                  (if a = 0xF0 then 0x90 \<le> b \<and> b \<le> 0xBF
                   else if a = 0xF4 then 0x80 \<le> b \<and> b \<le> 0x8F
                   else utf8_tail b) \<and> utf8_tail c \<and> utf8_tail d \<and> utf8_valid es))))"

declare utf8_valid.simps(2) [simp del]

text \<open>The bytes of an ASCII literal of the sources.\<close>

definition lit :: "string \<Rightarrow> bytes" where
  "lit s = map (\<lambda>c. word_of_nat (of_char c)) s"

text \<open>The decimal form that \<open>format!\<close> gives a number.\<close>

fun show_nat :: "nat \<Rightarrow> string" where
  "show_nat n = (if n < 10 then [char_of (48 + n)] else show_nat (n div 10) @ [char_of (48 + n mod 10)])"

declare show_nat.simps [simp del]

definition show_int :: "int \<Rightarrow> string" where
  "show_int i = (if i < 0 then CHR ''-'' # show_nat (nat (- i)) else show_nat (nat i))"

section \<open>The codec interface\<close>

text \<open>
  The loop \<^verbatim>\<open>for _ in 0..count { let (x, next) = get(bytes, at)?; at = next; xs.push(x) }\<close>.
\<close>

fun read_many :: "(bytes \<Rightarrow> nat \<Rightarrow> 'e + 'a \<times> nat) \<Rightarrow> nat \<Rightarrow> bytes \<Rightarrow> nat \<Rightarrow> 'e + 'a list \<times> nat" where
  "read_many get 0 bs at = Inr ([], at)"
| "read_many get (Suc n) bs at =
     and_then (get bs at) (\<lambda>(x, next).
     and_then (read_many get n bs next) (\<lambda>(xs, used). Inr (x # xs, used)))"

lemma read_many_foldl:
  assumes "\<And>x out. put out x = out @ put [] x"
    and "\<And>x pre rest. x \<in> set xs \<Longrightarrow>
      get (put pre x @ rest) (length pre) = Inr (x, length (put pre x))"
  shows "read_many get (length xs) (foldl put pre xs @ rest) (length pre)
    = Inr (xs, length (foldl put pre xs))"
  using assms(2)
proof (induction xs arbitrary: pre)
  case (Cons x xs)
  have split: "foldl put out ys = out @ foldl put [] ys" for out ys
    by (induction ys arbitrary: out) (simp, metis append_assoc assms(1) foldl_Cons)
  have "get (foldl put (put pre x) xs @ rest) (length pre) = Inr (x, length (put pre x))"
    by (subst split) (simp add: Cons.prems)
  then show ?case using Cons by simp
qed simp

text \<open>A reader that fails stops the loop with its error.\<close>

lemma read_many_Inl:
  assumes "read_many get n bs at = Inl e"
  shows "\<exists>pos. get bs pos = Inl e"
  using assms by (induction n arbitrary: at) (auto simp: result_convs)

lemma read_many_length: "read_many get n bs at = Inr (xs, used) \<Longrightarrow> length xs = n"
  by (induction n arbitrary: at xs) (auto simp: result_convs)

lemma read_many_invariant:
  assumes "read_many get n bs at = Inr (xs, used)" "at \<le> length bs"
    and "\<And>pos x next. get bs pos = Inr (x, next) \<Longrightarrow> P x \<and> pos < next \<and> next \<le> length bs"
  shows "list_all P xs \<and> at \<le> used \<and> used \<le> length bs"
  using assms(1,2)
proof (induction n arbitrary: at xs)
  case (Suc n)
  then obtain x "next" ys where "get bs at = Inr (x, next)" "read_many get n bs next = Inr (ys, used)" "xs = x # ys"
    by (auto simp: result_convs)
  with Suc.IH[of "next" ys] assms(3)[of at x "next"] show ?case by auto
qed simp

locale codec =
  fixes put :: "bytes \<Rightarrow> 'a \<Rightarrow> bytes"
    and get :: "bytes \<Rightarrow> nat \<Rightarrow> 'e + 'a \<times> nat"
    and wf :: "'a \<Rightarrow> bool"
  assumes put_append: "put out x = out @ put [] x"
    and get_put: "wf x \<Longrightarrow> get (put pre x @ rest) (length pre) = Inr (x, length (put pre x))"
begin

lemma length_put: "length (put out x) = length out + length (put [] x)"
  by (subst put_append) simp

lemma foldl_put: "foldl put out xs = out @ foldl put [] xs"
  by (induction xs arbitrary: out) (simp, metis append_assoc put_append foldl_Cons)

lemma get_put_at: "wf x \<Longrightarrow> at = length pre \<Longrightarrow> get (pre @ put [] x @ rest) at = Inr (x, at + length (put [] x))"
  using get_put[of x pre rest] put_append[of pre x] by simp

lemma read_put_many:
  assumes "\<forall>x \<in> set xs. wf x"
  shows "read_many get (length xs) (foldl put pre xs @ rest) (length pre)
    = Inr (xs, length (foldl put pre xs))"
  using assms by (intro read_many_foldl put_append get_put) auto

text \<open>Two values with the same encoding are equal.\<close>

lemma put_inj: "wf x \<Longrightarrow> wf y \<Longrightarrow> put [] x = put [] y \<Longrightarrow> x = y"
  using get_put[of x "[]" "[]"] get_put[of y "[]" "[]"] by simp

text \<open>No encoding is a proper prefix of another one.\<close>

lemma put_prefix_free:
  assumes "wf x" "wf y" "put [] x @ r = put [] y @ s"
  shows "x = y \<and> r = s"
proof -
  have "get (put [] x @ r) 0 = Inr (x, length (put [] x))"
    using get_put[OF assms(1), of "[]" r] by simp
  moreover have "get (put [] y @ s) 0 = Inr (y, length (put [] y))"
    using get_put[OF assms(2), of "[]" s] by simp
  ultimately show ?thesis using assms(3) by auto
qed

end

section \<open>The command log interface\<close>

text \<open>
  A replicated state changes only by applying commands of a log, in order. A machine
  answers each command with an error, which leaves the state alone, or with the
  generation the state is at; a generation moves by one exactly when the state
  changes. \<open>settles\<close> says that a command applied to its own result changes nothing,
  which is what makes a retried command harmless.
\<close>

locale command_machine =
  fixes apply_cmd :: "'s \<Rightarrow> 'c \<Rightarrow> 's \<times> ('e + nat)"
    and gen :: "'s \<Rightarrow> nat"
    and settles :: "'c \<Rightarrow> bool"
  assumes refused: "apply_cmd s c = (s', Inl e) \<Longrightarrow> s' = s"
    and applied: "apply_cmd s c = (s', Inr g) \<Longrightarrow> g = gen s' \<and> (s' = s \<or> gen s' = gen s + 1)"
    and settled: "settles c \<Longrightarrow> fst (apply_cmd (fst (apply_cmd s c)) c) = fst (apply_cmd s c)"
begin

definition replay :: "'s \<Rightarrow> 'c list \<Rightarrow> 's" where
  "replay s cs = foldl (\<lambda>s c. fst (apply_cmd s c)) s cs"

lemma replay_simps: "replay s [] = s" "replay s (c # cs) = replay (fst (apply_cmd s c)) cs"
  by (simp_all add: replay_def)

lemma replay_append: "replay s (cs @ ds) = replay (replay s cs) ds"
  by (simp add: replay_def)

lemma apply_step: "fst (apply_cmd s c) = s \<or> gen (fst (apply_cmd s c)) = gen s + 1"
proof (cases "apply_cmd s c")
  case (Pair s' r)
  then show ?thesis by (cases r) (auto dest: refused applied)
qed

text \<open>The generation of a replayed log counts the commands that changed something.\<close>

lemma replay_generation: "gen s \<le> gen (replay s cs) \<and> gen (replay s cs) \<le> gen s + length cs"
proof (induction cs arbitrary: s)
  case (Cons c cs)
  show ?case using Cons.IH[of "fst (apply_cmd s c)"] apply_step[of s c] by (auto simp: replay_simps)
qed (simp add: replay_simps)

lemma replay_unchanged: "gen (replay s cs) = gen s \<Longrightarrow> replay s cs = s"
proof (induction cs arbitrary: s)
  case (Cons c cs)
  show ?case
    using Cons apply_step[of s c] replay_generation[of "fst (apply_cmd s c)" cs] by (auto simp: replay_simps)
qed (simp add: replay_simps)

text \<open>A log in which each command was delivered any number of times in a row.\<close>

lemma replay_repeats: "settles c \<Longrightarrow> replay s (replicate (Suc n) c) = fst (apply_cmd s c)"
proof (induction n)
  case (Suc n)
  have "replay s (replicate (Suc (Suc n)) c) = fst (apply_cmd (replay s (replicate (Suc n) c)) c)"
    using replay_append[of s "replicate (Suc n) c" "[c]"] by (simp add: replicate_append_same replay_simps)
  then show ?case using Suc settled by simp
qed (simp add: replay_simps)

lemma replay_redelivered:
  "\<forall>(c, n) \<in> set cs. settles c \<Longrightarrow>
   replay s (concat (map (\<lambda>(c, n). replicate (Suc n) c) cs)) = replay s (map fst cs)"
proof (induction cs arbitrary: s)
  case (Cons x cs)
  obtain c n where x: "x = (c, n)" by fastforce
  have "replay s (replicate (Suc n) c) = fst (apply_cmd s c)" using Cons.prems by (intro replay_repeats) (simp add: x)
  then show ?case using Cons by (simp add: x replay_append replay_simps del: replicate_Suc)
qed (simp add: replay_simps)

end

end
