(* ===== verification/Segment_Format.thy ===== *)
theory Segment_Format
  imports Prelude
begin

text \<open>
  The primitives of the segment format, \<^verbatim>\<open>tallyowl-store/src/segment/format.rs\<close>:
  the numbers the format assigns, the little-endian readers and writers, the
  variable-length integer and the zig-zag map. A writer takes the buffer and
  returns it extended; a reader takes the whole buffer and an offset. The two
  hash functions are third-party code and are parameters where they are used.

  \<open>format_error\<close> has the three constructors of \<open>FormatError\<close>, and \<open>Panicked\<close>
  for the places where the release build stops the process: a slice index out
  of range. The text of a message is the constructor of \<open>format_message\<close> that
  names the place it comes from.
\<close>

section \<open>Numbers of the format\<close>

definition PAGE_HEADER_BYTES :: nat where
  "PAGE_HEADER_BYTES = 24"

definition PAGE_TARGET_BYTES :: nat where
  "PAGE_TARGET_BYTES = 64 * 1024"

definition MAX_UNCOMPRESSED_PAGE_BYTES :: nat where
  "MAX_UNCOMPRESSED_PAGE_BYTES = 64 * 1024 * 1024"

definition ZSTD_LEVEL_DEFAULT :: int where
  "ZSTD_LEVEL_DEFAULT = 1"

definition ZSTD_LEVEL_FLOAT :: int where
  "ZSTD_LEVEL_FLOAT = 3"

definition FILTER_BITS_EACH_KEY :: nat where
  "FILTER_BITS_EACH_KEY = 12"

datatype encoding = PlainFixed | Varint | VarintDelta | OffsetBytes | Dictionary | SplitPrefix

fun encoding_number :: "encoding \<Rightarrow> u16" where
  "encoding_number PlainFixed = 1"
| "encoding_number Varint = 2"
| "encoding_number VarintDelta = 3"
| "encoding_number OffsetBytes = 4"
| "encoding_number Dictionary = 5"
| "encoding_number SplitPrefix = 6"

definition encoding_from_number :: "u16 \<Rightarrow> encoding option" where
  "encoding_from_number n =
     (if n = 1 then Some PlainFixed
      else if n = 2 then Some Varint
      else if n = 3 then Some VarintDelta
      else if n = 4 then Some OffsetBytes
      else if n = 5 then Some Dictionary
      else if n = 6 then Some SplitPrefix
      else None)"

datatype codec_kind = CodecNone | Zstandard

fun codec_number :: "codec_kind \<Rightarrow> u16" where
  "codec_number CodecNone = 0"
| "codec_number Zstandard = 1"

definition codec_from_number :: "u16 \<Rightarrow> codec_kind option" where
  "codec_from_number n =
     (if n = 0 then Some CodecNone else if n = 1 then Some Zstandard else None)"

datatype index_layout = TermPostingsLayout | BlockFilterLayout | UniqueLookupLayout

fun layout_number :: "index_layout \<Rightarrow> u16" where
  "layout_number TermPostingsLayout = 1"
| "layout_number BlockFilterLayout = 2"
| "layout_number UniqueLookupLayout = 3"

definition layout_from_number :: "u16 \<Rightarrow> index_layout option" where
  "layout_from_number n =
     (if n = 1 then Some TermPostingsLayout
      else if n = 2 then Some BlockFilterLayout
      else if n = 3 then Some UniqueLookupLayout
      else None)"

lemma encoding_from_encoding_number [simp]: "encoding_from_number (encoding_number e) = Some e"
  by (cases e) (simp_all add: encoding_from_number_def)

lemma encoding_from_number_Some: "encoding_from_number n = Some e \<Longrightarrow> encoding_number e = n"
  by (auto simp: encoding_from_number_def split: if_splits)

lemma codec_from_codec_number [simp]: "codec_from_number (codec_number c) = Some c"
  by (cases c) (simp_all add: codec_from_number_def)

lemma layout_from_layout_number [simp]: "layout_from_number (layout_number l) = Some l"
  by (cases l) (simp_all add: layout_from_number_def)

section \<open>Errors\<close>

datatype key_message = RandomUnavailable | NotProtected | TooShort | NotReadableWith string

datatype key_error = RootKey key_message | Destroyed key_message | KeyDamaged key_message

datatype format_message =
    FileStops
  | NumberStops
  | NumberTooLong
  | ColumnNotAsClaimed string
  | UnknownCompression
  | UnknownColumnForm
  | UnknownIndexForm
  | PageChecksum
  | PageShorterThanRows
  | PageClaimsTooMuch
  | PageNotExpanded
  | PageExpandedDiffers
  | IndexChecksum
  | IndexMoreValues
  | IndexMoreRows
  | IndexMoreParts
  | KeyFailure key_error
  | NeedsOneItem
  | FileTooShort
  | NotOneOfOurs
  | NotFinished
  | DirectoryChecksum
  | DirectoryUnreadable
  | DescriptionUnreadable
  | OtherFormat u64
  | MissingFrom string
  | CannotRead string
  | CountsDiffer u64 u64
  | NotTheFileItSays
  | PartsDisagree

datatype format_error =
    Incomplete format_message
  | Damaged format_message
  | Unsupported format_message
  | Panicked

section \<open>Fixed-width numbers\<close>

definition put_u16 :: "bytes \<Rightarrow> u16 \<Rightarrow> bytes" where
  "put_u16 out value = out @ le_bytes 2 (unat value)"

definition put_u32 :: "bytes \<Rightarrow> u32 \<Rightarrow> bytes" where
  "put_u32 out value = out @ le_bytes 4 (unat value)"

definition put_u64 :: "bytes \<Rightarrow> u64 \<Rightarrow> bytes" where
  "put_u64 out value = out @ le_bytes 8 (unat value)"

definition slice :: "bytes \<Rightarrow> nat \<Rightarrow> nat \<Rightarrow> format_error + bytes" where
  "slice bs at len =
     (let end = at + len
      in if at \<le> end \<and> end \<le> length bs then Inr (take (end - at) (drop at bs))
         else Inl (Incomplete FileStops))"

definition get_u16 :: "bytes \<Rightarrow> nat \<Rightarrow> format_error + u16" where
  "get_u16 bs at = and_then (slice bs at 2) (\<lambda>s. Inr (word_of_nat (le_nat s)))"

definition get_u32 :: "bytes \<Rightarrow> nat \<Rightarrow> format_error + u32" where
  "get_u32 bs at = and_then (slice bs at 4) (\<lambda>s. Inr (word_of_nat (le_nat s)))"

definition get_u64 :: "bytes \<Rightarrow> nat \<Rightarrow> format_error + u64" where
  "get_u64 bs at = and_then (slice bs at 8) (\<lambda>s. Inr (word_of_nat (le_nat s)))"

lemma slice_Inr_conv: "slice bs at len = Inr s \<longleftrightarrow> at + len \<le> length bs \<and> s = take len (drop at bs)"
  by (auto simp: slice_def Let_def)

lemma slice_Inl_conv: "slice bs at len = Inl e \<longleftrightarrow> length bs < at + len \<and> e = Incomplete FileStops"
  by (auto simp: slice_def Let_def)

lemma slice_at [simp]:
  "at = length pre \<Longrightarrow> len = length mid \<Longrightarrow> slice (pre @ mid @ rest) at len = Inr mid"
  by (simp add: slice_def)

lemma put_append [codec_simps]:
  "put_u16 out a = out @ put_u16 [] a"
  "put_u32 out b = out @ put_u32 [] b"
  "put_u64 out c = out @ put_u64 [] c"
  by (simp_all add: put_u16_def put_u32_def put_u64_def)

lemma length_put_fixed [simp]:
  "length (put_u16 out a) = length out + 2"
  "length (put_u32 out b) = length out + 4"
  "length (put_u64 out c) = length out + 8"
  by (simp_all add: put_u16_def put_u32_def put_u64_def)

lemma get_u16_put [simp]: "at = length pre \<Longrightarrow> get_u16 (pre @ put_u16 [] v @ rest) at = Inr v"
  by (simp add: get_u16_def put_u16_def word_le_bytes)

lemma get_u32_put [simp]: "at = length pre \<Longrightarrow> get_u32 (pre @ put_u32 [] v @ rest) at = Inr v"
  by (simp add: get_u32_def put_u32_def word_le_bytes)

lemma get_u64_put [simp]: "at = length pre \<Longrightarrow> get_u64 (pre @ put_u64 [] v @ rest) at = Inr v"
  by (simp add: get_u64_def put_u64_def word_le_bytes)

section \<open>Variable-length numbers\<close>

function put_varint :: "bytes \<Rightarrow> u64 \<Rightarrow> bytes" where
  "put_varint out value =
     (if 0x80 \<le> value then put_varint (out @ [ucast value OR 0x80]) (drop_bit 7 value)
      else out @ [ucast value])"
  by pat_completeness auto
termination
  by (relation "measure (\<lambda>(out, v). unat v)")
    (auto simp: unat_div drop_bit_eq_div word_le_nat_alt)

declare put_varint.simps [simp del]

function get_varint_loop :: "bytes \<Rightarrow> u64 \<Rightarrow> nat \<Rightarrow> nat \<Rightarrow> format_error + u64 \<times> nat" where
  "get_varint_loop bs value shift used =
     (if used < length bs then
        let byte = bs ! used;
            used = used + 1;
            value = value OR push_bit shift (ucast (byte AND 0x7f))
        in if byte AND 0x80 = 0 then Inr (value, used)
           else let shift = shift + 7
                in if 64 \<le> shift then Inl (Damaged NumberTooLong)
                   else get_varint_loop bs value shift used
      else Inl (Incomplete NumberStops))"
  by pat_completeness auto
termination
  by (relation "measure (\<lambda>(bs, value, shift, used). 64 - shift)") auto

declare get_varint_loop.simps [simp del]

definition get_varint :: "bytes \<Rightarrow> nat \<Rightarrow> format_error + u64 \<times> nat" where
  "get_varint bs at = get_varint_loop bs 0 0 at"

definition zigzag :: "i64 \<Rightarrow> u64" where
  "zigzag value = push_bit 1 value XOR signed_drop_bit 63 value"

definition unzigzag :: "u64 \<Rightarrow> i64" where
  "unzigzag value = drop_bit 1 value XOR - (value AND 1)"

section \<open>The number codecs\<close>

text \<open>Bit facts of the seven-bit groups.\<close>

lemma and_0x7f: "(x :: u8) AND 0x7f = take_bit 7 x"
  by (simp add: take_bit_eq_mask mask_eq_exp_minus_1)

lemma and_0x80: "(x :: u8) AND 0x80 = 0 \<longleftrightarrow> \<not> bit x 7"
  using and_exp_eq_0_iff_not_bit[of x 7] by simp

lemma bit_0x80: "bit (0x80 :: u8) n \<longleftrightarrow> n = 7"
proof -
  have "(0x80 :: u8) = push_bit 7 1" by simp
  then show ?thesis by (simp only: bit_simps) auto
qed

lemma varint_group: "ucast ((ucast v OR 0x80 :: u8) AND 0x7f) = take_bit 7 (v :: u64)"
  unfolding and_0x7f by (rule bit_word_eqI) (auto simp: bit_simps bit_0x80)

lemma take_bit_7_small: "v < 0x80 \<Longrightarrow> take_bit 7 (v :: u64) = v"
  by (simp add: word_unat_eq_iff unsigned_take_bit_eq word_less_nat_alt take_bit_nat_eq_self)

lemma varint_last_group: "v < 0x80 \<Longrightarrow> ucast (ucast v AND 0x7f :: u8) = (v :: u64)"
proof -
  assume "v < 0x80"
  have "ucast (ucast v AND 0x7f :: u8) = take_bit 7 v"
    unfolding and_0x7f by (rule bit_word_eqI) (auto simp: bit_simps)
  then show ?thesis using \<open>v < 0x80\<close> by (simp add: take_bit_7_small)
qed

lemma varint_flag: "(ucast v OR 0x80 :: u8) AND 0x80 \<noteq> 0"
  unfolding and_0x80 by (simp add: bit_simps bit_0x80)

lemma varint_no_flag: "v < 0x80 \<Longrightarrow> (ucast (v :: u64) :: u8) AND 0x80 = 0"
proof -
  assume "v < 0x80"
  then have "bit v 7 = bit (take_bit 7 v) 7" by (simp add: take_bit_7_small)
  then show ?thesis unfolding and_0x80 by (simp add: bit_simps)
qed

lemma varint_join:
  "take_bit s v OR push_bit s (take_bit 7 (drop_bit s v)) = take_bit (s + 7) (v :: u64)"
  by (rule bit_word_eqI) (auto simp: bit_simps)

lemma varint_join_last: "take_bit s v OR push_bit s (drop_bit s v) = (v :: u64)"
  by (rule bit_word_eqI) (auto simp: bit_simps, metis le_add_diff_inverse not_less)

lemma varint_room: "0x80 \<le> drop_bit s (v :: u64) \<Longrightarrow> s + 7 < 64"
proof (rule ccontr)
  assume a: "0x80 \<le> drop_bit s v" and "\<not> s + 7 < 64"
  then have "(2::nat) ^ 64 \<le> 2 ^ (s + 7)" by (intro power_increasing) auto
  then have "unat v < 128 * 2 ^ s" using unsigned_less[of v, where 'a = nat] by (simp add: power_add)
  then have "unat v div 2 ^ s < 128" by (rule less_mult_imp_div_less)
  moreover have "unat (drop_bit s v) = unat v div 2 ^ s"
    by (simp only: unat_drop_bit_eq) (simp add: drop_bit_eq_div)
  ultimately show False using a by (simp only: word_le_nat_alt) simp
qed

lemma signed_drop_bit_63: "signed_drop_bit 63 (v :: i64) = (if bit v 63 then - 1 else 0)"
proof (rule bit_word_eqI)
  fix n assume "n < LENGTH(64)"
  then show "bit (signed_drop_bit 63 v) n = bit (if bit v 63 then - 1 else 0 :: i64) n"
    by (cases n) (auto simp: bit_signed_drop_bit_iff)
qed

lemma unzigzag_core:
  fixes p v :: i64
  assumes p: "\<And>n. bit p n \<longleftrightarrow> 0 < n \<and> n < 64 \<and> bit v (n - 1)"
    and s: "s = (if bit v 63 then - 1 else 0)"
  shows "drop_bit 1 (p XOR s) XOR - ((p XOR s) AND 1) = v"
proof -
  have "(p XOR s) AND 1 = (if bit v 63 then 1 else 0)"
    by (rule bit_word_eqI) (auto simp: bit_simps p s)
  moreover have "drop_bit 1 (p XOR s) XOR (if bit v 63 then - 1 else 0) = v"
  proof (rule bit_word_eqI)
    fix n assume "n < LENGTH(64)"
    then have "n < 63 \<or> n = 63" by auto
    then show "bit (drop_bit 1 (p XOR s) XOR (if bit v 63 then - 1 else 0)) n = bit v n"
      by (auto simp: bit_simps p s)
  qed
  ultimately show ?thesis by (cases "bit v 63") simp_all
qed

lemma put_varint_append [codec_simps]: "put_varint out v = out @ put_varint [] v"
proof (induction "unat v" arbitrary: out v rule: less_induct)
  case less
  show ?case
  proof (cases "0x80 \<le> v")
    case True
    then have "unat (drop_bit 7 v) < unat v"
      by (auto simp: unat_div drop_bit_eq_div word_le_nat_alt)
    note IH = less[OF this]
    have "put_varint out v = (out @ [ucast v OR 0x80]) @ put_varint [] (drop_bit 7 v)"
      unfolding put_varint.simps[of out v] by (subst IH) (use True in simp)
    moreover have "put_varint [] v = [ucast v OR 0x80] @ put_varint [] (drop_bit 7 v)"
      unfolding put_varint.simps[of "[]" v] by (subst IH) (use True in simp)
    ultimately show ?thesis by simp
  next
    case False
    then show ?thesis by (simp add: put_varint.simps[of out v] put_varint.simps[of "[]" v])
  qed
qed

lemma get_varint_loop_put:
  "w = drop_bit s v \<Longrightarrow> s < 64 \<Longrightarrow>
   get_varint_loop (put_varint out w @ rest) (take_bit s v) s (length out)
     = Inr (v, length (put_varint out w))"
proof (induction out w arbitrary: s rule: put_varint.induct)
  case (1 out w)
  show ?case
  proof (cases "0x80 \<le> w")
    case True
    let ?b = "ucast w OR 0x80 :: u8"
    have room: "s + 7 < 64" using True "1.prems" varint_room by simp
    have unf: "put_varint out w = put_varint (out @ [?b]) (drop_bit 7 w)"
      using True by (simp add: put_varint.simps[of out w])
    define buf where "buf = put_varint (out @ [?b]) (drop_bit 7 w)"
    obtain tl where tl: "buf = (out @ [?b]) @ tl"
      using put_varint_append unfolding buf_def by blast
    have "get_varint_loop (buf @ rest) (take_bit (s + 7) v) (s + 7) (length (out @ [?b]))
        = Inr (v, length buf)"
      unfolding buf_def by (rule "1.IH") (use True room "1.prems" in \<open>simp_all add: add.commute\<close>)
    moreover have "(buf @ rest) ! length out = ?b" "length out < length (buf @ rest)"
      by (simp_all add: tl nth_append)
    moreover have "take_bit s v OR push_bit s (ucast (?b AND 0x7f)) = take_bit (s + 7) v"
      unfolding varint_group using "1.prems" by (simp add: varint_join)
    ultimately show ?thesis
      unfolding unf buf_def[symmetric] using room varint_flag[of w]
      by (subst get_varint_loop.simps) (simp add: Let_def)
  next
    case False
    then have "put_varint out w = out @ [ucast w]"
      by (simp add: put_varint.simps[of out w])
    with False "1.prems" show ?thesis
      by (subst get_varint_loop.simps)
        (simp add: Let_def varint_no_flag varint_last_group varint_join_last not_le)
  qed
qed

lemma get_varint_put:
  "get_varint (put_varint pre v @ rest) (length pre) = Inr (v, length (put_varint pre v))"
  using get_varint_loop_put[of v 0 v pre rest] by (simp add: get_varint_def)

lemma unzigzag_zigzag [simp]: "unzigzag (zigzag v) = v"
  unfolding unzigzag_def zigzag_def
  by (rule unzigzag_core) (simp_all only: bit_push_bit_iff signed_drop_bit_63, auto)

lemma zigzag_unzigzag [simp]: "zigzag (unzigzag v) = v"
proof -
  have "surj unzigzag" by (metis surjI unzigzag_zigzag)
  then have "inj unzigzag" by (simp add: finite_UNIV_surj_inj)
  then show ?thesis by (metis injD unzigzag_zigzag)
qed

lemma length_put_varint_bound: "unat v < 128 ^ Suc k \<Longrightarrow> length (put_varint [] v) \<le> Suc k"
proof (induction k arbitrary: v)
  case 0
  then show ?case by (subst put_varint.simps) (simp add: word_le_nat_alt)
next
  case (Suc k)
  show ?case
  proof (cases "0x80 \<le> v")
    case True
    have "unat (drop_bit 7 v) = unat v div 128" by (simp add: unat_div drop_bit_eq_div)
    then have "unat (drop_bit 7 v) < 128 ^ Suc k"
      using Suc.prems by (simp add: less_mult_imp_div_less mult.commute)
    from Suc.IH[OF this] True put_varint_append[of "[ucast v OR 0x80]" "drop_bit 7 v"]
    show ?thesis by (simp add: put_varint.simps[of "[]" v])
  qed (simp add: put_varint.simps[of "[]" v])
qed

lemma length_put_varint: "length (put_varint [] v) \<le> 10"
  using length_put_varint_bound[of v 9] unsigned_less[of v, where 'a = nat] by simp

lemma put_varint_nonempty: "0 < length (put_varint [] v)"
  using put_varint_append[of "[ucast v OR 0x80]" "drop_bit 7 v"]
  by (simp add: put_varint.simps[of "[]" v])

lemma get_varint_loop_Inr:
  "get_varint_loop bs acc s at = Inr (v, used) \<Longrightarrow> at < used \<and> used \<le> length bs"
  by (induction bs acc s at rule: get_varint_loop.induct)
    (subst (asm) (2) get_varint_loop.simps, fastforce simp: Let_def split: if_splits)

lemma get_varint_Inr: "get_varint bs at = Inr (v, used) \<Longrightarrow> at < used \<and> used \<le> length bs"
  unfolding get_varint_def by (rule get_varint_loop_Inr)

lemma get_varint_loop_Inl:
  "get_varint_loop bs acc s at = Inl e \<Longrightarrow> e = Incomplete NumberStops \<or> e = Damaged NumberTooLong"
  by (induction bs acc s at rule: get_varint_loop.induct)
    (subst (asm) (2) get_varint_loop.simps, fastforce simp: Let_def split: if_splits)

lemma get_varint_Inl: "get_varint bs at = Inl e \<Longrightarrow> e = Incomplete NumberStops \<or> e = Damaged NumberTooLong"
  unfolding get_varint_def by (rule get_varint_loop_Inl)

definition with_next :: "nat \<Rightarrow> (bytes \<Rightarrow> nat \<Rightarrow> 'e + 'a) \<Rightarrow> bytes \<Rightarrow> nat \<Rightarrow> 'e + 'a \<times> nat" where
  "with_next width get bs at = and_then (get bs at) (\<lambda>x. Inr (x, at + width))"

interpretation varint: codec put_varint get_varint "\<lambda>_. True"
  by unfold_locales (rule put_varint_append, rule get_varint_put)

interpretation u16: codec put_u16 "with_next 2 get_u16" "\<lambda>_. True"
  by unfold_locales (simp_all add: with_next_def put_u16_def get_u16_def word_le_bytes)

interpretation u32: codec put_u32 "with_next 4 get_u32" "\<lambda>_. True"
  by unfold_locales (simp_all add: with_next_def put_u32_def get_u32_def word_le_bytes)

interpretation u64: codec put_u64 "with_next 8 get_u64" "\<lambda>_. True"
  by unfold_locales (simp_all add: with_next_def put_u64_def get_u64_def word_le_bytes)

section \<open>Properties\<close>

text \<open>A variable-length number takes at most ten bytes and reads back from wherever it
  stands; a signed difference survives its zigzag form, and the zigzag form is a
  bijection of the 64-bit numbers.\<close>

theorem varint_round_trip:
  "get_varint (put_varint before v @ rest) (length before) = Inr (v, length (put_varint before v))
   \<and> length (put_varint [] v) \<le> 10
   \<and> unzigzag (zigzag d) = d \<and> zigzag (unzigzag v) = v"
  using get_varint_put length_put_varint by simp

text \<open>The number reader never panics and never reads outside the bytes: it returns a
  number and an offset behind it and inside the bytes, or one of two errors.\<close>

theorem varint_reader_safe:
  "(\<exists>v used. get_varint bs at = Inr (v, used) \<and> at < used \<and> used \<le> length bs)
   \<or> get_varint bs at = Inl (Incomplete NumberStops) \<or> get_varint bs at = Inl (Damaged NumberTooLong)"
proof (cases "get_varint bs at")
  case (Inl e)
  then show ?thesis using get_varint_Inl by blast
next
  case (Inr p)
  then show ?thesis using get_varint_Inr[of bs "at" "fst p" "snd p"] by (cases p) auto
qed

end
