(* ===== verification/Cbor.thy ===== *)
theory Cbor
  imports Prelude
begin

text \<open>
  Canonical CBOR, \<^verbatim>\<open>tallyowl-store/src/cbor.rs\<close>: the value type, the writer and the
  bounded reader that the segment header, footer, manifest and stored rows use.

  A text is its bytes, a map is an ordered map in the order of its keys, and a
  float is its 64-bit pattern, since the code only moves the bits. The reader
  recurses at most \<open>MAX_DEPTH\<close> levels; \<open>read_left\<close> takes the number of levels that
  are left, so the depth check of the source is its base case and the function
  is total on every input.
\<close>

section \<open>Values\<close>

datatype cbor_value =
    Unsigned u64
  | Negative i64
  | Bytes bytes
  | Text bytes
  | Array "cbor_value list"
  | Map "(bytes \<times> cbor_value) list"
  | Bool bool
  | Null
  | Float u64

definition integer :: "i64 \<Rightarrow> cbor_value" where
  "integer v = (if sint v < 0 then Negative v else Unsigned v)"

fun as_unsigned :: "cbor_value \<Rightarrow> u64 option" where
  "as_unsigned (Unsigned v) = Some v"
| "as_unsigned _ = None"

fun as_integer :: "cbor_value \<Rightarrow> i64 option" where
  "as_integer (Unsigned v) = (if unat v < 2 ^ 63 then Some v else None)"
| "as_integer (Negative v) = Some v"
| "as_integer _ = None"

fun as_text :: "cbor_value \<Rightarrow> bytes option" where
  "as_text (Text v) = Some v"
| "as_text _ = None"

fun as_bytes :: "cbor_value \<Rightarrow> bytes option" where
  "as_bytes (Bytes v) = Some v"
| "as_bytes _ = None"

fun as_array :: "cbor_value \<Rightarrow> cbor_value list option" where
  "as_array (Array v) = Some v"
| "as_array _ = None"

fun as_map :: "cbor_value \<Rightarrow> (bytes, cbor_value) btree option" where
  "as_map (Map v) = Some v"
| "as_map _ = None"

fun as_bool :: "cbor_value \<Rightarrow> bool option" where
  "as_bool (Bool v) = Some v"
| "as_bool _ = None"

definition field :: "cbor_value \<Rightarrow> bytes \<Rightarrow> cbor_value option" where
  "field v name = (case as_map v of None \<Rightarrow> None | Some m \<Rightarrow> bt_get m name)"

text \<open>\<open>MapBuilder\<close> is the ordered map under construction.\<close>

definition put :: "bytes \<Rightarrow> cbor_value \<Rightarrow> (bytes, cbor_value) btree \<Rightarrow> (bytes, cbor_value) btree" where
  "put key v entries = bt_insert key v entries"

definition put_some :: "bytes \<Rightarrow> cbor_value option \<Rightarrow> (bytes, cbor_value) btree \<Rightarrow> (bytes, cbor_value) btree" where
  "put_some key v entries = (case v of Some v \<Rightarrow> put key v entries | None \<Rightarrow> entries)"

definition build :: "(bytes, cbor_value) btree \<Rightarrow> cbor_value" where
  "build entries = Map entries"

section \<open>The writer\<close>

definition head :: "u8 \<Rightarrow> u64 \<Rightarrow> bytes \<Rightarrow> bytes" where
  "head major argument out =
     (let major = push_bit 5 major in
      if argument \<le> 23 then out @ [major OR ucast argument]
      else if argument \<le> 0xff then out @ [major OR 24] @ [ucast argument]
      else if argument \<le> 0xffff then out @ [major OR 25] @ be_bytes 2 (unat (ucast argument :: u16))
      else if argument \<le> 0xffffffff then out @ [major OR 26] @ be_bytes 4 (unat (ucast argument :: u32))
      else out @ [major OR 27] @ be_bytes 8 (unat argument))"

text \<open>The order of the keys on the wire: shorter first, then bytewise.\<close>

definition canonical_key :: "bytes \<Rightarrow> nat \<times> bytes" where
  "canonical_key k = (length k, k)"

text \<open>
  \<open>write_value v\<close> is what \<open>write_to\<close> appends for \<open>v\<close>. The entries of a map are
  written in the order of their sorted keys.
\<close>

fun write_value :: "cbor_value \<Rightarrow> bytes" where
  "write_value (Unsigned v) = head 0 v []"
| "write_value (Negative v) = head 1 (- 1 - v) []"
| "write_value (Bytes v) = head 2 (word_of_nat (length v)) [] @ v"
| "write_value (Text v) = head 3 (word_of_nat (length v)) [] @ v"
| "write_value (Array items) =
     head 4 (word_of_nat (length items)) [] @ concat (map write_value items)"
| "write_value (Map entries) =
     head 5 (word_of_nat (length entries)) [] @
     concat (map snd (sort_key (canonical_key \<circ> fst)
       (map (\<lambda>(k, v). (k, (head 3 (word_of_nat (length k)) [] @ k) @ write_value v)) entries)))"
| "write_value (Bool v) = [if v then 0xf5 else 0xf4]"
| "write_value Null = [0xf6]"
| "write_value (Float v) = [0xfb] @ be_bytes 8 (unat v)"

definition write_to :: "cbor_value \<Rightarrow> bytes \<Rightarrow> bytes" where
  "write_to v out = out @ write_value v"

definition encode :: "cbor_value \<Rightarrow> bytes" where
  "encode v = write_to v []"

section \<open>The reader\<close>

datatype decode_message =
    MoreBytesFollow
  | NestsTooDeep
  | ValueStops
  | RefusedForm
  | NegativeTooLarge
  | ClaimsMoreBytes
  | NotText
  | ArrayClaimsMore
  | MapClaimsMore
  | KeyNotText
  | NumberStopsEarly
  | UnknownSimple
  | UnusedTag

datatype decode_error = DecodeError decode_message nat

definition MAX_DEPTH :: nat where
  "MAX_DEPTH = 32"

definition read_be :: "bytes \<Rightarrow> nat \<Rightarrow> nat \<Rightarrow> decode_error + u64" where
  "read_be bs at width =
     (if length bs < at \<or> length bs - at < width then Inl (DecodeError NumberStopsEarly at)
      else Inr (foldl (\<lambda>out byte. push_bit 8 out OR ucast byte) 0 (take width (drop at bs))))"

definition read_argument :: "bytes \<Rightarrow> nat \<Rightarrow> u8 \<Rightarrow> decode_error + u64 \<times> nat" where
  "read_argument bs at short =
     (if short \<le> 23 then Inr (ucast short, at + 1)
      else if short = 24 then and_then (read_be bs (at + 1) 1) (\<lambda>a. Inr (a, at + 2))
      else if short = 25 then and_then (read_be bs (at + 1) 2) (\<lambda>a. Inr (a, at + 3))
      else if short = 26 then and_then (read_be bs (at + 1) 4) (\<lambda>a. Inr (a, at + 5))
      else if short = 27 then and_then (read_be bs (at + 1) 8) (\<lambda>a. Inr (a, at + 9))
      else Inl (DecodeError RefusedForm at))"

fun read_entries ::
  "(bytes \<Rightarrow> nat \<Rightarrow> decode_error + cbor_value \<times> nat) \<Rightarrow> nat \<Rightarrow> bytes \<Rightarrow> nat \<Rightarrow>
   (bytes, cbor_value) btree \<Rightarrow> decode_error + (bytes, cbor_value) btree \<times> nat" where
  "read_entries rd 0 bs used entries = Inr (entries, used)"
| "read_entries rd (Suc count) bs used entries =
     and_then (rd bs used) (\<lambda>(key, next).
     and_then (ok_or (as_text key) (DecodeError KeyNotText used)) (\<lambda>key.
     and_then (rd bs next) (\<lambda>(item, next).
       read_entries rd count bs next (bt_insert key item entries))))"

definition read_body ::
  "(bytes \<Rightarrow> nat \<Rightarrow> decode_error + cbor_value \<times> nat) \<Rightarrow> bytes \<Rightarrow> nat \<Rightarrow> u8 \<Rightarrow> u8 \<Rightarrow> u64 \<Rightarrow> nat \<Rightarrow>
   decode_error + cbor_value \<times> nat" where
  "read_body rd bs at major short argument used =
     (if major = 0 then Inr (Unsigned argument, used)
      else if major = 1 then
        (if unat argument < 2 ^ 63 then Inr (Negative (- 1 - argument), used)
         else Inl (DecodeError NegativeTooLarge at))
      else if major = 2 \<or> major = 3 then
        (let len = unat argument in
         if length bs - used < len then Inl (DecodeError ClaimsMoreBytes at)
         else let slice = take len (drop used bs); used = used + len in
           if major = 2 then Inr (Bytes slice, used)
           else if utf8_valid slice then Inr (Text slice, used)
           else Inl (DecodeError NotText at))
      else if major = 4 then
        (let count = unat argument in
         if length bs - used < count then Inl (DecodeError ArrayClaimsMore at)
         else and_then (read_many rd count bs used) (\<lambda>(items, used). Inr (Array items, used)))
      else if major = 5 then
        (let count = unat argument in
         if length bs - used < count then Inl (DecodeError MapClaimsMore at)
         else and_then (read_entries rd count bs used []) (\<lambda>(entries, used). Inr (Map entries, used)))
      else if major = 7 then
        (if short = 20 then Inr (Bool False, used)
         else if short = 21 then Inr (Bool True, used)
         else if short = 22 then Inr (Null, used)
         else if short = 27 then
           (if at + 9 \<le> length bs then Inr (Float (word_of_nat (be_nat (take 8 (drop (at + 1) bs)))), used)
            else Inl (DecodeError NumberStopsEarly at))
         else Inl (DecodeError UnknownSimple at))
      else Inl (DecodeError UnusedTag at))"

primrec read_left :: "nat \<Rightarrow> bytes \<Rightarrow> nat \<Rightarrow> decode_error + cbor_value \<times> nat" where
  "read_left 0 bs at = Inl (DecodeError NestsTooDeep at)"
| "read_left (Suc left) bs at =
     (if at < length bs then
        let initial = bs ! at;
            major = drop_bit 5 initial;
            short = initial AND 0x1f
        in and_then (read_argument bs at short) (\<lambda>(argument, used).
             read_body (read_left left) bs at major short argument used)
      else Inl (DecodeError ValueStops at))"

definition read :: "bytes \<Rightarrow> nat \<Rightarrow> nat \<Rightarrow> decode_error + cbor_value \<times> nat" where
  "read bs at depth = read_left (MAX_DEPTH + 1 - depth) bs at"

definition decode :: "bytes \<Rightarrow> decode_error + cbor_value" where
  "decode bs =
     and_then (read bs 0 0) (\<lambda>(v, used).
       if used \<noteq> length bs then Inl (DecodeError MoreBytesFollow used) else Inr v)"

section \<open>Well-formed values\<close>

text \<open>
  What the Rust types promise of a value: text is UTF-8, map keys are text in
  ascending order, a negative number is negative, and no length exceeds 64 bits.
\<close>

fun wf_value :: "cbor_value \<Rightarrow> bool" where
  "wf_value (Negative v) = (sint v < 0)"
| "wf_value (Bytes v) = (length v < 2 ^ 64)"
| "wf_value (Text v) = (utf8_valid v \<and> length v < 2 ^ 64)"
| "wf_value (Array items) = (length items < 2 ^ 64 \<and> list_all wf_value items)"
| "wf_value (Map entries) =
     (length entries < 2 ^ 64 \<and> bt_ok entries \<and>
      list_all (\<lambda>(k, v). utf8_valid k \<and> length k < 2 ^ 64 \<and> wf_value v) entries)"
| "wf_value _ = True"

text \<open>How many levels below the value hold other values.\<close>

fun depth :: "cbor_value \<Rightarrow> nat" where
  "depth (Array items) = foldr max (map (\<lambda>v. Suc (depth v)) items) 0"
| "depth (Map entries) = foldr max (map (\<lambda>(k, v). Suc (depth v)) entries) 0"
| "depth _ = 0"

section \<open>Heads\<close>

lemma head_append [codec_simps]: "head m a out = out @ head m a []"
  by (simp add: head_def Let_def)

lemma shift_or_byte: "push_bit 8 out OR ucast (b :: u8) = (out * 256 + ucast b :: u64)"
proof -
  have "push_bit 8 out AND ucast b = (0 :: u64)"
    by (rule bit_word_eqI) (auto simp: bit_simps dest: bit_imp_le_length)
  then have "push_bit 8 out OR ucast b = push_bit 8 out + (ucast b :: u64)"
    by (metis disjunctive_add_eq_or)
  then show ?thesis by (simp add: push_bit_eq_mult)
qed

lemma be_nat_snoc: "be_nat (bs @ [b]) = be_nat bs * 256 + unat b"
  by (simp add: be_nat_def)

lemma foldl_shift_or: "foldl (\<lambda>out byte. push_bit 8 out OR ucast byte) 0 bs = (word_of_nat (be_nat bs) :: u64)"
  by (induction bs rule: rev_induct) (simp_all add: be_nat_def shift_or_byte be_nat_snoc[unfolded be_nat_def] mult.commute)

lemma read_be_at:
  "at = length pre \<Longrightarrow> width = length mid \<Longrightarrow> read_be (pre @ mid @ rest) at width = Inr (word_of_nat (be_nat mid))"
  by (simp add: read_be_def foldl_shift_or)

lemma initial_parts:
  fixes m x :: u8
  assumes "m < 8" "x < 32"
  shows "drop_bit 5 (push_bit 5 m OR x) = m" and "(push_bit 5 m OR x) AND 0x1f = x"
proof -
  have x: "n < 5" if "bit x n" for n
  proof -
    have "take_bit 5 x = x"
      using assms(2) by (simp add: word_unat_eq_iff unsigned_take_bit_eq word_less_nat_alt take_bit_nat_eq_self)
    then have "bit x n = bit (take_bit 5 x) n" by simp
    then show ?thesis using that by (simp add: bit_simps)
  qed
  have m: "n < 3" if "bit m n" for n
  proof -
    have "take_bit 3 m = m"
      using assms(1) by (simp add: word_unat_eq_iff unsigned_take_bit_eq word_less_nat_alt take_bit_nat_eq_self)
    then have "bit m n = bit (take_bit 3 m) n" by simp
    then show ?thesis using that by (simp add: bit_simps)
  qed
  show "drop_bit 5 (push_bit 5 m OR x) = m"
    by (rule bit_word_eqI) (auto simp: bit_simps dest: m x)
  have "(0x1f :: u8) = mask 5" by (simp add: mask_eq_exp_minus_1)
  then have *: "(push_bit 5 m OR x) AND 0x1f = take_bit 5 (push_bit 5 m OR x)"
    by (simp add: take_bit_eq_mask)
  show "(push_bit 5 m OR x) AND 0x1f = x"
    unfolding * by (rule bit_word_eqI) (auto simp: bit_simps not_le dest: x)
qed

lemma ucast_le_byte:
  fixes a :: u64
  shows "a \<le> 23 \<Longrightarrow> (ucast a :: u8) \<le> 23" and "a \<le> 0xff \<Longrightarrow> unat (ucast a :: u8) = unat a"
    and "a \<le> 0xffff \<Longrightarrow> unat (ucast a :: u16) = unat a"
    and "a \<le> 0xffffffff \<Longrightarrow> unat (ucast a :: u32) = unat a"
  by (simp_all add: word_le_nat_alt unsigned_ucast_eq take_bit_nat_eq_self)

text \<open>What the reader sees at the place where a head was written.\<close>

lemma read_head:
  assumes "m < 8"
  shows "\<exists>b. (pre @ head m a [] @ rest) ! length pre = b \<and> drop_bit 5 b = m \<and>
    read_argument (pre @ head m a [] @ rest) (length pre) (b AND 0x1f)
      = Inr (a, length pre + length (head m a []))"
proof -
  consider "a \<le> 23" | "\<not> a \<le> 23" "a \<le> 0xff" | "\<not> a \<le> 0xff" "a \<le> 0xffff"
    | "\<not> a \<le> 0xffff" "a \<le> 0xffffffff" | "\<not> a \<le> 0xffffffff"
    by (meson linear order_trans)
  then show ?thesis
  proof cases
    case 1
    then have small: "(ucast a :: u8) \<le> 23" by (rule ucast_le_byte)
    then have "(ucast a :: u8) < 32" by (simp add: word_le_nat_alt word_less_nat_alt)
    note parts = initial_parts[OF assms this]
    have "unat (ucast (ucast a :: u8) :: u64) = unat (ucast a :: u8)"
      using unat_u8_bound[of "ucast a"] by (simp only: unsigned_ucast_eq) (simp add: take_bit_nat_eq_self unsigned_take_bit_eq)
    moreover have "unat (ucast a :: u8) = unat a"
      using 1 by (intro ucast_le_byte) (simp add: word_le_nat_alt)
    ultimately have "ucast (ucast a :: u8) = a" by (simp only: word_unat_eq_iff)
    with 1 small parts show ?thesis by (simp add: head_def read_argument_def)
  next
    case 2
    note parts = initial_parts[OF assms, of 24, simplified]
    have "read_be (pre @ (push_bit 5 m OR 24) # [ucast a] @ rest) (length pre + 1) 1 = Inr a"
      using read_be_at[of "length pre + 1" "pre @ [push_bit 5 m OR 24]" 1 "[ucast a]" rest] 2
      by (simp add: be_nat_def ucast_le_byte)
    with 2 parts show ?thesis by (simp add: head_def read_argument_def)
  next
    case 3
    note parts = initial_parts[OF assms, of 25, simplified]
    have "\<not> a \<le> 23" using 3 by (simp add: word_le_nat_alt)
    have "be_nat (be_bytes 2 (unat a)) = unat a"
      using 3 by (intro be_nat_be_bytes) (simp add: word_le_nat_alt)
    then have "read_be (pre @ (push_bit 5 m OR 25) # be_bytes 2 (unat a) @ rest) (length pre + 1) 2 = Inr a"
      using read_be_at[of "length pre + 1" "pre @ [push_bit 5 m OR 25]" 2 "be_bytes 2 (unat a)" rest] by simp
    with 3 \<open>\<not> a \<le> 23\<close> parts show ?thesis by (simp add: head_def read_argument_def ucast_le_byte)
  next
    case 4
    note parts = initial_parts[OF assms, of 26, simplified]
    have "\<not> a \<le> 23" "\<not> a \<le> 0xff" using 4 by (simp_all add: word_le_nat_alt)
    have "be_nat (be_bytes 4 (unat a)) = unat a"
      using 4 by (intro be_nat_be_bytes) (simp add: word_le_nat_alt)
    then have "read_be (pre @ (push_bit 5 m OR 26) # be_bytes 4 (unat a) @ rest) (length pre + 1) 4 = Inr a"
      using read_be_at[of "length pre + 1" "pre @ [push_bit 5 m OR 26]" 4 "be_bytes 4 (unat a)" rest] by simp
    with 4 \<open>\<not> a \<le> 23\<close> \<open>\<not> a \<le> 0xff\<close> parts show ?thesis
      by (simp add: head_def read_argument_def ucast_le_byte)
  next
    case 5
    note parts = initial_parts[OF assms, of 27, simplified]
    have "\<not> a \<le> 23" "\<not> a \<le> 0xff" "\<not> a \<le> 0xffff" using 5 by (simp_all add: word_le_nat_alt)
    have "read_be (pre @ (push_bit 5 m OR 27) # be_bytes 8 (unat a) @ rest) (length pre + 1) 8 = Inr a"
      using read_be_at[of "length pre + 1" "pre @ [push_bit 5 m OR 27]" 8 "be_bytes 8 (unat a)" rest]
        word_be_bytes[of 8 a] by simp
    with 5 \<open>\<not> a \<le> 23\<close> \<open>\<not> a \<le> 0xff\<close> \<open>\<not> a \<le> 0xffff\<close> parts show ?thesis
      by (simp add: head_def read_argument_def)
  qed
qed

lemma head_nonempty: "0 < length (head m a [])"
  by (simp add: head_def Let_def)

lemma write_value_nonempty: "0 < length (write_value v)"
  by (cases v) (use head_nonempty in auto)

lemma read_left_head:
  assumes "m < 8"
  shows "\<exists>b. read_left (Suc left) (pre @ head m a [] @ rest) (length pre)
    = read_body (read_left left) (pre @ head m a [] @ rest) (length pre) m (b AND 0x1f) a
        (length pre + length (head m a []))"
  using read_head[OF assms, of pre a rest] head_nonempty[of m a] by (auto simp: Let_def)

section \<open>Round trip\<close>

lemma depth_Array: "x \<in> set items \<Longrightarrow> depth x < depth (Array items)"
  by (induction items) (auto simp: less_Suc_eq_le le_max_iff_disj less_max_iff_disj)

lemma depth_Map: "(k, x) \<in> set entries \<Longrightarrow> depth x < depth (Map entries)"
  by (induction entries) (auto simp: less_max_iff_disj)

lemma concat_nonempty_length: "(\<And>x. x \<in> set xs \<Longrightarrow> 0 < length (f x)) \<Longrightarrow> length xs \<le> length (concat (map f xs))"
proof (induction xs)
  case (Cons x xs)
  then have "0 < length (f x)" "length xs \<le> length (concat (map f xs))" by simp_all
  then show ?case by (simp del: length_greater_0_conv)
qed simp

lemma sort_key_map: "sort_key f (map g xs) = map g (sort_key (f \<circ> g) xs)"
proof -
  have "insort_key f (g x) (map g ys) = map g (insort_key (f \<circ> g) x ys)" for x ys
    by (induction ys) auto
  then show ?thesis by (induction xs) (simp_all add: sort_key_def)
qed

abbreviation write_entry :: "bytes \<times> cbor_value \<Rightarrow> bytes" where
  "write_entry \<equiv> \<lambda>(k, v). write_value (Text k) @ write_value v"

abbreviation canonical_entries :: "(bytes, cbor_value) btree \<Rightarrow> (bytes, cbor_value) btree" where
  "canonical_entries \<equiv> sort_key (canonical_key \<circ> fst)"

lemma write_value_Map:
  "write_value (Map entries) = head 5 (word_of_nat (length entries)) [] @
     concat (map write_entry (canonical_entries entries))"
  by (simp add: sort_key_map comp_def case_prod_unfold)

declare write_value.simps(6) [simp del]

lemma read_left_text:
  assumes "0 < L" "wf_value (Text k)"
  shows "read_left L (pre @ write_value (Text k) @ rest) (length pre)
    = Inr (Text k, length pre + length (write_value (Text k)))"
proof -
  obtain left where L: "L = Suc left" using assms(1) by (cases L) auto
  have "unat (word_of_nat (length k) :: u64) = length k"
    using assms(2) by (simp add: unat_of_nat)
  then show ?thesis
    using read_left_head[of 3 left pre "word_of_nat (length k)" "k @ rest"] assms(2)
    by (auto simp: L read_body_def Let_def simp del: read_left.simps)
qed

lemma read_entries_written:
  assumes "\<And>k v pre rest. (k, v) \<in> set es \<Longrightarrow>
      rd (pre @ write_value (Text k) @ rest) (length pre) = Inr (Text k, length pre + length (write_value (Text k)))"
    and "\<And>k v pre rest. (k, v) \<in> set es \<Longrightarrow>
      rd (pre @ write_value v @ rest) (length pre) = Inr (v, length pre + length (write_value v))"
  shows "read_entries rd (length es) (pre @ concat (map write_entry es) @ rest) (length pre) acc
    = Inr (foldl (\<lambda>m (k, v). bt_insert k v m) acc es, length pre + length (concat (map write_entry es)))"
  using assms
proof (induction es arbitrary: pre acc)
  case (Cons e es)
  obtain k v where e: "e = (k, v)" by (cases e)
  let ?tail = "concat (map write_entry es) @ rest"
  have key: "rd (pre @ write_value (Text k) @ write_value v @ ?tail) (length pre)
      = Inr (Text k, length pre + length (write_value (Text k)))"
    by (rule Cons.prems(1)[of k v]) (simp add: e)
  have item: "rd ((pre @ write_value (Text k)) @ write_value v @ ?tail) (length (pre @ write_value (Text k)))
      = Inr (v, length (pre @ write_value (Text k)) + length (write_value v))"
    by (rule Cons.prems(2)[of k v]) (simp add: e)
  have "read_entries rd (length es) ((pre @ write_value (Text k) @ write_value v) @ ?tail)
      (length (pre @ write_value (Text k) @ write_value v)) (bt_insert k v acc)
    = Inr (foldl (\<lambda>m (k, v). bt_insert k v m) (bt_insert k v acc) es,
        length (pre @ write_value (Text k) @ write_value v) + length (concat (map write_entry es)))"
  proof (rule Cons.IH)
    fix k v pre rest assume kv: "(k, v) \<in> set es"
    show "rd (pre @ write_value (Text k) @ rest) (length pre) = Inr (Text k, length pre + length (write_value (Text k)))"
      by (rule Cons.prems(1)[of k v]) (simp add: kv)
    show "rd (pre @ write_value v @ rest) (length pre) = Inr (v, length pre + length (write_value v))"
      by (rule Cons.prems(2)[of k v]) (simp add: kv)
  qed
  then show ?case
    using key item by (simp add: e add.assoc del: write_value.simps)
qed simp

lemma bt_get_foldl_insert:
  "distinct (map fst es) \<Longrightarrow>
   bt_get (foldl (\<lambda>m (k, v). bt_insert k v m) acc es) = bt_get acc ++ bt_get es"
proof (induction es arbitrary: acc)
  case (Cons e es)
  obtain k v where e: "e = (k, v)" by (cases e)
  have "bt_get es k = None" using Cons.prems by (simp add: e map_of_eq_None_iff)
  with Cons show ?case by (auto simp: e map_add_def fun_eq_iff split: option.splits)
qed simp

lemma bt_ok_foldl_insert: "bt_ok acc \<Longrightarrow> bt_ok (foldl (\<lambda>m (k, v). bt_insert k v m) acc es)"
  by (induction es arbitrary: acc) auto

text \<open>Inserting the entries of an ordered map in any order rebuilds it.\<close>

lemma bt_rebuild_from_permutation:
  assumes "bt_ok entries" "set es = set entries" "distinct (map fst es)"
  shows "foldl (\<lambda>m (k, v). bt_insert k v m) [] es = entries"
proof (rule bt_ext)
  have "bt_get es = bt_get entries"
    using map_of_eq_Some_iff[OF assms(3)] bt_get_eq_Some[OF assms(1)] assms(2)
    by (intro ext) (metis not_Some_eq)
  then show "bt_get (foldl (\<lambda>m (k, v). bt_insert k v m) [] es) = bt_get entries"
    using bt_get_foldl_insert[OF assms(3), of "[]"] by simp
qed (use assms bt_ok_foldl_insert[of "[]"] in auto)

lemma canonical_entries_rebuild:
  assumes "bt_ok entries"
  shows "foldl (\<lambda>m (k, v). bt_insert k v m) [] (canonical_entries entries) = entries"
proof (rule bt_rebuild_from_permutation[OF assms])
  have "distinct entries" "inj_on fst (set entries)"
    using bt_ok_distinct[OF assms] by (simp_all add: distinct_map)
  then show "distinct (map fst (canonical_entries entries))"
    by (simp add: distinct_map)
qed simp

lemma read_left_written:
  "wf_value v \<Longrightarrow> depth v < L \<Longrightarrow>
   read_left L (pre @ write_value v @ rest) (length pre) = Inr (v, length pre + length (write_value v))"
proof (induction v arbitrary: L pre rest rule: write_value.induct)
  case (1 v)
  then show ?case
    using read_left_head[of 0 "L - 1" pre v rest] by (auto simp: read_body_def simp del: read_left.simps)
next
  case (2 v)
  have "unat (- 1 - v) < 2 ^ 63"
  proof -
    have "bit v 63" using 2 bit_last_iff[of v] by simp
    then have "take_bit 63 (NOT v) = NOT v"
      by (intro bit_word_eqI) (auto simp: bit_simps less_Suc_eq numeral_eq_Suc)
    then have "unat (NOT v) = take_bit 63 (unat (NOT v))"
      by (metis unsigned_take_bit_eq)
    then have "unat (NOT v) < 2 ^ 63" by (metis take_bit_nat_less_exp)
    moreover have "- 1 - v = NOT v" by (simp add: not_eq_complement)
    ultimately show ?thesis by simp
  qed
  then show ?case
    using read_left_head[of 1 "L - 1" pre "- 1 - v" rest] 2
    by (auto simp: read_body_def simp del: read_left.simps)
next
  case (3 v)
  have "unat (word_of_nat (length v) :: u64) = length v"
    using 3 by (simp add: unat_of_nat)
  then show ?case
    using read_left_head[of 2 "L - 1" pre "word_of_nat (length v)" "v @ rest"] 3
    by (auto simp: read_body_def Let_def simp del: read_left.simps)
next
  case (4 v)
  then show ?case by (intro read_left_text) auto
next
  case (5 items)
  then obtain left where L: "L = Suc left" by (cases L) auto
  let ?h = "head 4 (word_of_nat (length items)) []"
  have n: "unat (word_of_nat (length items) :: u64) = length items"
    using 5 by (simp add: unat_of_nat)
  have fold: "foldl (\<lambda>out x. out @ write_value x) out items = out @ concat (map write_value items)" for out
    by (induction items arbitrary: out) auto
  have many: "read_many (read_left left) (length items) ((pre @ ?h) @ concat (map write_value items) @ rest)
      (length (pre @ ?h)) = Inr (items, length (pre @ ?h) + length (concat (map write_value items)))"
    using read_many_foldl[of "\<lambda>out x. out @ write_value x" items "read_left left" "pre @ ?h" rest]
      5 depth_Array[of _ items]
    by (force simp: fold L list_all_iff)
  have "length items \<le> length (concat (map write_value items))"
    by (rule concat_nonempty_length) (rule write_value_nonempty)
  then show ?case
    using read_left_head[of 4 left pre "word_of_nat (length items)" "concat (map write_value items) @ rest"] many
    by (auto simp: read_body_def Let_def n L simp del: read_left.simps)
next
  case (6 entries)
  then obtain left where L: "L = Suc left" by (cases L) auto
  let ?h = "head 5 (word_of_nat (length entries)) []"
  let ?es = "canonical_entries entries"
  have n: "unat (word_of_nat (length entries) :: u64) = length entries"
    using 6 by (simp add: unat_of_nat)
  have el: "utf8_valid k \<and> length k < 2 ^ 64 \<and> wf_value v \<and> depth v < left" if "(k, v) \<in> set entries" for k v
    using 6 that depth_Map[OF that] by (force simp: L list_all_iff)
  have many: "read_entries (read_left left) (length ?es) ((pre @ ?h) @ concat (map write_entry ?es) @ rest)
      (length (pre @ ?h)) [] = Inr (entries, length (pre @ ?h) + length (concat (map write_entry ?es)))"
  proof (subst read_entries_written)
    fix k v pre rest assume kv: "(k, v) \<in> set ?es"
    then have "0 < left" using el[of k v] by simp
    then show "read_left left (pre @ write_value (Text k) @ rest) (length pre)
        = Inr (Text k, length pre + length (write_value (Text k)))"
      using kv el[of k v] by (intro read_left_text) auto
    show "read_left left (pre @ write_value v @ rest) (length pre) = Inr (v, length pre + length (write_value v))"
      using 6 kv el[of k v] by auto
  qed (use 6 canonical_entries_rebuild in simp)
  have "length ?es \<le> length (concat (map write_entry ?es))"
    by (rule concat_nonempty_length) (use write_value_nonempty in auto)
  then show ?case
    using read_left_head[of 5 left pre "word_of_nat (length entries)" "concat (map write_entry ?es) @ rest"] many
    by (auto simp: read_body_def Let_def n L write_value_Map simp del: read_left.simps)
next
  case (7 v)
  then obtain left where L: "L = Suc left" by (cases L) auto
  have "drop_bit 5 (0xf5 :: u8) = 7" "(0xf5 :: u8) AND 0x1f = 21" "drop_bit 5 (0xf4 :: u8) = 7"
    "(0xf4 :: u8) AND 0x1f = 20" by simp_all
  then show ?case by (simp add: L Let_def read_argument_def read_body_def)
next
  case 8
  then obtain left where L: "L = Suc left" by (cases L) auto
  have "drop_bit 5 (0xf6 :: u8) = 7" "(0xf6 :: u8) AND 0x1f = 22" by simp_all
  then show ?case by (simp add: L Let_def read_argument_def read_body_def)
next
  case (9 v)
  then obtain left where L: "L = Suc left" by (cases L) auto
  have "drop_bit 5 (0xfb :: u8) = 7" "(0xfb :: u8) AND 0x1f = 27" by simp_all
  moreover have "read_be (pre @ 0xfb # be_bytes 8 (unat v) @ rest) (length pre + 1) 8 = Inr v"
    using read_be_at[of "length pre + 1" "pre @ [0xfb]" 8 "be_bytes 8 (unat v)" rest] word_be_bytes[of 8 v]
    by simp
  ultimately show ?case
    using word_be_bytes[of 8 v] by (simp add: L Let_def read_argument_def read_body_def)
qed

interpretation cbor: codec "\<lambda>out v. write_to v out" "\<lambda>bs at. read bs at 0"
  "\<lambda>v. wf_value v \<and> depth v \<le> MAX_DEPTH"
proof unfold_locales
  fix v pre rest assume "wf_value v \<and> depth v \<le> MAX_DEPTH"
  then show "read (write_to v pre @ rest) (length pre) 0 = Inr (v, length (write_to v pre))"
    using read_left_written[of v "MAX_DEPTH + 1" pre rest] by (simp add: read_def write_to_def)
qed (simp add: write_to_def)

lemma decode_encode: "wf_value v \<Longrightarrow> depth v \<le> MAX_DEPTH \<Longrightarrow> decode (encode v) = Inr v"
  using cbor.get_put[of v "[]" "[]"] by (simp add: decode_def encode_def)

section \<open>What the reader returns\<close>

lemma read_argument_Inr:
  assumes "read_argument bs at short = Inr (a, used)" "at < length bs"
  shows "at < used \<and> used \<le> length bs"
  using assms by (auto simp: read_argument_def read_be_def result_convs split: if_splits)

lemma sint_complement_negative: "unat (a :: u64) < 2 ^ 63 \<Longrightarrow> sint (- 1 - a) < 0"
proof -
  assume "unat a < 2 ^ 63"
  then have "take_bit 63 (unat a) = unat a" by (simp add: take_bit_nat_eq_self)
  then have "take_bit 63 a = a" by (simp only: word_unat_eq_iff unsigned_take_bit_eq)
  then have "bit a 63 = bit (take_bit 63 a) 63" by simp
  then have "\<not> bit a 63" by (simp add: bit_simps)
  then have "bit (NOT a) 63" by (simp add: bit_simps)
  moreover have "- 1 - a = NOT a" by (simp add: not_eq_complement)
  ultimately show ?thesis using bit_last_iff[of "NOT a"] by simp
qed

lemma read_entries_invariant:
  assumes "read_entries rd n bs used acc = Inr (es, fin)" "used \<le> length bs" "bt_ok acc"
    and "list_all (\<lambda>(k, v). utf8_valid k \<and> length k < 2 ^ 64 \<and> P v) acc"
    and "\<And>pos x next. rd bs pos = Inr (x, next) \<Longrightarrow> wf_value x \<and> P x \<and> pos < next \<and> next \<le> length bs"
  shows "bt_ok es \<and> used \<le> fin \<and> fin \<le> length bs \<and> length es \<le> length acc + n \<and>
    list_all (\<lambda>(k, v). utf8_valid k \<and> length k < 2 ^ 64 \<and> P v) es"
  using assms(1-4)
proof (induction n arbitrary: used acc)
  case (Suc n)
  then obtain kv p k v q where r: "rd bs used = Inr (kv, p)" "as_text kv = Some k" "rd bs p = Inr (v, q)"
      "read_entries rd n bs q (bt_insert k v acc) = Inr (es, fin)"
    by (auto simp: result_convs)
  have kv: "kv = Text k" using r(2) by (cases kv) auto
  have ins: "set (bt_insert k v acc) \<subseteq> insert (k, v) (set acc)" for k :: bytes and v :: cbor_value and acc
    by (induction k v acc rule: bt_insert.induct) auto
  have len: "length (bt_insert k v acc) \<le> Suc (length acc)" for k :: bytes and v :: cbor_value and acc
    by (induction k v acc rule: bt_insert.induct) auto
  have "list_all (\<lambda>(k, v). utf8_valid k \<and> length k < 2 ^ 64 \<and> P v) (bt_insert k v acc)"
    using assms(5)[OF r(1)] assms(5)[OF r(3)] Suc.prems(4) ins[of k v acc] by (auto simp: kv list_all_iff)
  with Suc.IH[OF r(4)] assms(5)[OF r(1)] assms(5)[OF r(3)] Suc.prems(3) len[of k v acc]
  show ?case by auto
qed simp

lemma foldr_max_less: "0 < (n::nat) \<Longrightarrow> list_all (\<lambda>x. f x < n) xs \<Longrightarrow> foldr max (map f xs) 0 < n"
  by (induction xs) auto

lemma read_left_invariant:
  assumes "read_left L bs at = Inr (v, used)" "length bs < 2 ^ 64"
  shows "wf_value v \<and> depth v < L \<and> at < used \<and> used \<le> length bs"
  using assms(1)
proof (induction L arbitrary: at v used)
  case (Suc L)
  define major short where "major = drop_bit 5 (bs ! at)" and "short = bs ! at AND 0x1f"
  obtain a p where lt: "at < length bs" and arg: "read_argument bs at short = Inr (a, p)"
    and body: "read_body (read_left L) bs at major short a p = Inr (v, used)"
    using Suc.prems by (auto simp: Let_def major_def short_def result_convs split: if_splits)
  have p: "at < p" "p \<le> length bs" using read_argument_Inr[OF arg lt] by auto
  have IH: "wf_value x \<and> depth x < L \<and> pos < next \<and> next \<le> length bs"
    if "read_left L bs pos = Inr (x, next)" for pos x "next"
    using Suc.IH[OF that] .
  consider (arr) "major = 4" | (map) "major = 5" | (other) "major \<noteq> 4" "major \<noteq> 5" by blast
  then show ?case
  proof cases
    case arr
    then obtain items where r: "read_many (read_left L) (unat a) bs p = Inr (items, used)" "v = Array items"
      and n: "unat a \<le> length bs - p"
      using body by (auto simp: read_body_def Let_def result_convs split: if_splits)
    have "list_all (\<lambda>x. wf_value x \<and> depth x < L) items \<and> p \<le> used \<and> used \<le> length bs"
      by (rule read_many_invariant[OF r(1) p(2)]) (use IH in blast)
    then show ?thesis
      using r p n assms(2) read_many_length[OF r(1)] foldr_max_less[of "Suc L" "\<lambda>v. Suc (depth v)" items]
      by (auto simp: list_all_iff)
  next
    case map
    then obtain es where r: "read_entries (read_left L) (unat a) bs p [] = Inr (es, used)" "v = Map es"
      and n: "unat a \<le> length bs - p"
      using body by (auto simp: read_body_def Let_def result_convs split: if_splits)
    have "bt_ok es \<and> p \<le> used \<and> used \<le> length bs \<and> length es \<le> length ([] :: (bytes \<times> cbor_value) list) + unat a \<and>
        list_all (\<lambda>(k, v). utf8_valid k \<and> length k < 2 ^ 64 \<and> wf_value v \<and> depth v < L) es"
      by (rule read_entries_invariant[OF r(1) p(2)]) (use IH in auto)
    moreover from this have "foldr max (map (\<lambda>(k, v). Suc (depth v)) es) 0 < Suc L"
      by (intro foldr_max_less) (auto simp: list_all_iff)
    ultimately show ?thesis using r p n assms(2) by (auto simp: list_all_iff)
  next
    case other
    then show ?thesis
      using body p assms(2) sint_complement_negative[of a]
      by (auto simp: read_body_def Let_def split: if_splits)
  qed
qed simp

lemma decode_wf: "decode bs = Inr v \<Longrightarrow> length bs < 2 ^ 64 \<Longrightarrow> wf_value v \<and> depth v \<le> MAX_DEPTH"
  using read_left_invariant[of "MAX_DEPTH + 1" bs 0 v] by (auto simp: decode_def read_def result_convs split: if_splits)

section \<open>Canonical form\<close>

lemma head_length:
  "length (head m a []) = (if a \<le> 23 then 1 else if a \<le> 0xff then 2 else if a \<le> 0xffff then 3
     else if a \<le> 0xffffffff then 5 else 9)"
  by (simp add: head_def Let_def)

lemma read_be_bound:
  "read_be bs at w = Inr a \<Longrightarrow> w \<le> 8 \<Longrightarrow> unat a < 256 ^ w"
proof -
  assume r: "read_be bs at w = Inr a" and "w \<le> 8"
  then have a: "a = word_of_nat (be_nat (take w (drop at bs)))" and "length (take w (drop at bs)) = w"
    by (auto simp: read_be_def foldl_shift_or split: if_splits)
  then have "be_nat (take w (drop at bs)) < 256 ^ w" using be_nat_bound[of "take w (drop at bs)"] by metis
  moreover have "(256::nat) ^ w \<le> 256 ^ 8" using \<open>w \<le> 8\<close> by (intro power_increasing) auto
  ultimately show ?thesis unfolding a by (simp add: unat_of_nat)
qed

lemma head_shortest:
  assumes "read_argument bs at short = Inr (a, used)"
  shows "length (head m a []) \<le> used - at"
proof -
  have "short \<le> 23 \<Longrightarrow> ucast short \<le> (23 :: u64)"
    by (simp add: word_le_nat_alt unsigned_ucast_eq take_bit_nat_eq_self)
  then show ?thesis
    using assms read_be_bound[of bs "at + 1" 1 a] read_be_bound[of bs "at + 1" 2 a] read_be_bound[of bs "at + 1" 4 a]
    by (auto simp: read_argument_def head_length result_convs word_le_nat_alt split: if_splits)
qed


text \<open>Big-endian bytes of a fixed width compare as the numbers do.\<close>

lemma le_bytes_snoc: "le_bytes (Suc k) v = le_bytes k v @ [word_of_nat (v div 256 ^ k)]"
proof (induction k arbitrary: v)
  case (Suc k)
  have "v div 256 div 256 ^ k = v div 256 ^ Suc k" by (simp add: div_mult2_eq)
  then show ?case using Suc[of "v div 256"] by simp
qed simp

lemma be_bytes_Suc: "be_bytes (Suc k) v = word_of_nat (v div 256 ^ k) # be_bytes k v"
  unfolding be_bytes_def le_bytes_snoc by simp

lemma le_bytes_mod: "le_bytes k (v mod 256 ^ k) = le_bytes k v"
proof (induction k arbitrary: v)
  case (Suc k)
  have a: "v mod 256 ^ Suc k mod 256 = v mod 256" by (simp add: mod_mult2_eq)
  have b: "v mod 256 ^ Suc k div 256 = v div 256 mod 256 ^ k"
    by (simp add: mod_mult2_eq)
  have "(word_of_nat (v mod 256 ^ Suc k) :: u8) = word_of_nat v"
    by (simp only: word_unat_eq_iff unat_byte_of_nat a)
  then show ?case using Suc[of "v div 256"] b by simp
qed simp

lemma be_bytes_less:
  "a < b \<Longrightarrow> b < 256 ^ k \<Longrightarrow> be_bytes k a @ x < be_bytes k b @ y"
proof (induction k arbitrary: a b)
  case (Suc k)
  let ?p = "256 ^ k :: nat"
  have dlt: "a div ?p < 256" "b div ?p < 256"
    using Suc.prems by (auto intro!: less_mult_imp_div_less)
  show ?case
  proof (cases "a div ?p < b div ?p")
    case True
    then have "(word_of_nat (a div ?p) :: u8) < word_of_nat (b div ?p)"
      using dlt by (simp add: word_less_nat_alt)
    then show ?thesis by (simp add: be_bytes_Suc)
  next
    case False
    moreover have "a div ?p \<le> b div ?p" using Suc.prems by (intro div_le_mono) simp
    ultimately have eq: "a div ?p = b div ?p" by simp
    then have "a mod ?p < b mod ?p"
      using Suc.prems by (metis add_less_cancel_left mult_div_mod_eq)
    from Suc.IH[OF this, of] have "be_bytes k a @ x < be_bytes k b @ y"
      by (simp add: be_bytes_def le_bytes_mod)
    then show ?thesis by (simp add: be_bytes_Suc eq)
  qed
qed simp

lemma initial_byte:
  fixes c :: u8
  assumes "c < 32"
  shows "unat (push_bit 5 3 OR c) = 96 + unat c"
proof -
  have "take_bit 5 c = c"
    using assms by (simp add: word_unat_eq_iff unsigned_take_bit_eq word_less_nat_alt take_bit_nat_eq_self)
  then have bits: "n < 5" if "bit c n" for n
    using that by (metis bit_take_bit_iff)
  have "push_bit 5 3 AND c = 0"
    by (rule bit_word_eqI) (auto simp: bit_simps simp del: push_bit_numeral dest: bits)
  then have "push_bit 5 3 OR c = push_bit 5 3 + c"
    by (metis disjunctive_add_eq_or)
  then show ?thesis using assms by (simp add: unat_word_ariths word_less_nat_alt)
qed

lemma initial_small:
  "(a :: u64) \<le> 23 \<Longrightarrow> unat (push_bit 5 3 OR ucast a :: u8) = 96 + unat a"
  using initial_byte[of "ucast a"] ucast_le_byte(2)[of a] by (simp add: word_le_nat_alt word_less_nat_alt)

lemma head_less:
  fixes a b :: u64
  assumes "a < b"
  shows "head 3 a [] @ x < head 3 b [] @ y"
proof -
  have ab: "unat a < unat b" using assms by (simp add: word_less_nat_alt)
  have k: "(push_bit 5 3 OR 24 :: u8) = 0x78" "(push_bit 5 3 OR 25 :: u8) = 0x79"
    "(push_bit 5 3 OR 26 :: u8) = 0x7a" "(push_bit 5 3 OR 27 :: u8) = 0x7b" by simp_all
  note le = word_le_nat_alt and lt = word_less_nat_alt
  consider "b \<le> 23" | "a \<le> 23" "\<not> b \<le> 23" | "\<not> a \<le> 23" "b \<le> 0xff"
    | "\<not> a \<le> 23" "a \<le> 0xff" "\<not> b \<le> 0xff" | "\<not> a \<le> 0xff" "b \<le> 0xffff"
    | "\<not> a \<le> 0xff" "a \<le> 0xffff" "\<not> b \<le> 0xffff" | "\<not> a \<le> 0xffff" "b \<le> 0xffffffff"
    | "\<not> a \<le> 0xffff" "a \<le> 0xffffffff" "\<not> b \<le> 0xffffffff" | "\<not> a \<le> 0xffffffff"
    by blast
  then show ?thesis
  proof cases
    case 1
    then have "a \<le> 23" using ab by (simp add: le)
    with 1 ab initial_small[of a] initial_small[of b] show ?thesis
      by (simp add: head_def Let_def lt)
  next
    case 2
    with initial_small[of a] show ?thesis by (simp add: head_def Let_def k lt le)
  next
    case 3
    then have "\<not> b \<le> 23" "a \<le> 0xff" using ab by (simp_all add: le)
    with 3 ab ucast_le_byte(2)[of a] ucast_le_byte(2)[of b] show ?thesis
      by (simp add: head_def Let_def k lt)
  next
    case 4
    then have "\<not> b \<le> 23" by (simp add: le)
    with 4 show ?thesis by (simp add: head_def Let_def k)
  next
    case 5
    then have o: "\<not> a \<le> 23" "\<not> b \<le> 23" "\<not> b \<le> 0xff" "a \<le> 0xffff" using ab by (simp_all add: le)
    have "be_bytes 2 (unat a) @ x < be_bytes 2 (unat b) @ y"
      using ab 5 by (intro be_bytes_less) (simp_all add: le)
    with 5 o show ?thesis by (simp add: head_def Let_def k ucast_le_byte)
  next
    case 6
    then have "\<not> a \<le> 23" "\<not> b \<le> 23" "\<not> b \<le> 0xff" by (simp_all add: le)
    with 6 show ?thesis by (simp add: head_def Let_def k)
  next
    case 7
    then have o: "\<not> a \<le> 23" "\<not> a \<le> 0xff" "\<not> b \<le> 23" "\<not> b \<le> 0xff" "\<not> b \<le> 0xffff" "a \<le> 0xffffffff"
      using ab by (simp_all add: le)
    have "be_bytes 4 (unat a) @ x < be_bytes 4 (unat b) @ y"
      using ab 7 by (intro be_bytes_less) (simp_all add: le)
    with 7 o show ?thesis by (simp add: head_def Let_def k ucast_le_byte)
  next
    case 8
    then have "\<not> a \<le> 23" "\<not> a \<le> 0xff" "\<not> b \<le> 23" "\<not> b \<le> 0xff" "\<not> b \<le> 0xffff" by (simp_all add: le)
    with 8 show ?thesis by (simp add: head_def Let_def k)
  next
    case 9
    then have o: "\<not> a \<le> 23" "\<not> a \<le> 0xff" "\<not> a \<le> 0xffff"
      "\<not> b \<le> 23" "\<not> b \<le> 0xff" "\<not> b \<le> 0xffff" "\<not> b \<le> 0xffffffff" using ab by (simp_all add: le)
    have "be_bytes 8 (unat a) @ x < be_bytes 8 (unat b) @ y"
      using ab unsigned_less[of b, where 'a = nat] by (intro be_bytes_less) simp_all
    with 9 o show ?thesis by (simp add: head_def Let_def k)
  qed
qed

lemma append_less_left: "(xs :: 'a::linorder list) < ys \<Longrightarrow> zs @ xs < zs @ ys"
  by (induction zs) auto

lemma written_key_less:
  assumes "canonical_key k < canonical_key k'" "length k' < 2 ^ 64"
  shows "write_value (Text k) < write_value (Text k')"
proof (cases "length k < length k'")
  case True
  then have "(word_of_nat (length k) :: u64) < word_of_nat (length k')"
    using assms(2) by (simp add: word_less_nat_alt unat_of_nat)
  then show ?thesis using head_less by simp
next
  case False
  then have "length k = length k'" "k < k'"
    using assms(1) by (auto simp: canonical_key_def)
  then show ?thesis by (simp add: append_less_left)
qed

lemma canonical_entries_ascending:
  assumes "wf_value (Map entries)"
  shows "sorted_wrt (<) (map (\<lambda>(k, v). write_value (Text k)) (canonical_entries entries))"
proof -
  have ok: "bt_ok entries" and len: "\<And>k v. (k, v) \<in> set entries \<Longrightarrow> length k < 2 ^ 64"
    using assms by (auto simp: list_all_iff)
  let ?es = "canonical_entries entries"
  have "sorted (map (canonical_key \<circ> fst) ?es)" by (rule sorted_sort_key)
  moreover have "distinct (map (canonical_key \<circ> fst) ?es)"
  proof -
    have "distinct entries" "inj_on fst (set entries)" using bt_ok_distinct[OF ok] by (simp_all add: distinct_map)
    moreover have "inj canonical_key" by (auto simp: inj_on_def canonical_key_def)
    ultimately show ?thesis by (simp add: distinct_map comp_inj_on inj_on_subset)
  qed
  ultimately have "sorted_wrt (<) (map (canonical_key \<circ> fst) ?es)" by (simp add: strict_sorted_iff)
  then have "sorted_wrt (\<lambda>p q. canonical_key (fst p) < canonical_key (fst q)) ?es"
    by (simp add: sorted_wrt_map)
  then have "sorted_wrt (\<lambda>p q. write_value (Text (fst p)) < write_value (Text (fst q))) ?es"
    by (rule sorted_wrt_mono_rel[rotated]) (use len in \<open>auto simp del: write_value.simps intro!: written_key_less\<close>)
  then show ?thesis by (simp add: sorted_wrt_map case_prod_beta)
qed

section \<open>Properties\<close>

text \<open>C8: The reader returns exactly the value the writer was given, for every value the
  Rust types can hold that nests at most \<open>MAX_DEPTH\<close> levels: \<open>decode(encode(v)) = v\<close>,
  maps with their entries in any wire order included.\<close>

theorem cbor_round_trip:
  assumes "wf_value v" and "depth v \<le> MAX_DEPTH"
  shows "decode (encode v) = Inr v"
  using assms by (rule decode_encode)

theorem cbor_round_trip_witness:
  "decode (encode (Map [([0x61], Array [Unsigned 1000, Null]), ([0x62], Negative (- 5))]))
     = Inr (Map [([0x61], Array [Unsigned 1000, Null]), ([0x62], Negative (- 5))])"
  by (rule cbor_round_trip) (simp_all add: bt_ok_def utf8_valid.simps MAX_DEPTH_def)

text \<open>C23: Whatever bytes the reader is given, it returns (it is total), and a value it
  accepts is well formed: its text is UTF-8, its maps have distinct text keys in
  order, its negative numbers are negative, and it nests no deeper than \<open>MAX_DEPTH\<close>.
  A hostile file can therefore neither exhaust the stack nor build an ill-typed
  value.\<close>

theorem cbor_decode_type_safe:
  assumes "length bs < 2 ^ 64" and "decode bs = Inr v"
  shows "wf_value v \<and> depth v \<le> MAX_DEPTH"
  using assms(2,1) by (rule decode_wf)

theorem cbor_decode_type_safe_witness:
  "decode [0x82, 0x01, 0x61, 0x41] = Inr (Array [Unsigned 1, Text [0x41]]) \<and>
   wf_value (Array [Unsigned 1, Text [0x41]]) \<and> depth (Array [Unsigned 1, Text [0x41]]) \<le> MAX_DEPTH"
proof -
  have d: "decode [0x82, 0x01, 0x61, 0x41] = Inr (Array [Unsigned 1, Text [0x41]])" by code_simp
  show ?thesis using d cbor_decode_type_safe[OF _ d] by simp
qed

text \<open>The keys of a map are written in the canonical order of RFC 8949 section 4.2.1:
  the encoded keys ascend strictly in bytewise lexicographic order, so two
  writers of the same map produce the same bytes.\<close>

theorem cbor_keys_canonical:
  assumes "wf_value (Map entries)"
  shows "write_value (Map entries) = head 5 (word_of_nat (length entries)) [] @
      concat (map (\<lambda>(k, v). write_value (Text k) @ write_value v) (canonical_entries entries))
    \<and> sorted_wrt (<) (map (\<lambda>(k, v). write_value (Text k)) (canonical_entries entries))
    \<and> set (canonical_entries entries) = set entries"
  using canonical_entries_ascending[OF assms] write_value_Map[of entries] by simp

theorem cbor_keys_canonical_witness:
  "canonical_entries [([0x61, 0x61], Null), ([0x62], Null)] = [([0x62], Null), ([0x61, 0x61], Null)]
   \<and> sorted_wrt (<) (map (\<lambda>(k, v). write_value (Text k)) (canonical_entries [([0x61, 0x61], Null), ([0x62], Null)]))"
proof -
  have wf: "wf_value (Map [([0x61, 0x61], Null), ([0x62], Null)])"
    by (simp add: bt_ok_def utf8_valid.simps)
  show ?thesis using cbor_keys_canonical[OF wf] by (simp add: canonical_key_def)
qed

text \<open>The writer uses the shortest head for every length and integer: whatever head
  form the reader accepts for an argument, the written one is no longer.\<close>

theorem cbor_head_shortest:
  assumes "read_argument bs at short = Inr (argument, used)"
  shows "length (head major argument []) \<le> used - at"
  using assms by (rule head_shortest)

theorem cbor_head_shortest_witness:
  "read_argument [0x19, 0x00, 0x17] 0 25 = Inr (23, 3) \<and> length (head 0 23 []) \<le> 3 - 0"
proof -
  have r: "read_argument [0x19, 0x00, 0x17] 0 25 = Inr (23, 3)" by code_simp
  show ?thesis using r cbor_head_shortest[OF r, of 0] by simp
qed

end
