(* ===== verification/Keys.thy ===== *)
theory Keys
  imports Segment_Format
begin

text \<open>
  The envelope around an encrypted block, \<^verbatim>\<open>tallyowl-store/src/keys.rs\<close>: a block is a
  fresh nonce followed by the AES-256-GCM output, and its associated data names
  the segment and the offset, so a block cannot be moved to another place.

  The cipher itself is a third-party package. It is the parameter \<open>cipher\<close>, the
  encryption and decryption under one project key; the system's random draw is
  the parameter \<open>draw\<close>, \<open>None\<close> when the system refuses to give one.
\<close>

definition NONCE_BYTES :: nat where
  "NONCE_BYTES = 12"

definition TAG_BYTES :: nat where
  "TAG_BYTES = 16"

definition OVERHEAD_BYTES :: nat where
  "OVERHEAD_BYTES = NONCE_BYTES + TAG_BYTES"

text \<open>Nonce, associated data, message.\<close>

record cipher =
  encrypt :: "bytes \<Rightarrow> bytes \<Rightarrow> bytes \<Rightarrow> bytes option"
  decrypt :: "bytes \<Rightarrow> bytes \<Rightarrow> bytes \<Rightarrow> bytes option"
  key_generation :: u32

definition seal :: "cipher \<Rightarrow> bytes option \<Rightarrow> bytes \<Rightarrow> bytes \<Rightarrow> key_error + bytes" where
  "seal c draw plain context =
     and_then (ok_or draw (RootKey RandomUnavailable)) (\<lambda>nonce.
     and_then (ok_or (encrypt c nonce context plain) (KeyDamaged NotProtected)) (\<lambda>sealed.
       Inr (nonce @ sealed)))"

definition open_block :: "cipher \<Rightarrow> bytes \<Rightarrow> bytes \<Rightarrow> key_error + bytes" where
  "open_block c sealed context =
     (if length sealed < OVERHEAD_BYTES then Inl (KeyDamaged TooShort)
      else let nonce = take NONCE_BYTES sealed
           in ok_or (decrypt c nonce context (drop NONCE_BYTES sealed)) (KeyDamaged (NotReadableWith ''this project key'')))"

definition block_context :: "bytes \<Rightarrow> u64 \<Rightarrow> bytes" where
  "block_context segment_id offset = segment_id @ le_bytes 8 (unat offset)"

text \<open>
  What the code relies on of the cipher: decryption inverts encryption under the
  same nonce and associated data, and the output is the message and its tag.
\<close>

definition cipher_ok :: "cipher \<Rightarrow> bool" where
  "cipher_ok c \<longleftrightarrow> (\<forall>nonce context plain sealed. encrypt c nonce context plain = Some sealed \<longrightarrow>
     decrypt c nonce context sealed = Some plain \<and> length sealed = length plain + TAG_BYTES)"

text \<open>The draw is a full nonce when there is one.\<close>

definition draw_ok :: "bytes option \<Rightarrow> bool" where
  "draw_ok draw \<longleftrightarrow> (\<forall>nonce. draw = Some nonce \<longrightarrow> length nonce = NONCE_BYTES)"

lemma seal_length:
  "cipher_ok c \<Longrightarrow> draw_ok draw \<Longrightarrow> seal c draw plain context = Inr sealed \<Longrightarrow>
   length sealed = length plain + OVERHEAD_BYTES"
  by (auto simp: seal_def cipher_ok_def draw_ok_def OVERHEAD_BYTES_def result_convs)

lemma open_seal:
  "cipher_ok c \<Longrightarrow> draw_ok draw \<Longrightarrow> seal c draw plain context = Inr sealed \<Longrightarrow>
   open_block c sealed context = Inr plain"
  by (auto simp: seal_def open_block_def cipher_ok_def draw_ok_def OVERHEAD_BYTES_def result_convs)

text \<open>Two blocks of one installation never share their associated data.\<close>

lemma block_context_inj:
  "length s = length t \<Longrightarrow> block_context s a = block_context t b \<longleftrightarrow> s = t \<and> a = b"
proof
  assume "length s = length t" "block_context s a = block_context t b"
  then have "s = t" "le_bytes 8 (unat a) = le_bytes 8 (unat b)"
    by (simp_all add: block_context_def)
  moreover have "word_of_nat (le_nat (le_bytes 8 (unat a))) = a" "word_of_nat (le_nat (le_bytes 8 (unat b))) = b"
    by (simp_all add: word_le_bytes)
  ultimately show "s = t \<and> a = b" by metis
qed simp

section \<open>Properties\<close>

text \<open>C22: A sealed block opens to the bytes that were sealed when it is read at the
  segment and offset it was written at, and the place is bound into the block:
  two different places have different associated data.\<close>

theorem sealed_block_opens:
  assumes "cipher_ok c" and "draw_ok draw" and "length segment_id = 16" and "length other_segment = 16"
    and "seal c draw plain (block_context segment_id offset) = Inr sealed"
  shows "open_block c sealed (block_context segment_id offset) = Inr plain
    \<and> (block_context segment_id offset = block_context other_segment other_offset
        \<longleftrightarrow> segment_id = other_segment \<and> offset = other_offset)"
  using open_seal[OF assms(1,2,5)] block_context_inj[of segment_id other_segment] assms(3,4) by simp

definition toy_cipher :: cipher where
  "toy_cipher = \<lparr>encrypt = (\<lambda>nonce context plain. Some (rev plain @ replicate 16 0)),
     decrypt = (\<lambda>nonce context sealed. Some (rev (take (length sealed - 16) sealed))), key_generation = 1\<rparr>"

lemma toy_cipher_ok: "cipher_ok toy_cipher"
  by (auto simp: cipher_ok_def toy_cipher_def TAG_BYTES_def)

theorem sealed_block_opens_witness:
  "open_block toy_cipher (replicate 12 7 @ [3, 2, 1] @ replicate 16 0) (block_context (replicate 16 1) 5) = Inr [1, 2, 3]"
proof -
  have s: "seal toy_cipher (Some (replicate 12 7)) [1, 2, 3] (block_context (replicate 16 1) 5)
      = Inr (replicate 12 7 @ [3, 2, 1] @ replicate 16 0)"
    by (simp add: seal_def toy_cipher_def)
  show ?thesis
    using sealed_block_opens[OF toy_cipher_ok _ _ _ s, of "replicate 16 2"] by (simp add: draw_ok_def NONCE_BYTES_def)
qed

end
