(* ===== verification/Page.thy ===== *)
theory Page
  imports Keys
begin

text \<open>
  Column pages, \<^verbatim>\<open>tallyowl-store/src/segment/page.rs\<close>: the encoding of a column's
  values, the page header, the null bitmap, compression, encryption and the
  checksum around them, and the split of a column into pages.

  A float is its 64-bit pattern and an identifier is its 16 bytes. The hash and
  the compressor are third-party packages and are the record \<open>externs\<close>; the
  only law used of them is \<open>zstd_ok\<close>. \<open>usize\<close> additions of lengths that come from
  a file are written modulo \<open>2 ^ 64\<close>, as the release build computes them, and a
  slice whose bounds are out of order is \<open>Panicked\<close>.
\<close>

section \<open>Columns\<close>

datatype column =
    Timestamps "i64 list"
  | Integers "i64 list"
  | Unsigned "u64 list"
  | Floats "u64 list"
  | Booleans "bool list"
  | Identifiers "bytes list"
  | Text "bytes option list"
  | Bytes "bytes option list"

fun column_len :: "column \<Rightarrow> nat" where
  "column_len (Timestamps v) = length v"
| "column_len (Integers v) = length v"
| "column_len (Unsigned v) = length v"
| "column_len (Floats v) = length v"
| "column_len (Booleans v) = length v"
| "column_len (Identifiers v) = length v"
| "column_len (Text v) = length v"
| "column_len (Bytes v) = length v"

definition is_empty :: "column \<Rightarrow> bool" where
  "is_empty c \<longleftrightarrow> column_len c = 0"

definition sub :: "nat \<Rightarrow> nat \<Rightarrow> 'a list \<Rightarrow> 'a list" where
  "sub start end xs = take (end - start) (drop start xs)"

fun column_slice :: "column \<Rightarrow> nat \<Rightarrow> nat \<Rightarrow> column" where
  "column_slice (Timestamps v) start end = Timestamps (sub start end v)"
| "column_slice (Integers v) start end = Integers (sub start end v)"
| "column_slice (Unsigned v) start end = Unsigned (sub start end v)"
| "column_slice (Floats v) start end = Floats (sub start end v)"
| "column_slice (Booleans v) start end = Booleans (sub start end v)"
| "column_slice (Identifiers v) start end = Identifiers (sub start end v)"
| "column_slice (Text v) start end = Text (sub start end v)"
| "column_slice (Bytes v) start end = Bytes (sub start end v)"

fun column_encoding :: "column \<Rightarrow> encoding" where
  "column_encoding (Timestamps _) = VarintDelta"
| "column_encoding (Integers _) = VarintDelta"
| "column_encoding (Unsigned _) = Varint"
| "column_encoding (Floats _) = PlainFixed"
| "column_encoding (Booleans _) = PlainFixed"
| "column_encoding (Identifiers _) = SplitPrefix"
| "column_encoding (Text _) = OffsetBytes"
| "column_encoding (Bytes _) = OffsetBytes"

fun level :: "column \<Rightarrow> int" where
  "level (Floats _) = ZSTD_LEVEL_FLOAT"
| "level _ = ZSTD_LEVEL_DEFAULT"

fun nulls :: "column \<Rightarrow> bool list" where
  "nulls (Text v) = map (\<lambda>x. x = None) v"
| "nulls (Bytes v) = map (\<lambda>x. x = None) v"
| "nulls c = replicate (column_len c) False"

record page =
  page_column :: column
  page_rows :: nat

section \<open>Bits, one for each row\<close>

definition div_ceil :: "nat \<Rightarrow> nat \<Rightarrow> nat" where
  "div_ceil n d = (n + d - 1) div d"

definition set_bit_at :: "bytes \<Rightarrow> nat \<Rightarrow> bytes" where
  "set_bit_at out i = out[i div 8 := out ! (i div 8) OR push_bit (i mod 8) 1]"

definition bit_at :: "bytes \<Rightarrow> nat \<Rightarrow> bool" where
  "bit_at bs i \<longleftrightarrow> bs ! (i div 8) AND push_bit (i mod 8) 1 \<noteq> 0"

fun pack_from :: "bytes \<Rightarrow> nat \<Rightarrow> bool list \<Rightarrow> bytes" where
  "pack_from out i [] = out"
| "pack_from out i (b # bs) = pack_from (if b then set_bit_at out i else out) (i + 1) bs"

definition pack_bits :: "bool list \<Rightarrow> bytes" where
  "pack_bits bs = pack_from (replicate (div_ceil (length bs) 8) 0) 0 bs"

section \<open>Values\<close>

fun put_deltas :: "bytes \<Rightarrow> i64 \<Rightarrow> i64 list \<Rightarrow> bytes" where
  "put_deltas out previous [] = out"
| "put_deltas out previous (v # vs) = put_deltas (put_varint out (zigzag (v - previous))) v vs"

definition id_head :: "bytes \<Rightarrow> i64" where
  "id_head v = word_of_nat (be_nat (take 8 v))"

definition text_bytes :: "bytes option \<Rightarrow> bytes" where
  "text_bytes v = (case v of None \<Rightarrow> [] | Some b \<Rightarrow> b)"

fun encode_values :: "column \<Rightarrow> bytes" where
  "encode_values (Timestamps vs) = put_deltas [] 0 vs"
| "encode_values (Integers vs) = put_deltas [] 0 vs"
| "encode_values (Unsigned vs) = foldl put_varint [] vs"
| "encode_values (Floats vs) = foldl (\<lambda>out v. out @ le_bytes 8 (unat v)) [] vs"
| "encode_values (Booleans vs) = pack_bits vs"
| "encode_values (Identifiers vs) =
     foldl (\<lambda>out v. out @ take 8 (drop 8 v)) (put_deltas [] 0 (map id_head vs)) vs"
| "encode_values (Text vs) =
     foldl (\<lambda>out v. put_varint out (word_of_nat (length (text_bytes v)))) [] vs
       @ concat (map text_bytes vs)"
| "encode_values (Bytes vs) =
     foldl (\<lambda>out v. put_varint out (word_of_nat (length (text_bytes v)))) [] vs
       @ concat (map text_bytes vs)"

fun read_deltas :: "nat \<Rightarrow> bytes \<Rightarrow> nat \<Rightarrow> i64 \<Rightarrow> format_error + i64 list \<times> nat" where
  "read_deltas 0 bs at previous = Inr ([], at)"
| "read_deltas (Suc n) bs at previous =
     and_then (get_varint bs at) (\<lambda>(raw, next).
       let previous = previous + unzigzag raw
       in and_then (read_deltas n bs next previous) (\<lambda>(vs, used). Inr (previous # vs, used)))"

fun read_lengths :: "nat \<Rightarrow> bytes \<Rightarrow> nat \<Rightarrow> nat \<Rightarrow> format_error + nat list \<times> nat \<times> nat" where
  "read_lengths 0 bs at tot = Inr ([], at, tot)"
| "read_lengths (Suc n) bs at tot =
     and_then (get_varint bs at) (\<lambda>(len, next).
       let len = unat len
       in if 2 ^ 64 \<le> tot + len then Inl (Damaged (ColumnNotAsClaimed ''text''))
          else and_then (read_lengths n bs next (tot + len)) (\<lambda>(lens, used, tot).
            Inr (len # lens, used, tot)))"

fun read_texts :: "nat list \<Rightarrow> nat \<Rightarrow> bytes \<Rightarrow> nat \<Rightarrow> bool list \<Rightarrow> format_error + bytes option list" where
  "read_texts [] index bs at absent = Inr []"
| "read_texts (len # lens) index bs at absent =
     (let end = (at + len) mod 2 ^ 64
      in if \<not> (at \<le> end \<and> end \<le> length bs) then Inl Panicked
         else let raw = take (end - at) (drop at bs)
              in and_then
                   (if index < length absent \<and> absent ! index then Inr None
                    else if utf8_valid raw then Inr (Some raw)
                    else Inl (Damaged (ColumnNotAsClaimed ''text'')))
                   (\<lambda>v. and_then (read_texts lens (index + 1) bs end absent) (\<lambda>vs. Inr (v # vs))))"

fun read_ids :: "i64 list \<Rightarrow> nat \<Rightarrow> bytes \<Rightarrow> nat \<Rightarrow> format_error + bytes list" where
  "read_ids [] index bs at = Inr []"
| "read_ids (h # hs) index bs at =
     and_then (slice bs (at + index * 8) 8) (\<lambda>tail.
     and_then (read_ids hs (index + 1) bs at) (\<lambda>vs. Inr ((be_bytes 8 (unat h) @ tail) # vs)))"

definition decode_values :: "encoding \<Rightarrow> bytes \<Rightarrow> nat \<Rightarrow> bool list \<Rightarrow> format_error + column" where
  "decode_values enc bs rows absent =
     (case enc of
        VarintDelta \<Rightarrow> and_then (read_deltas rows bs 0 0) (\<lambda>(vs, _). Inr (Timestamps vs))
      | Varint \<Rightarrow> and_then (read_many get_varint rows bs 0) (\<lambda>(vs, _). Inr (Unsigned vs))
      | PlainFixed \<Rightarrow>
          if length bs = rows * 8 then
            and_then (read_many (with_next 8 get_u64) rows bs 0) (\<lambda>(vs, _). Inr (Floats vs))
          else if length bs = div_ceil rows 8 then Inr (Booleans (map (bit_at bs) [0..<rows]))
          else Inl (Damaged (ColumnNotAsClaimed ''fixed-width values''))
      | SplitPrefix \<Rightarrow>
          and_then (read_deltas rows bs 0 0) (\<lambda>(heads, at).
          and_then (read_ids heads 0 bs at) (\<lambda>vs. Inr (Identifiers vs)))
      | OffsetBytes \<Rightarrow>
          and_then (read_lengths rows bs 0 0) (\<lambda>(lens, at, tot).
            if length bs < (at + tot) mod 2 ^ 64 then Inl (Damaged (ColumnNotAsClaimed ''text''))
            else and_then (read_texts lens 0 bs at absent) (\<lambda>vs. Inr (Text vs)))
      | Dictionary \<Rightarrow> Inl (Unsupported UnknownCompression))"

section \<open>Pages\<close>

record externs =
  xxh3 :: "bytes \<Rightarrow> u64"
  zstd_encode :: "bytes \<Rightarrow> int \<Rightarrow> bytes option"
  zstd_decompress :: "bytes \<Rightarrow> nat \<Rightarrow> bytes option"

definition page_checksum :: "externs \<Rightarrow> bytes \<Rightarrow> u64" where
  "page_checksum E bs = xxh3 E bs"

definition write_page_maybe_encrypted ::
  "externs \<Rightarrow> bytes option \<Rightarrow> bytes \<Rightarrow> column \<Rightarrow> cipher option \<Rightarrow> bytes \<Rightarrow> key_error + bytes \<times> nat" where
  "write_page_maybe_encrypted E draw out c cip segment_id =
     (let rows = column_len c;
          encoded = encode_values c;
          uncompressed = length encoded;
          (kind, body) =
            (if length encoded < 64 then (CodecNone, encoded)
             else case zstd_encode E encoded (level c) of
                 Some compressed \<Rightarrow>
                   if length compressed < length encoded then (Zstandard, compressed)
                   else (CodecNone, encoded)
               | None \<Rightarrow> (CodecNone, encoded));
          bitmap = pack_from (replicate (div_ceil rows 8) 0) 0 (nulls c);
          checked = bitmap @ body;
          start = length out
      in and_then
           (case cip of
              None \<Rightarrow> Inr checked
            | Some cip \<Rightarrow> seal cip draw checked (block_context segment_id (word_of_nat start)))
           (\<lambda>checked.
             let out = put_u32 out (word_of_nat (length checked));
                 out = put_u16 out (encoding_number (column_encoding c));
                 out = put_u16 out (codec_number kind);
                 out = put_u32 out (word_of_nat rows);
                 out = put_u32 out (word_of_nat uncompressed);
                 out = put_u64 out (page_checksum E checked);
                 out = out @ checked
             in Inr (out, length out - start)))"

definition write_page :: "externs \<Rightarrow> bytes \<Rightarrow> column \<Rightarrow> bytes" where
  "write_page E out c =
     (case write_page_maybe_encrypted E None out c None (replicate 16 0) of
        Inr (out, _) \<Rightarrow> out
      | Inl _ \<Rightarrow> out)"

definition page_size :: "bytes \<Rightarrow> nat \<Rightarrow> format_error + nat" where
  "page_size bs at = and_then (get_u32 bs at) (\<lambda>len. Inr (PAGE_HEADER_BYTES + unat len))"

definition read_page_maybe_encrypted ::
  "externs \<Rightarrow> bytes \<Rightarrow> nat \<Rightarrow> bool \<Rightarrow> cipher option \<Rightarrow> bytes \<Rightarrow> format_error + page" where
  "read_page_maybe_encrypted E bs at verify cip segment_id =
     and_then (get_u32 bs at) (\<lambda>len.
     and_then (get_u16 bs (at + 4)) (\<lambda>enc_number.
     and_then (get_u16 bs (at + 6)) (\<lambda>kind_number.
     and_then (get_u32 bs (at + 8)) (\<lambda>rows.
     and_then (get_u32 bs (at + 12)) (\<lambda>uncompressed.
     and_then (get_u64 bs (at + 16)) (\<lambda>checksum.
     and_then (ok_or (encoding_from_number enc_number) (Unsupported UnknownColumnForm)) (\<lambda>enc.
     and_then (ok_or (codec_from_number kind_number) (Unsupported UnknownCompression)) (\<lambda>kind.
     let len = unat len; rows = unat rows; uncompressed = unat uncompressed;
         bitmap_bytes = div_ceil rows 8;
         body_start = at + PAGE_HEADER_BYTES
     in and_then (slice bs body_start len) (\<lambda>on_disk.
        if verify \<and> page_checksum E on_disk \<noteq> checksum then Inl (Damaged PageChecksum)
        else and_then
          (case cip of
             None \<Rightarrow> Inr on_disk
           | Some cip \<Rightarrow>
               (case open_block cip on_disk (block_context segment_id (word_of_nat at)) of
                  Inl e \<Rightarrow> Inl (Unsupported (KeyFailure e))
                | Inr plain \<Rightarrow> Inr plain))
          (\<lambda>checked.
             if length checked < bitmap_bytes then Inl (Damaged PageShorterThanRows)
             else let bitmap = take bitmap_bytes checked; body = drop bitmap_bytes checked
             in if MAX_UNCOMPRESSED_PAGE_BYTES < uncompressed then Inl (Damaged PageClaimsTooMuch)
             else and_then
               (case kind of
                  CodecNone \<Rightarrow> Inr body
                | Zstandard \<Rightarrow> ok_or (zstd_decompress E body uncompressed) (Damaged PageNotExpanded))
               (\<lambda>plain.
                  if length plain \<noteq> uncompressed then Inl (Damaged PageExpandedDiffers)
                  else let absent = map (\<lambda>i. i div 8 < length bitmap \<and> bit_at bitmap i) [0..<rows]
                  in and_then (decode_values enc plain rows absent) (\<lambda>c.
                       Inr \<lparr>page_column = c, page_rows = rows\<rparr>))))))))))))"

definition read_page :: "externs \<Rightarrow> bytes \<Rightarrow> nat \<Rightarrow> bool \<Rightarrow> format_error + page" where
  "read_page E bs at verify = read_page_maybe_encrypted E bs at verify None (replicate 16 0)"

section \<open>Splitting a column\<close>

text \<open>
  The first row count of a page is a floating-point estimate from the measured
  bytes. It is the parameter \<open>estimate\<close>, a function of the measured length, the
  row count and the target; the code raises it to at least one.
\<close>

function shrink :: "externs \<Rightarrow> column \<Rightarrow> nat \<Rightarrow> nat \<Rightarrow> nat \<Rightarrow> nat" where
  "shrink E c target start end =
     (let measured = write_page E [] (column_slice c start end)
      in if length measured \<le> target \<or> end - start \<le> 1 then end
         else shrink E c target start (start + max ((end - start) * 3 div 4) 1))"
  by pat_completeness auto
termination
  by (relation "measure (\<lambda>(E, c, target, start, end). end - start)") auto

declare shrink.simps [simp del]

lemma shrink_bounds: "start < end \<Longrightarrow> start < shrink E c target start end \<and> shrink E c target start end \<le> end"
proof (induction E c target start "end" rule: shrink.induct)
  case (1 E c target start "end")
  let ?next = "start + max ((end - start) * 3 div 4) 1"
  show ?case
  proof (cases "length (write_page E [] (column_slice c start end)) \<le> target \<or> end - start \<le> 1")
    case True
    with "1.prems" show ?thesis by (simp add: shrink.simps[of E c target start "end"])
  next
    case False
    have "start < ?next" "?next \<le> end" using "1.prems" False by auto
    with "1.IH"[OF refl False] have "start < shrink E c target start ?next \<and> shrink E c target start ?next \<le> end"
      by linarith
    with False show ?thesis by (simp add: shrink.simps[of E c target start "end"])
  qed
qed

function split_from :: "externs \<Rightarrow> column \<Rightarrow> nat \<Rightarrow> nat \<Rightarrow> nat \<Rightarrow> column list" where
  "split_from E c target rows_each_page start =
     (if start < column_len c \<and> 0 < rows_each_page then
        let end = min (start + rows_each_page) (column_len c);
            end = shrink E c target start end
        in column_slice c start end # split_from E c target rows_each_page end
      else [])"
  by pat_completeness auto
termination
proof (relation "measure (\<lambda>(E, c, target, rows, start). column_len c - start)")
  fix E c target rows start x xa
  assume "start < column_len c \<and> 0 < rows" "x = min (start + rows) (column_len c)"
    "xa = shrink E c target start x"
  then show "((E, c, target, rows, xa), (E, c, target, rows, start))
      \<in> measure (\<lambda>(E, c, target, rows, start). column_len c - start)"
    using shrink_bounds[of start x E c target] by auto
qed simp

declare split_from.simps [simp del]

definition split_into_pages :: "(nat \<Rightarrow> nat \<Rightarrow> nat \<Rightarrow> nat) \<Rightarrow> externs \<Rightarrow> column \<Rightarrow> nat \<Rightarrow> column list" where
  "split_into_pages estimate E c target =
     (if is_empty c then []
      else let probe = write_page E [] c
           in if length probe \<le> target then [c]
              else let rows_each_page = max (estimate (length probe) (column_len c) target) 1
                   in split_from E c target rows_each_page 0)"

section \<open>Bits\<close>

lemma and_push_bit_1: "k < 8 \<Longrightarrow> (x :: u8) AND push_bit k 1 \<noteq> 0 \<longleftrightarrow> bit x k"
  using and_exp_eq_0_iff_not_bit[of x k] by (simp add: push_bit_eq_mult)

lemma bit_at_bit: "bit_at bs i \<longleftrightarrow> bit (bs ! (i div 8)) (i mod 8)"
  unfolding bit_at_def by (rule and_push_bit_1) simp

lemma length_set_bit_at [simp]: "length (set_bit_at out i) = length out"
  by (simp add: set_bit_at_def)

lemma length_pack_from [simp]: "length (pack_from out i bs) = length out"
  by (induction bs arbitrary: out i) auto

lemma bit_at_set_bit_at:
  assumes "i div 8 < length out"
  shows "bit_at (set_bit_at out i) j \<longleftrightarrow> i = j \<or> bit_at out j"
proof (cases "i div 8 = j div 8")
  case True
  have "bit (out ! (j div 8) OR push_bit (i mod 8) 1 :: u8) (j mod 8)
      \<longleftrightarrow> i mod 8 = j mod 8 \<or> bit (out ! (j div 8)) (j mod 8)"
    by (auto simp: bit_simps)
  moreover have "i mod 8 = j mod 8 \<longleftrightarrow> i = j" using True by (metis mult_div_mod_eq)
  ultimately show ?thesis using assms True by (simp add: bit_at_bit set_bit_at_def)
next
  case False
  then show ?thesis by (auto simp: bit_at_bit set_bit_at_def)
qed

lemma bit_at_pack_from:
  "i + length bs \<le> 8 * length out \<Longrightarrow>
   bit_at (pack_from out i bs) j \<longleftrightarrow> (i \<le> j \<and> j < i + length bs \<and> bs ! (j - i)) \<or> bit_at out j"
proof (induction bs arbitrary: out i)
  case (Cons b bs)
  have "i div 8 < length out" using Cons.prems by (simp add: less_mult_imp_div_less mult.commute)
  moreover have "i + 1 + length bs \<le> 8 * length (if b then set_bit_at out i else out)" using Cons.prems by simp
  ultimately show ?case
    using Cons.IH[of "i + 1" "if b then set_bit_at out i else out"] bit_at_set_bit_at[of i out j]
    by (cases "j = i") (auto simp: nth_Cons')
qed auto

lemma div_ceil_8: "n \<le> 8 * div_ceil n 8"
  by (simp add: div_ceil_def)

lemma bits_of_pack:
  assumes "length bs = n"
  shows "map (bit_at (pack_from (replicate (div_ceil n 8) 0) 0 bs)) [0..<n] = bs"
proof (rule nth_equalityI)
  fix i assume "i < length (map (bit_at (pack_from (replicate (div_ceil n 8) 0) 0 bs)) [0..<n])"
  then have i: "i < n" by simp
  then have "i div 8 < div_ceil n 8"
    using div_ceil_8[of n] by (simp add: less_mult_imp_div_less mult.commute)
  then show "map (bit_at (pack_from (replicate (div_ceil n 8) 0) 0 bs)) [0..<n] ! i = bs ! i"
    using i assms div_ceil_8[of n] bit_at_pack_from[of 0 bs "replicate (div_ceil n 8) 0" i]
    by (simp add: bit_at_bit)
qed (simp add: assms)

section \<open>Values\<close>

lemma foldl_append_map: "foldl (\<lambda>out v. out @ f v) out vs = out @ concat (map f vs)"
  by (induction vs arbitrary: out) auto

lemma put_deltas_append: "put_deltas out p vs = out @ put_deltas [] p vs"
proof (induction vs arbitrary: out p)
  case (Cons v vs)
  show ?case
    using Cons.IH[of "put_varint out (zigzag (v - p))" v] Cons.IH[of "put_varint [] (zigzag (v - p))" v]
      varint.put_append[of out "zigzag (v - p)"]
    by simp
qed simp

lemma read_deltas_put:
  "read_deltas (length vs) (put_deltas out p vs @ rest) (length out) p = Inr (vs, length (put_deltas out p vs))"
proof (induction vs arbitrary: out p)
  case (Cons v vs)
  let ?out = "put_varint out (zigzag (v - p))"
  have "put_deltas ?out v vs @ rest = ?out @ put_deltas [] v vs @ rest"
    by (subst put_deltas_append) simp
  then have "get_varint (put_deltas ?out v vs @ rest) (length out) = Inr (zigzag (v - p), length ?out)"
    using varint.get_put[where pre = out and x = "zigzag (v - p)" and rest = "put_deltas [] v vs @ rest"] by simp
  then show ?case using Cons.IH[of ?out v] by simp
qed simp

lemma id_head_bytes: "length v = 16 \<Longrightarrow> be_bytes 8 (unat (id_head v)) @ drop 8 v = v"
  using be_bytes_be_nat[of "take 8 v" 8] be_nat_bound[of "take 8 v"]
  by (simp add: id_head_def unat_of_nat)

lemma read_ids_put:
  "\<forall>v \<in> set vs. length v = 16 \<Longrightarrow> length done = index * 8 \<Longrightarrow>
   read_ids (map id_head vs) index (pre @ done @ concat (map (drop 8) vs) @ rest) (length pre) = Inr vs"
proof (induction vs arbitrary: index "done")
  case (Cons v vs)
  have "slice (pre @ done @ drop 8 v @ concat (map (drop 8) vs) @ rest) (length pre + index * 8) 8 = Inr (drop 8 v)"
    using slice_at[of "length pre + index * 8" "pre @ done" 8 "drop 8 v"] Cons.prems by simp
  then show ?case
    using Cons.IH[of "done @ drop 8 v" "index + 1"] Cons.prems id_head_bytes[of v] by simp
qed simp

abbreviation put_len :: "bytes \<Rightarrow> bytes option \<Rightarrow> bytes" where
  "put_len out v \<equiv> put_varint out (word_of_nat (length (text_bytes v)))"

lemma put_len_append: "foldl put_len out vs = out @ foldl put_len [] vs"
proof (induction vs arbitrary: out)
  case (Cons v vs)
  show ?case
    using Cons.IH[of "put_len out v"] Cons.IH[of "put_len [] v"] varint.put_append[of out] by simp
qed simp

lemma read_lengths_put:
  "tot + length (concat (map text_bytes vs)) < 2 ^ 64 \<Longrightarrow>
   read_lengths (length vs) (foldl put_len out vs @ rest) (length out) tot
     = Inr (map (length \<circ> text_bytes) vs, length (foldl put_len out vs), tot + length (concat (map text_bytes vs)))"
proof (induction vs arbitrary: out tot)
  case (Cons v vs)
  have "foldl put_len (put_len out v) vs @ rest = put_len out v @ foldl put_len [] vs @ rest"
    by (subst put_len_append) simp
  then have "get_varint (foldl put_len (put_len out v) vs @ rest) (length out)
      = Inr (word_of_nat (length (text_bytes v)), length (put_len out v))"
    using varint.get_put[where pre = out and rest = "foldl put_len [] vs @ rest"] by simp
  moreover have "unat (word_of_nat (length (text_bytes v)) :: u64) = length (text_bytes v)"
    using Cons.prems by (simp add: unat_of_nat)
  ultimately show ?case
    using Cons.IH[of "tot + length (text_bytes v)" "put_len out v"] Cons.prems by (simp add: Let_def)
qed simp

lemma read_texts_put:
  "\<forall>b. Some b \<in> set vs \<longrightarrow> utf8_valid b \<Longrightarrow> length (pre @ concat (map text_bytes vs)) < 2 ^ 64 \<Longrightarrow>
   read_texts (map (length \<circ> text_bytes) vs) (length done) (pre @ concat (map text_bytes vs) @ rest) (length pre)
     (map (\<lambda>x. x = None) (done @ vs)) = Inr vs"
proof (induction vs arbitrary: "done" pre)
  case (Cons v vs)
  have "read_texts (map (length \<circ> text_bytes) vs) (length (done @ [v]))
      ((pre @ text_bytes v) @ concat (map text_bytes vs) @ rest) (length (pre @ text_bytes v))
      (map (\<lambda>x. x = None) ((done @ [v]) @ vs)) = Inr vs"
    by (rule Cons.IH) (use Cons.prems in auto)
  moreover have "length pre + length (text_bytes v) < 2 ^ 64" using Cons.prems(2) by simp
  moreover have "(map (\<lambda>x. x = None) done @ a # as) ! length done = a" for a as
    by (metis length_map nth_append_length)
  ultimately show ?case using Cons.prems(1) by (cases v) (auto simp: Let_def comp_def text_bytes_def[of None] text_bytes_def[of "Some b" for b])
qed simp

text \<open>
  Columns the code can hold and read back: an identifier has 16 bytes, text is
  valid UTF-8. Raw data has to be valid UTF-8 too, because the reader returns
  every offset column as text.
\<close>

fun column_ok :: "column \<Rightarrow> bool" where
  "column_ok (Identifiers vs) = (\<forall>v \<in> set vs. length v = 16)"
| "column_ok (Text vs) = (\<forall>b. Some b \<in> set vs \<longrightarrow> utf8_valid b)"
| "column_ok (Bytes vs) = (\<forall>b. Some b \<in> set vs \<longrightarrow> utf8_valid b)"
| "column_ok _ = True"

text \<open>
  The shape a column reads back as. Two shapes share an encoding, so integers
  come back as timestamps, raw data as text, and a column of no booleans as a
  column of no floats.
\<close>

fun page_shape :: "column \<Rightarrow> column" where
  "page_shape (Integers vs) = Timestamps vs"
| "page_shape (Booleans []) = Floats []"
| "page_shape (Bytes vs) = Text vs"
| "page_shape c = c"

lemma length_nulls [simp]: "length (nulls c) = column_len c"
  by (cases c) auto

lemma decode_text_values:
  assumes "\<forall>b. Some b \<in> set vs \<longrightarrow> utf8_valid b"
    and "length (foldl put_len [] vs @ concat (map text_bytes vs)) < 2 ^ 64"
  shows "decode_values OffsetBytes (foldl put_len [] vs @ concat (map text_bytes vs)) (length vs) (map (\<lambda>x. x = None) vs)
    = Inr (Text vs)"
proof -
  have "read_lengths (length vs) (foldl put_len [] vs @ concat (map text_bytes vs)) (length ([] :: bytes)) 0
     = Inr (map (length \<circ> text_bytes) vs, length (foldl put_len [] vs), 0 + length (concat (map text_bytes vs)))"
    by (rule read_lengths_put) (use assms(2) in simp)
  moreover have "read_texts (map (length \<circ> text_bytes) vs) (length ([] :: bytes option list))
      (foldl put_len [] vs @ concat (map text_bytes vs) @ []) (length (foldl put_len [] vs))
      (map (\<lambda>x. x = None) ([] @ vs)) = Inr vs"
    by (rule read_texts_put) (use assms in simp_all)
  ultimately show ?thesis using assms(2) by (simp add: decode_values_def)
qed

lemma decode_encode_values:
  assumes "column_ok c" "length (encode_values c) < 2 ^ 64"
  shows "decode_values (column_encoding c) (encode_values c) (column_len c) (nulls c) = Inr (page_shape c)"
proof (cases c)
  case (Timestamps vs)
  then show ?thesis using read_deltas_put[of vs "[]" 0 "[]"] by (simp add: decode_values_def)
next
  case (Integers vs)
  then show ?thesis using read_deltas_put[of vs "[]" 0 "[]"] by (simp add: decode_values_def)
next
  case (Unsigned vs)
  then show ?thesis using varint.read_put_many[of vs "[]" "[]"] by (simp add: decode_values_def)
next
  case (Floats vs)
  have e: "encode_values c = foldl put_u64 [] vs"
    using Floats by (simp add: put_u64_def[abs_def])
  have len: "length (foldl put_u64 out vs) = length out + length vs * 8" for out
    by (induction vs arbitrary: out) auto
  show ?thesis
    using u64.read_put_many[of vs "[]" "[]"] len[of "[]"] Floats e by (simp add: decode_values_def)
next
  case (Booleans vs)
  show ?thesis
  proof (cases "vs = []")
    case True
    then show ?thesis using Booleans by (simp add: decode_values_def pack_bits_def div_ceil_def)
  next
    case False
    have "div_ceil n 8 \<noteq> n * 8" if "0 < n" for n
      using that by (simp add: div_ceil_def)
    with False have "div_ceil (length vs) 8 \<noteq> length vs * 8" by simp
    moreover have "page_shape c = Booleans vs" using Booleans False by (cases vs) auto
    ultimately show ?thesis
      using Booleans bits_of_pack[of vs "length vs"] by (simp add: decode_values_def pack_bits_def)
  qed
next
  case (Identifiers vs)
  let ?d = "put_deltas [] 0 (map id_head vs)"
  have ids: "\<forall>v \<in> set vs. length v = 16" using assms(1) Identifiers by simp
  have e: "encode_values c = ?d @ concat (map (drop 8) vs)"
    using Identifiers ids by (simp add: foldl_append_map cong: map_cong)
  have r: "read_deltas (length vs) (?d @ concat (map (drop 8) vs)) 0 0 = Inr (map id_head vs, length ?d)"
    using read_deltas_put[of "map id_head vs" "[]" 0 "concat (map (drop 8) vs)"] by simp
  have "read_ids (map id_head vs) 0 (?d @ concat (map (drop 8) vs)) (length ?d) = Inr vs"
    using read_ids_put[of vs "[]" 0 ?d "[]"] ids by simp
  with r show ?thesis unfolding e by (simp add: Identifiers decode_values_def)
next
  case (Text vs)
  then show ?thesis using decode_text_values[of vs] assms by simp
next
  case (Bytes vs)
  then show ?thesis using decode_text_values[of vs] assms by simp
qed

section \<open>Pages\<close>

text \<open>What the code relies on of the compressor: a frame expands to what was compressed.\<close>

definition zstd_ok :: "externs \<Rightarrow> bool" where
  "zstd_ok E \<longleftrightarrow> (\<forall>plain lvl packed. zstd_encode E plain lvl = Some packed \<longrightarrow>
     zstd_decompress E packed (length plain) = Some plain)"

definition page_header :: "externs \<Rightarrow> column \<Rightarrow> codec_kind \<Rightarrow> bytes \<Rightarrow> bytes" where
  "page_header E c kind checked =
     put_u32 [] (word_of_nat (length checked)) @ put_u16 [] (encoding_number (column_encoding c)) @
     put_u16 [] (codec_number kind) @ put_u32 [] (word_of_nat (column_len c)) @
     put_u32 [] (word_of_nat (length (encode_values c))) @ put_u64 [] (page_checksum E checked)"

definition page_body :: "externs \<Rightarrow> column \<Rightarrow> codec_kind \<times> bytes" where
  "page_body E c = (let encoded = encode_values c in
     if length encoded < 64 then (CodecNone, encoded)
     else case zstd_encode E encoded (level c) of
         Some compressed \<Rightarrow>
           if length compressed < length encoded then (Zstandard, compressed)
           else (CodecNone, encoded)
       | None \<Rightarrow> (CodecNone, encoded))"

definition page_plain :: "externs \<Rightarrow> column \<Rightarrow> bytes" where
  "page_plain E c = pack_from (replicate (div_ceil (column_len c) 8) 0) 0 (nulls c) @ snd (page_body E c)"

lemma write_page_layout:
  "write_page_maybe_encrypted E draw out c cip seg =
     and_then (case cip of None \<Rightarrow> Inr (page_plain E c)
       | Some cip \<Rightarrow> seal cip draw (page_plain E c) (block_context seg (word_of_nat (length out))))
     (\<lambda>checked. Inr (out @ page_header E c (fst (page_body E c)) checked @ checked,
        length (page_header E c (fst (page_body E c)) checked @ checked)))"
  unfolding write_page_maybe_encrypted_def Let_def page_body_def[unfolded Let_def, symmetric]
  by (cases cip) (simp_all add: page_plain_def page_header_def case_prod_beta put_u16_def put_u32_def put_u64_def)

lemma length_page_body: "length (snd (page_body E c)) \<le> length (encode_values c)"
  by (simp add: page_body_def Let_def split: option.splits)

lemma length_page_header [simp]: "length (page_header E c kind checked) = 24"
  by (simp add: page_header_def)

lemma read_page_header:
  assumes "length pre = at" "bs = pre @ page_header E c kind checked @ checked @ rest"
  shows "get_u32 bs at = Inr (word_of_nat (length checked))"
    "get_u16 bs (at + 4) = Inr (encoding_number (column_encoding c))"
    "get_u16 bs (at + 6) = Inr (codec_number kind)"
    "get_u32 bs (at + 8) = Inr (word_of_nat (column_len c))"
    "get_u32 bs (at + 12) = Inr (word_of_nat (length (encode_values c)))"
    "get_u64 bs (at + 16) = Inr (page_checksum E checked)"
    "slice bs (at + 24) (length checked) = Inr checked"
proof -
  let ?a = "put_u32 [] (word_of_nat (length checked) :: u32)"
  let ?b = "put_u16 [] (encoding_number (column_encoding c))"
  let ?c = "put_u16 [] (codec_number kind)"
  let ?d = "put_u32 [] (word_of_nat (column_len c) :: u32)"
  let ?e = "put_u32 [] (word_of_nat (length (encode_values c)) :: u32)"
  let ?f = "put_u64 [] (page_checksum E checked)"
  note ex = assms(2)[unfolded page_header_def]
  show "get_u32 bs at = Inr (word_of_nat (length checked))"
    using get_u32_put[of at pre] assms(1) by (simp add: ex)
  show "get_u16 bs (at + 4) = Inr (encoding_number (column_encoding c))"
    using get_u16_put[of "at + 4" "pre @ ?a"] assms(1) by (simp add: ex)
  show "get_u16 bs (at + 6) = Inr (codec_number kind)"
    using get_u16_put[of "at + 6" "pre @ ?a @ ?b"] assms(1) by (simp add: ex)
  show "get_u32 bs (at + 8) = Inr (word_of_nat (column_len c))"
    using get_u32_put[of "at + 8" "pre @ ?a @ ?b @ ?c"] assms(1) by (simp add: ex)
  show "get_u32 bs (at + 12) = Inr (word_of_nat (length (encode_values c)))"
    using get_u32_put[of "at + 12" "pre @ ?a @ ?b @ ?c @ ?d"] assms(1) by (simp add: ex)
  show "get_u64 bs (at + 16) = Inr (page_checksum E checked)"
    using get_u64_put[of "at + 16" "pre @ ?a @ ?b @ ?c @ ?d @ ?e"] assms(1) by (simp add: ex)
  show "slice bs (at + 24) (length checked) = Inr checked"
    using slice_at[of "at + 24" "pre @ page_header E c kind checked" "length checked" checked rest] assms by simp
qed

lemma page_body_cases:
  assumes "page_body E c = (kind, body)"
  obtains "kind = CodecNone" "body = encode_values c"
  | "kind = Zstandard" "zstd_encode E (encode_values c) (level c) = Some body"
  using assms by (auto simp: page_body_def Let_def split: if_splits option.splits)

lemma page_body_expands:
  assumes "zstd_ok E" "page_body E c = (kind, body)"
  shows "(case kind of CodecNone \<Rightarrow> Inr body
     | Zstandard \<Rightarrow> ok_or (zstd_decompress E body (length (encode_values c))) (Damaged PageNotExpanded))
     = Inr (encode_values c)"
  using assms by (elim page_body_cases) (auto simp: zstd_ok_def)

lemma page_nulls_read:
  "map (\<lambda>i. i div 8 < div_ceil (column_len c) 8 \<and>
      bit_at (pack_from (replicate (div_ceil (column_len c) 8) 0) 0 (nulls c)) i) [0..<column_len c] = nulls c"
proof -
  have "i div 8 < div_ceil (column_len c) 8" if "i < column_len c" for i
    using that div_ceil_8[of "column_len c"] by (simp add: less_mult_imp_div_less mult.commute)
  then have "map (\<lambda>i. i div 8 < div_ceil (column_len c) 8 \<and>
      bit_at (pack_from (replicate (div_ceil (column_len c) 8) 0) 0 (nulls c)) i) [0..<column_len c]
    = map (bit_at (pack_from (replicate (div_ceil (column_len c) 8) 0) 0 (nulls c))) [0..<column_len c]"
    by (auto intro!: map_cong)
  then show ?thesis using bits_of_pack[of "nulls c" "column_len c"] by simp
qed

text \<open>A page that the writer can produce: its rows fit 32 bits and its values the page limit.\<close>

definition page_fits :: "column \<Rightarrow> bool" where
  "page_fits c \<longleftrightarrow> column_len c < 2 ^ 32 \<and> length (encode_values c) \<le> MAX_UNCOMPRESSED_PAGE_BYTES"

lemma length_page_plain: "page_fits c \<Longrightarrow> length (page_plain E c) \<le> 2 ^ 29 + 2 ^ 26"
  using length_page_body[of E c]
  by (simp add: page_plain_def page_fits_def MAX_UNCOMPRESSED_PAGE_BYTES_def div_ceil_def) arith

lemma page_fits_bounds:
  assumes "page_fits c" "length checked \<le> length (page_plain E c) + OVERHEAD_BYTES"
  shows "unat (word_of_nat (length checked) :: u32) = length checked"
    "unat (word_of_nat (column_len c) :: u32) = column_len c"
    "unat (word_of_nat (length (encode_values c)) :: u32) = length (encode_values c)"
    "length (encode_values c) < 2 ^ 64" "\<not> MAX_UNCOMPRESSED_PAGE_BYTES < length (encode_values c)"
  using assms length_page_plain[of c E]
  by (simp_all add: page_fits_def MAX_UNCOMPRESSED_PAGE_BYTES_def unat_of_nat OVERHEAD_BYTES_def
      NONCE_BYTES_def TAG_BYTES_def)

lemma written_page:
  assumes "\<And>cip'. cip = Some cip' \<Longrightarrow> cipher_ok cip'" "draw_ok draw"
    and "write_page_maybe_encrypted E draw pre c cip seg = Inr (out, added)"
  obtains checked where
    "out = pre @ page_header E c (fst (page_body E c)) checked @ checked" "added = 24 + length checked"
    "length checked \<le> length (page_plain E c) + OVERHEAD_BYTES"
    "(case cip of None \<Rightarrow> Inr checked
      | Some cip \<Rightarrow> (case open_block cip checked (block_context seg (word_of_nat (length pre))) of
          Inl e \<Rightarrow> Inl (Unsupported (KeyFailure e)) | Inr plain \<Rightarrow> Inr plain)) = Inr (page_plain E c)"
proof -
  let ?sealed = "case cip of None \<Rightarrow> Inr (page_plain E c)
       | Some cip \<Rightarrow> seal cip draw (page_plain E c) (block_context seg (word_of_nat (length pre)))"
  obtain checked where s: "?sealed = Inr checked"
    and out: "out = pre @ page_header E c (fst (page_body E c)) checked @ checked" "added = 24 + length checked"
    using assms(3) by (auto simp: write_page_layout result_convs)
  have "length checked \<le> length (page_plain E c) + OVERHEAD_BYTES"
    using s seal_length[OF assms(1) assms(2)] by (cases cip) force+
  moreover have "(case cip of None \<Rightarrow> Inr checked
      | Some cip \<Rightarrow> (case open_block cip checked (block_context seg (word_of_nat (length pre))) of
          Inl e \<Rightarrow> Inl (Unsupported (KeyFailure e)) | Inr plain \<Rightarrow> Inr plain)) = Inr (page_plain E c)"
    using s open_seal[OF assms(1) assms(2)] by (cases cip) auto
  ultimately show thesis using out that by blast
qed

lemma read_written_values:
  assumes "zstd_ok E" "page_fits c"
    and "\<And>cip'. cip = Some cip' \<Longrightarrow> cipher_ok cip'" "draw_ok draw"
    and "write_page_maybe_encrypted E draw pre c cip seg = Inr (out, added)"
  shows "read_page_maybe_encrypted E (out @ rest) (length pre) verify cip seg
    = and_then (decode_values (column_encoding c) (encode_values c) (column_len c) (nulls c))
        (\<lambda>c'. Inr \<lparr>page_column = c', page_rows = column_len c\<rparr>)"
proof -
  obtain kind body where kb: "page_body E c = (kind, body)" by fastforce
  obtain checked where out: "out = pre @ page_header E c kind checked @ checked"
    and len: "length checked \<le> length (page_plain E c) + OVERHEAD_BYTES"
    and opened: "(case cip of None \<Rightarrow> Inr checked
      | Some cip \<Rightarrow> (case open_block cip checked (block_context seg (word_of_nat (length pre))) of
          Inl e \<Rightarrow> Inl (Unsupported (KeyFailure e)) | Inr plain \<Rightarrow> Inr plain)) = Inr (page_plain E c)"
    using written_page[OF assms(3-5)] kb by (metis fst_conv)
  note hdr = read_page_header[of pre "length pre" "out @ rest" E c kind checked rest]
  note b = page_fits_bounds[OF assms(2) len]
  have plain: "page_plain E c = pack_from (replicate (div_ceil (column_len c) 8) 0) 0 (nulls c) @ body"
    by (simp add: page_plain_def kb)
  show ?thesis
    using hdr out b opened plain page_body_expands[OF assms(1) kb] page_nulls_read[of c]
    by (cases kind)
      (simp_all add: read_page_maybe_encrypted_def PAGE_HEADER_BYTES_def Let_def codec_from_number_def)
qed

lemma read_written_page:
  assumes "zstd_ok E" "column_ok c" "page_fits c"
    and "\<And>cip'. cip = Some cip' \<Longrightarrow> cipher_ok cip'" "draw_ok draw"
    and "write_page_maybe_encrypted E draw pre c cip seg = Inr (out, added)"
  shows "read_page_maybe_encrypted E (out @ rest) (length pre) verify cip seg
    = Inr \<lparr>page_column = page_shape c, page_rows = column_len c\<rparr>"
  using read_written_values[OF assms(1,3-6)] decode_encode_values[OF assms(2)]
    page_fits_bounds(4)[OF assms(3), of "[]"] by simp

lemma written_page_size:
  assumes "page_fits c" "\<And>cip'. cip = Some cip' \<Longrightarrow> cipher_ok cip'" "draw_ok draw"
    and "write_page_maybe_encrypted E draw pre c cip seg = Inr (out, added)"
  shows "page_size (out @ rest) (length pre) = Inr added \<and> length out = length pre + added"
proof -
  obtain checked where out: "out = pre @ page_header E c (fst (page_body E c)) checked @ checked"
      "added = 24 + length checked" "length checked \<le> length (page_plain E c) + OVERHEAD_BYTES"
    using written_page[OF assms(2-4)] by metis
  then show ?thesis
    using read_page_header(1)[of pre "length pre" "out @ rest" E c "fst (page_body E c)" checked rest]
      page_fits_bounds(1)[OF assms(1) out(3)]
    by (simp add: page_size_def PAGE_HEADER_BYTES_def)
qed

lemma write_page_eq: "write_page E out c = out @ write_page E [] c"
  and write_page_run: "write_page_maybe_encrypted E None out c None (replicate 16 0)
     = Inr (write_page E out c, length (write_page E [] c))"
  by (simp_all add: write_page_def write_page_layout)

section \<open>Splitting\<close>

fun column_append :: "column \<Rightarrow> column \<Rightarrow> column" where
  "column_append (Timestamps a) (Timestamps b) = Timestamps (a @ b)"
| "column_append (Integers a) (Integers b) = Integers (a @ b)"
| "column_append (Unsigned a) (Unsigned b) = Unsigned (a @ b)"
| "column_append (Floats a) (Floats b) = Floats (a @ b)"
| "column_append (Booleans a) (Booleans b) = Booleans (a @ b)"
| "column_append (Identifiers a) (Identifiers b) = Identifiers (a @ b)"
| "column_append (Text a) (Text b) = Text (a @ b)"
| "column_append (Bytes a) (Bytes b) = Bytes (a @ b)"
| "column_append a b = a"

lemma sub_append: "i \<le> j \<Longrightarrow> j \<le> k \<Longrightarrow> sub i j xs @ sub j k xs = sub i k xs"
proof -
  assume "i \<le> j" "j \<le> k"
  then have "k - i = (j - i) + (k - j)" "drop j xs = drop (j - i) (drop i xs)" by simp_all
  then show ?thesis by (metis sub_def take_add)
qed

lemma column_slice_append:
  "i \<le> j \<Longrightarrow> j \<le> k \<Longrightarrow> column_append (column_slice c i j) (column_slice c j k) = column_slice c i k"
  by (cases c) (auto simp: sub_append)

lemma column_slice_all: "column_slice c 0 (column_len c) = c"
  by (cases c) (auto simp: sub_def)

lemma column_len_slice: "j \<le> column_len c \<Longrightarrow> column_len (column_slice c i j) = j - i"
  by (cases c) (auto simp: sub_def)

lemma shrink_fits:
  "start < end \<Longrightarrow> length (write_page E [] (column_slice c start (shrink E c target start end))) \<le> target
    \<or> shrink E c target start end = start + 1"
proof (induction E c target start "end" rule: shrink.induct)
  case (1 E c target start "end")
  let ?next = "start + max ((end - start) * 3 div 4) 1"
  show ?case
  proof (cases "length (write_page E [] (column_slice c start end)) \<le> target \<or> end - start \<le> 1")
    case True
    with "1.prems" show ?thesis by (auto simp: shrink.simps[of E c target start "end"])
  next
    case False
    with "1.IH"[OF refl False] show ?thesis by (simp add: shrink.simps[of E c target start "end"])
  qed
qed

lemma split_from_correct:
  assumes "0 < rows" "start < column_len c"
  shows "foldr column_append (butlast (split_from E c target rows start)) (last (split_from E c target rows start))
      = column_slice c start (column_len c)
    \<and> split_from E c target rows start \<noteq> []
    \<and> (\<forall>p \<in> set (split_from E c target rows start).
        0 < column_len p \<and> (length (write_page E [] p) \<le> target \<or> column_len p = 1))"
  using assms
proof (induction E c target rows start rule: split_from.induct)
  case (1 E c target rows start)
  define fin where "fin = shrink E c target start (min (start + rows) (column_len c))"
  have lt: "start < min (start + rows) (column_len c)" using "1.prems" by simp
  have fin: "start < fin" "fin \<le> column_len c"
    using shrink_bounds[OF lt, of E c target] by (auto simp: fin_def)
  have unf: "split_from E c target rows start = column_slice c start fin # split_from E c target rows fin"
    using "1.prems" by (simp add: split_from.simps[of E c target rows start] fin_def Let_def)
  have piece: "0 < column_len (column_slice c start fin) \<and>
      (length (write_page E [] (column_slice c start fin)) \<le> target \<or> column_len (column_slice c start fin) = 1)"
    using shrink_fits[OF lt, of E c target] fin by (auto simp: column_len_slice fin_def)
  show ?case
  proof (cases "fin < column_len c")
    case True
    have "foldr column_append (butlast (split_from E c target rows fin)) (last (split_from E c target rows fin))
        = column_slice c fin (column_len c) \<and> split_from E c target rows fin \<noteq> []
      \<and> (\<forall>p \<in> set (split_from E c target rows fin).
          0 < column_len p \<and> (length (write_page E [] p) \<le> target \<or> column_len p = 1))"
      using "1.IH"[OF _ refl refl] "1.prems" True by (simp add: fin_def)
    with piece fin unf show ?thesis
      by (simp add: column_slice_append)
  next
    case False
    then have "split_from E c target rows fin = []" by (simp add: split_from.simps[of E c target rows fin])
    with piece unf False fin show ?thesis by simp
  qed
qed

lemma read_plain_page:
  assumes "get_u32 bs at = Inr len" "get_u16 bs (at + 4) = Inr enc_number" "get_u16 bs (at + 6) = Inr 0"
    and "get_u32 bs (at + 8) = Inr rows" "get_u32 bs (at + 12) = Inr uncompressed"
    and "get_u64 bs (at + 16) = Inr (page_checksum E (bitmap @ plain))"
    and "slice bs (at + 24) (unat len) = Inr (bitmap @ plain)"
    and "encoding_from_number enc_number = Some enc" "length bitmap = div_ceil (unat rows) 8"
    and "length plain = unat uncompressed" "unat uncompressed \<le> MAX_UNCOMPRESSED_PAGE_BYTES"
  shows "read_page E bs at verify =
    and_then (decode_values enc plain (unat rows) (map (\<lambda>i. i div 8 < length bitmap \<and> bit_at bitmap i) [0..<unat rows]))
      (\<lambda>c. Inr \<lparr>page_column = c, page_rows = unat rows\<rparr>)"
  using assms by (simp add: read_page_def read_page_maybe_encrypted_def PAGE_HEADER_BYTES_def codec_from_number_def Let_def)

section \<open>Properties\<close>


definition plain_externs :: externs where
  "plain_externs = \<lparr>xxh3 = (\<lambda>bs. word_of_nat (sum_list (map unat bs))),
     zstd_encode = (\<lambda>plain lvl. Some (take 8 plain @ plain)),
     zstd_decompress = (\<lambda>packed n. Some (drop (length packed - n) packed))\<rparr>"

lemma plain_externs_ok: "zstd_ok plain_externs"
  by (auto simp: zstd_ok_def plain_externs_def)


text \<open>Splitting a column into pages loses nothing and invents nothing: the
  pieces put back together are the column, none is empty, and each one's page is
  within the target unless it holds a single row. It holds for every estimate of
  the rows that fit.\<close>

theorem split_into_pages_correct:
  assumes "\<not> is_empty c"
  shows "split_into_pages estimate E c target \<noteq> []
    \<and> foldr column_append (butlast (split_into_pages estimate E c target))
        (last (split_into_pages estimate E c target)) = c
    \<and> (\<forall>p \<in> set (split_into_pages estimate E c target).
        0 < column_len p \<and> (length (write_page E [] p) \<le> target \<or> column_len p = 1))"
  using split_from_correct[of "max (estimate (length (write_page E [] c)) (column_len c) target) 1" 0 c E target]
    column_slice_all[of c] assms
  by (auto simp: split_into_pages_def is_empty_def Let_def)

theorem split_into_pages_correct_witness:
  "foldr column_append (butlast (split_into_pages (\<lambda>_ _ _. 1) plain_externs (Unsigned [1, 2, 300]) 28))
     (last (split_into_pages (\<lambda>_ _ _. 1) plain_externs (Unsigned [1, 2, 300]) 28)) = Unsigned [1, 2, 300]"
  using split_into_pages_correct[of "Unsigned [1, 2, 300]" "\<lambda>_ _ _. 1" plain_externs 28]
  by (simp add: is_empty_def)

text \<open>C24: A page that is read with its checksum verified has the checksum its header
  names over the bytes on disk; a page whose bytes disagree with the header is
  refused before anything of it is opened or decoded.\<close>

theorem read_page_verifies:
  assumes "get_u32 bs at = Inr len" and "get_u64 bs (at + 16) = Inr checksum"
    and "slice bs (at + PAGE_HEADER_BYTES) (unat len) = Inr on_disk"
  shows "(read_page_maybe_encrypted E bs at True cip segment_id = Inr p \<longrightarrow> page_checksum E on_disk = checksum)
    \<and> (page_checksum E on_disk \<noteq> checksum \<longrightarrow>
        read_page_maybe_encrypted E bs at True cip segment_id
          \<in> {Inl (Damaged PageChecksum), Inl (Unsupported UnknownColumnForm), Inl (Unsupported UnknownCompression)})"
proof -
  have "at + 24 \<le> length bs"
    using assms(2) by (simp add: get_u64_def result_convs slice_def Let_def split: if_splits)
  then obtain enc kind rows uncompressed where f: "get_u16 bs (at + 4) = Inr enc" "get_u16 bs (at + 6) = Inr kind"
      "get_u32 bs (at + 8) = Inr rows" "get_u32 bs (at + 12) = Inr uncompressed"
    by (simp add: get_u16_def get_u32_def slice_def Let_def)
  then show ?thesis using assms
    by (auto simp: read_page_maybe_encrypted_def result_convs Let_def ok_or_def split: option.splits if_splits)
qed

theorem read_page_verifies_witness:
  "read_page_maybe_encrypted plain_externs ([1,0,0,0, 3,0, 0,0, 0,0,0,0, 1,0,0,0, 9,0,0,0,0,0,0,0] @ [8]) 0 True None (replicate 16 0)
     \<in> {Inl (Damaged PageChecksum), Inl (Unsupported UnknownColumnForm), Inl (Unsupported UnknownCompression)}"
proof -
  let ?bs = "[1,0,0,0, 3,0, 0,0, 0,0,0,0, 1,0,0,0, 9,0,0,0,0,0,0,0, 8] :: bytes"
  have "get_u32 ?bs 0 = Inr 1" "get_u64 ?bs (0 + 16) = Inr 9" "slice ?bs (0 + PAGE_HEADER_BYTES) (unat (1 :: u32)) = Inr [8]"
    by (simp_all add: get_u32_def get_u64_def slice_def  PAGE_HEADER_BYTES_def)
  then show ?thesis
    using read_page_verifies[of ?bs 0 1 9 "[8]" plain_externs None "replicate 16 0"]
    by (simp add: page_checksum_def plain_externs_def)
qed

text \<open>C25: A page can crash its reader. For every hash there is a file whose page has
  the right checksum and claims one text of \<open>2 ^ 64 - 1\<close> bytes: the sum of the
  offset and the length wraps around, passes the bound check, and the slice
  \<^verbatim>\<open>bytes[10..9]\<close> panics, where the module promises a damaged-page error.\<close>

theorem read_page_can_panic:
  "\<exists>bs. read_page E bs 0 True = Inl Panicked"
proof -
  let ?text = "[255,255,255,255,255,255,255,255,255,1] :: bytes"
  let ?head = "[11,0,0,0, 4,0, 0,0, 1,0,0,0, 10,0,0,0] :: bytes"
  let ?bs = "put_u64 ?head (xxh3 E (0 # ?text)) @ 0 # ?text"
  have "get_u64 ?bs 16 = Inr (xxh3 E (0 # ?text))"
    using get_u64_put[of 16 ?head] by (simp add: put_u64_def)
  moreover have "get_u32 ?bs 0 = Inr 11" "get_u16 ?bs 4 = Inr 4" "get_u16 ?bs 6 = Inr 0" "get_u32 ?bs 8 = Inr 1"
      "get_u32 ?bs 12 = Inr 10" "slice ?bs 24 11 = Inr (0 # ?text)"
    by (simp_all add: get_u32_def get_u16_def slice_def put_u64_def)
  moreover have v: "get_varint ?text 0 = Inr (18446744073709551615, 10)" by code_simp
  have "decode_values OffsetBytes ?text 1 [False] = Inl Panicked"
    by (simp add: decode_values_def v)
  ultimately show ?thesis
    using read_plain_page[of ?bs 0 11 4 1 10 E "[0]" ?text OffsetBytes True]
    by (auto simp: page_checksum_def encoding_from_number_def div_ceil_def MAX_UNCOMPRESSED_PAGE_BYTES_def bit_at_def)
qed

text \<open>A column of raw data is written without complaint and cannot be read back
  when a value is not valid UTF-8: the reader takes every offset column as text.\<close>

theorem raw_bytes_page_unreadable:
  assumes "zstd_ok E" and "\<not> utf8_valid b" and "page_fits (Bytes [Some b])"
  shows "read_page E (write_page E [] (Bytes [Some b])) 0 verify = Inl (Damaged (ColumnNotAsClaimed ''text''))"
proof -
  have len: "length (foldl put_len [] [Some b] @ b) < 2 ^ 64"
    using assms(3) by (simp add: page_fits_def MAX_UNCOMPRESSED_PAGE_BYTES_def text_bytes_def)
  then have "read_lengths 1 (put_len [] (Some b) @ b) 0 0 = Inr ([length b], length (put_len [] (Some b)), length b)"
    using read_lengths_put[of 0 "[Some b]" "[]" b] by (simp add: text_bytes_def)
  then have "decode_values OffsetBytes (encode_values (Bytes [Some b])) 1 [False] = Inl (Damaged (ColumnNotAsClaimed ''text''))"
    using assms(2) len by (simp add: decode_values_def text_bytes_def Let_def)
  then show ?thesis
    using read_written_values[OF assms(1,3) _ _ write_page_run[of E "[]"], where rest = "[]" and verify = verify]
    by (simp add: read_page_def draw_ok_def)
qed

theorem raw_bytes_page_unreadable_witness:
  "read_page plain_externs (write_page plain_externs [] (Bytes [Some [255]])) 0 True = Inl (Damaged (ColumnNotAsClaimed ''text''))"
  using raw_bytes_page_unreadable[OF plain_externs_ok, of "[255]" True]
  by (simp add: utf8_valid.simps page_fits_def MAX_UNCOMPRESSED_PAGE_BYTES_def text_bytes_def put_varint.simps)

end
