(* ===== verification/Index.thy ===== *)
theory Index
  imports Page
begin

text \<open>
  Column indexes, \<^verbatim>\<open>tallyowl-store/src/segment/index.rs\<close>: the block filter, the term
  postings, the unique lookup, and the checked and optionally encrypted block that
  holds one of them.

  \<open>fingerprint\<close> is the third-party hash of \<open>externs\<close>. Indexing a vector out of its
  range is a panic: the filter operations return \<open>None\<close> for it. \<open>partition_point\<close>
  of the standard library is modelled on the vectors it is specified for, those
  whose elements that satisfy the predicate come first.
\<close>

definition fingerprint :: "externs \<Rightarrow> bytes \<Rightarrow> u64" where
  "fingerprint E bs = xxh3 E bs"

section \<open>Block filters\<close>

record block_filter =
  words :: "u64 list"

function next_power_from :: "nat \<Rightarrow> nat \<Rightarrow> nat" where
  "next_power_from p n = (if p < n \<and> 0 < p then next_power_from (2 * p) n else p)"
  by pat_completeness auto
termination
  by (relation "measure (\<lambda>(p, n). n - p)") auto

declare next_power_from.simps [simp del]

definition next_power_of_two :: "nat \<Rightarrow> nat" where
  "next_power_of_two n = next_power_from 1 n"

definition filter_new :: "nat \<Rightarrow> block_filter" where
  "filter_new rows =
     \<lparr>words = replicate (next_power_of_two (max (rows * FILTER_BITS_EACH_KEY div 64) 8)) 0\<rparr>"

fun mix :: "nat \<Rightarrow> u64 \<Rightarrow> u64 list" where
  "mix 0 mixed = []"
| "mix (Suc n) mixed =
     (let mixed = (mixed * 0x9e3779b97f4a7c15) XOR drop_bit 29 mixed
      in mixed # mix n mixed)"

definition positions :: "block_filter \<Rightarrow> u64 \<Rightarrow> (nat \<times> u64) list" where
  "positions f hash =
     (let word = unat (drop_bit 32 hash AND (word_of_nat (length (words f)) - 1))
      in map (\<lambda>mixed. (word, push_bit (unat (mixed AND 63)) 1)) (mix 4 hash))"

fun set_positions :: "(nat \<times> u64) list \<Rightarrow> u64 list \<Rightarrow> u64 list option" where
  "set_positions [] ws = Some ws"
| "set_positions ((word, b) # ps) ws =
     (if word < length ws then set_positions ps (ws[word := ws ! word OR b]) else None)"

definition filter_insert :: "externs \<Rightarrow> block_filter \<Rightarrow> bytes \<Rightarrow> block_filter option" where
  "filter_insert E f v =
     (let hash = fingerprint E v
      in map_option (\<lambda>ws. f\<lparr>words := ws\<rparr>) (set_positions (positions f hash) (words f)))"

fun all_positions :: "(nat \<times> u64) list \<Rightarrow> u64 list \<Rightarrow> bool option" where
  "all_positions [] ws = Some True"
| "all_positions ((word, b) # ps) ws =
     (if word < length ws
      then if ws ! word AND b \<noteq> 0 then all_positions ps ws else Some False
      else None)"

definition maybe :: "externs \<Rightarrow> block_filter \<Rightarrow> bytes \<Rightarrow> bool option" where
  "maybe E f v = (let hash = fingerprint E v in all_positions (positions f hash) (words f))"

definition filter_byte_len :: "block_filter \<Rightarrow> nat" where
  "filter_byte_len f = length (words f) * 8"

definition filter_write :: "bytes \<Rightarrow> block_filter \<Rightarrow> bytes" where
  "filter_write out f = foldl put_u64 (put_u32 out (word_of_nat (length (words f)))) (words f)"

definition filter_read :: "bytes \<Rightarrow> nat \<Rightarrow> format_error + block_filter \<times> nat" where
  "filter_read bs at =
     and_then (get_u32 bs at) (\<lambda>count. let count = unat count in
     and_then (slice bs (at + 4) (count * 8)) (\<lambda>_.
     and_then (read_many (with_next 8 get_u64) count bs (at + 4)) (\<lambda>(ws, _).
       Inr (\<lparr>words = ws\<rparr>, at + 4 + count * 8))))"

section \<open>Term postings\<close>

record term_postings =
  terms :: "(bytes, u32 list) btree"

definition postings_new :: term_postings where
  "postings_new = \<lparr>terms = []\<rparr>"

definition postings_add :: "term_postings \<Rightarrow> bytes \<Rightarrow> u32 \<Rightarrow> term_postings" where
  "postings_add p v row =
     p\<lparr>terms := bt_insert v ((case bt_get (terms p) v of None \<Rightarrow> [] | Some rows \<Rightarrow> rows) @ [row]) (terms p)\<rparr>"

definition postings_rows :: "term_postings \<Rightarrow> bytes \<Rightarrow> u32 list option" where
  "postings_rows p v = bt_get (terms p) v"

definition term_count :: "term_postings \<Rightarrow> nat" where
  "term_count p = length (terms p)"

fun put_steps :: "bytes \<Rightarrow> u32 \<Rightarrow> u32 list \<Rightarrow> bytes" where
  "put_steps out previous [] = out"
| "put_steps out previous (row # rows) = put_steps (put_varint out (ucast (row - previous))) row rows"

definition put_term :: "bytes \<Rightarrow> bytes \<times> u32 list \<Rightarrow> bytes" where
  "put_term out = (\<lambda>(t, rows).
     let out = put_varint out (word_of_nat (length t));
         out = out @ t;
         out = put_varint out (word_of_nat (length rows))
     in put_steps out 0 rows)"

definition postings_write :: "bytes \<Rightarrow> term_postings \<Rightarrow> bytes" where
  "postings_write out p = foldl put_term (put_u32 out (word_of_nat (length (terms p)))) (terms p)"

fun read_steps :: "nat \<Rightarrow> bytes \<Rightarrow> nat \<Rightarrow> u32 \<Rightarrow> format_error + u32 list \<times> nat" where
  "read_steps 0 bs used previous = Inr ([], used)"
| "read_steps (Suc n) bs used previous =
     and_then (get_varint bs used) (\<lambda>(step, used).
       let previous = previous + ucast step
       in and_then (read_steps n bs used previous) (\<lambda>(rows, used). Inr (previous # rows, used)))"

definition get_term :: "bytes \<Rightarrow> nat \<Rightarrow> format_error + (bytes \<times> u32 list) \<times> nat" where
  "get_term bs used =
     and_then (get_varint bs used) (\<lambda>(len, next). let len = unat len in
     and_then (slice bs next len) (\<lambda>t. let used = next + len in
     and_then (get_varint bs used) (\<lambda>(rows, used). let rows = unat rows in
       if length bs - used < rows then Inl (Damaged IndexMoreRows)
       else and_then (read_steps rows bs used 0) (\<lambda>(rows, used). Inr ((t, rows), used)))))"

definition insert_terms :: "(bytes \<times> u32 list) list \<Rightarrow> (bytes, u32 list) btree" where
  "insert_terms ts = foldl (\<lambda>m (t, rows). bt_insert t rows m) [] ts"

definition postings_read :: "bytes \<Rightarrow> nat \<Rightarrow> format_error + term_postings \<times> nat" where
  "postings_read bs at =
     and_then (get_u32 bs at) (\<lambda>count. let count = unat count; used = at + 4 in
       if length bs - used < count then Inl (Damaged IndexMoreValues)
       else and_then (read_many get_term count bs used) (\<lambda>(ts, used).
              Inr (\<lparr>terms = insert_terms ts\<rparr>, used)))"

section \<open>Unique lookup\<close>

record unique_lookup =
  entries :: "(u64 \<times> u32) list"

definition lookup_new :: unique_lookup where
  "lookup_new = \<lparr>entries = []\<rparr>"

definition lookup_add :: "externs \<Rightarrow> unique_lookup \<Rightarrow> bytes \<Rightarrow> u32 \<Rightarrow> unique_lookup" where
  "lookup_add E l v row = l\<lparr>entries := entries l @ [(fingerprint E v, row)]\<rparr>"

definition lookup_seal :: "unique_lookup \<Rightarrow> unique_lookup" where
  "lookup_seal l = l\<lparr>entries := sort (entries l)\<rparr>"

definition partition_point :: "('a \<Rightarrow> bool) \<Rightarrow> 'a list \<Rightarrow> nat" where
  "partition_point P xs = length (takeWhile P xs)"

definition lookup_candidates :: "externs \<Rightarrow> unique_lookup \<Rightarrow> bytes \<Rightarrow> u32 list" where
  "lookup_candidates E l v =
     (let target = fingerprint E v;
          start = partition_point (\<lambda>(hash, _). hash < target) (entries l)
      in map snd (takeWhile (\<lambda>(hash, _). hash = target) (drop start (entries l))))"

definition lookup_byte_len :: "unique_lookup \<Rightarrow> nat" where
  "lookup_byte_len l = length (entries l) * 12"

definition put_entry :: "bytes \<Rightarrow> u64 \<times> u32 \<Rightarrow> bytes" where
  "put_entry out = (\<lambda>(hash, row). put_u32 (put_u64 out hash) row)"

definition get_entry :: "bytes \<Rightarrow> nat \<Rightarrow> format_error + (u64 \<times> u32) \<times> nat" where
  "get_entry bs base =
     and_then (get_u64 bs base) (\<lambda>hash.
     and_then (get_u32 bs (base + 8)) (\<lambda>row. Inr ((hash, row), base + 12)))"

definition lookup_write :: "bytes \<Rightarrow> unique_lookup \<Rightarrow> bytes" where
  "lookup_write out l = foldl put_entry (put_u32 out (word_of_nat (length (entries l)))) (entries l)"

definition lookup_read :: "bytes \<Rightarrow> nat \<Rightarrow> format_error + unique_lookup \<times> nat" where
  "lookup_read bs at =
     and_then (get_u32 bs at) (\<lambda>count. let count = unat count in
     and_then (slice bs (at + 4) (count * 12)) (\<lambda>_.
     and_then (read_many get_entry count bs (at + 4)) (\<lambda>(es, _).
       Inr (\<lparr>entries = es\<rparr>, at + 4 + count * 12))))"

section \<open>Index blocks\<close>

datatype column_index =
    BlockFilter "block_filter list"
  | TermPostings term_postings
  | UniqueLookup unique_lookup

fun layout :: "column_index \<Rightarrow> index_layout" where
  "layout (BlockFilter _) = BlockFilterLayout"
| "layout (TermPostings _) = TermPostingsLayout"
| "layout (UniqueLookup _) = UniqueLookupLayout"

definition INDEX_HEADER_BYTES :: nat where
  "INDEX_HEADER_BYTES = 14"

fun index_body :: "column_index \<Rightarrow> bytes" where
  "index_body (BlockFilter fs) = foldl filter_write (put_u32 [] (word_of_nat (length fs))) fs"
| "index_body (TermPostings p) = postings_write [] p"
| "index_body (UniqueLookup l) = lookup_write [] l"

definition write_index_maybe_encrypted ::
  "externs \<Rightarrow> bytes option \<Rightarrow> bytes \<Rightarrow> column_index \<Rightarrow> cipher option \<Rightarrow> bytes \<Rightarrow> key_error + bytes \<times> nat" where
  "write_index_maybe_encrypted E draw out index cip segment_id =
     (let body = index_body index; start = length out
      in and_then
           (case cip of
              None \<Rightarrow> Inr body
            | Some cip \<Rightarrow> seal cip draw body (block_context segment_id (word_of_nat start)))
           (\<lambda>body.
             let out = put_u32 out (word_of_nat (length body));
                 out = put_u16 out (layout_number (layout index));
                 out = put_u64 out (page_checksum E body);
                 out = out @ body
             in Inr (out, length out - start)))"

definition write_index :: "externs \<Rightarrow> bytes \<Rightarrow> column_index \<Rightarrow> bytes" where
  "write_index E out index =
     (case write_index_maybe_encrypted E None out index None (replicate 16 0) of
        Inr (out, _) \<Rightarrow> out
      | Inl _ \<Rightarrow> out)"

definition write_index_encrypted ::
  "externs \<Rightarrow> bytes option \<Rightarrow> bytes \<Rightarrow> column_index \<Rightarrow> cipher \<Rightarrow> bytes \<Rightarrow> key_error + bytes \<times> nat" where
  "write_index_encrypted E draw out index cip segment_id =
     write_index_maybe_encrypted E draw out index (Some cip) segment_id"

definition index_size :: "bytes \<Rightarrow> nat \<Rightarrow> format_error + nat" where
  "index_size bs at = and_then (get_u32 bs at) (\<lambda>len. Inr (INDEX_HEADER_BYTES + unat len))"

definition read_index_body :: "index_layout \<Rightarrow> bytes \<Rightarrow> format_error + column_index" where
  "read_index_body lay body =
     (case lay of
        BlockFilterLayout \<Rightarrow>
          and_then (get_u32 body 0) (\<lambda>count. let count = unat count in
            if length body < count then Inl (Damaged IndexMoreParts)
            else and_then (read_many filter_read count body 4) (\<lambda>(fs, _). Inr (BlockFilter fs)))
      | TermPostingsLayout \<Rightarrow> and_then (postings_read body 0) (\<lambda>(p, _). Inr (TermPostings p))
      | UniqueLookupLayout \<Rightarrow> and_then (lookup_read body 0) (\<lambda>(l, _). Inr (UniqueLookup l)))"

definition read_index_maybe_encrypted ::
  "externs \<Rightarrow> bytes \<Rightarrow> nat \<Rightarrow> bool \<Rightarrow> cipher option \<Rightarrow> bytes \<Rightarrow> format_error + column_index" where
  "read_index_maybe_encrypted E bs at verify cip segment_id =
     and_then (get_u32 bs at) (\<lambda>len.
     and_then (get_u16 bs (at + 4)) (\<lambda>number.
     and_then (get_u64 bs (at + 6)) (\<lambda>checksum.
     and_then (slice bs (at + INDEX_HEADER_BYTES) (unat len)) (\<lambda>on_disk.
       if verify \<and> page_checksum E on_disk \<noteq> checksum then Inl (Damaged IndexChecksum)
       else and_then
         (case cip of
            None \<Rightarrow> Inr on_disk
          | Some cip \<Rightarrow>
              (case open_block cip on_disk (block_context segment_id (word_of_nat at)) of
                 Inl e \<Rightarrow> Inl (Unsupported (KeyFailure e))
               | Inr plain \<Rightarrow> Inr plain))
         (\<lambda>body.
            and_then (ok_or (layout_from_number number) (Unsupported UnknownIndexForm)) (\<lambda>lay.
              read_index_body lay body))))))"

definition read_index :: "externs \<Rightarrow> bytes \<Rightarrow> nat \<Rightarrow> bool \<Rightarrow> format_error + column_index" where
  "read_index E bs at verify = read_index_maybe_encrypted E bs at verify None (replicate 16 0)"

definition read_index_encrypted ::
  "externs \<Rightarrow> bytes \<Rightarrow> nat \<Rightarrow> bool \<Rightarrow> cipher \<Rightarrow> bytes \<Rightarrow> format_error + column_index" where
  "read_index_encrypted E bs at verify cip segment_id =
     read_index_maybe_encrypted E bs at verify (Some cip) segment_id"

section \<open>The filter never loses a value\<close>

lemma next_power_from_bounds:
  "0 < p \<Longrightarrow> n \<le> next_power_from p n \<and> p \<le> next_power_from p n \<and> (p < 2 * n \<longrightarrow> next_power_from p n < 2 * n)"
proof (induction p n rule: next_power_from.induct)
  case (1 p n)
  then show ?case by (cases "p < n") (auto simp: next_power_from.simps[of p n])
qed

lemma next_power_of_two_bounds: "0 < n \<Longrightarrow> n \<le> next_power_of_two n \<and> next_power_of_two n < 2 * n"
  using next_power_from_bounds[of 1 n] by (simp add: next_power_of_two_def)

definition filter_ok :: "block_filter \<Rightarrow> bool" where
  "filter_ok f \<longleftrightarrow> 0 < length (words f) \<and> length (words f) < 2 ^ 64"

lemma filter_new_ok: "rows < 2 ^ 59 \<Longrightarrow> filter_ok (filter_new rows)"
proof -
  assume rows: "rows < 2 ^ 59"
  define n where "n = max (rows * FILTER_BITS_EACH_KEY div 64) 8"
  have "0 < n" "n < 2 ^ 59" using rows by (simp_all add: n_def FILTER_BITS_EACH_KEY_def)
  then show ?thesis
    using next_power_of_two_bounds[of n] by (simp add: filter_ok_def filter_new_def n_def[symmetric])
qed

definition covers :: "(nat \<times> u64) list \<Rightarrow> u64 list \<Rightarrow> bool" where
  "covers ps ws \<longleftrightarrow> (\<forall>(word, b) \<in> set ps. word < length ws \<and> ws ! word AND b \<noteq> 0)"

lemma covers_Cons: "covers (p # ps) ws \<longleftrightarrow> covers [p] ws \<and> covers ps ws"
  by (simp add: covers_def)

lemma all_positions_covers: "covers ps ws \<Longrightarrow> all_positions ps ws = Some True"
  by (induction ps) (auto simp: covers_def)

lemma or_and_keeps: "x AND c \<noteq> 0 \<Longrightarrow> (x OR b) AND c \<noteq> (0 :: u64)"
  by (auto simp: bit_eq_iff bit_simps)

lemma covers_or:
  assumes "covers qs ws"
  shows "covers qs (ws[word := ws ! word OR b])"
proof -
  have "i < length (ws[word := ws ! word OR b]) \<and> ws[word := ws ! word OR b] ! i AND c \<noteq> 0"
    if "(i, c) \<in> set qs" for i c
    using assms that or_and_keeps[of "ws ! i" c b] by (cases "word = i") (auto simp: covers_def)
  then show ?thesis unfolding covers_def by blast
qed

lemma set_positions_total:
  assumes "\<forall>(word, b) \<in> set ps. word < length ws \<and> b \<noteq> 0"
  shows "\<exists>ws'. set_positions ps ws = Some ws' \<and> length ws' = length ws \<and> covers ps ws'
    \<and> (\<forall>qs. covers qs ws \<longrightarrow> covers qs ws')"
  using assms
proof (induction ps arbitrary: ws)
  case Nil
  then show ?case by (simp add: covers_def)
next
  case (Cons p ps)
  obtain word b where p: "p = (word, b)" by fastforce
  let ?ws = "ws[word := ws ! word OR b]"
  have w: "word < length ws" "b \<noteq> 0" using Cons.prems p by auto
  obtain ws' where ws': "set_positions ps ?ws = Some ws'" "length ws' = length ws" "covers ps ws'"
      "\<And>qs. covers qs ?ws \<Longrightarrow> covers qs ws'"
    using Cons.IH[of ?ws] Cons.prems by auto
  have "covers [p] ?ws" using w by (simp add: covers_def p bit.conj_disj_distrib2)
  moreover have "covers qs ?ws" if "covers qs ws" for qs
    using that by (rule covers_or)
  ultimately have "covers (p # ps) ws'" "\<And>qs. covers qs ws \<Longrightarrow> covers qs ws'"
    using ws'(3,4) covers_Cons by blast+
  then show ?case using ws' w p by auto
qed

lemma positions_in_range:
  assumes "filter_ok f"
  shows "\<forall>(word, b) \<in> set (positions f hash). word < length (words f) \<and> b \<noteq> 0"
proof -
  let ?n = "word_of_nat (length (words f)) :: u64"
  have "unat (drop_bit 32 hash AND (?n - 1)) \<le> unat (?n - 1)"
    by (simp add: word_le_nat_alt[symmetric] word_and_le1)
  also have "unat (?n - 1) = length (words f) - 1"
  proof -
    have "1 \<le> ?n" using assms by (simp add: filter_ok_def word_le_nat_alt unat_of_nat Suc_le_eq)
    then show ?thesis using assms by (simp add: filter_ok_def unat_of_nat unat_sub)
  qed
  also have "length (words f) - 1 < length (words f)" using assms by (simp add: filter_ok_def)
  finally have "unat (drop_bit 32 hash AND (?n - 1)) < length (words f)" .
  moreover have "push_bit (unat (m AND 63)) 1 \<noteq> (0 :: u64)" for m :: u64
  proof -
    have "m AND 63 \<le> 63" by (rule word_and_le1)
    then have "unat (m AND 63) < 64" by (simp add: word_le_nat_alt)
    then show ?thesis by (simp add: push_bit_eq_mult)
  qed
  ultimately show ?thesis by (auto simp: positions_def Let_def)
qed

lemma positions_cong: "length (words f) = length (words g) \<Longrightarrow> positions f hash = positions g hash"
  by (simp add: positions_def)

definition insert_all :: "externs \<Rightarrow> block_filter \<Rightarrow> bytes list \<Rightarrow> block_filter option" where
  "insert_all E f vs = foldl (\<lambda>f v. Option.bind f (\<lambda>f. filter_insert E f v)) (Some f) vs"

lemma insert_all_Cons: "insert_all E f (v # vs) = Option.bind (filter_insert E f v) (\<lambda>f. insert_all E f vs)"
proof -
  have "foldl (\<lambda>f v. Option.bind f (\<lambda>f. filter_insert E f v)) None vs = None" by (induction vs) auto
  then show ?thesis by (cases "filter_insert E f v") (simp_all add: insert_all_def)
qed

lemma filter_insert_total:
  assumes "filter_ok f"
  obtains g where "filter_insert E f v = Some g" "filter_ok g" "length (words g) = length (words f)"
    "covers (positions g (fingerprint E v)) (words g)" "\<And>qs. covers qs (words f) \<Longrightarrow> covers qs (words g)"
proof -
  obtain ws where ws: "set_positions (positions f (fingerprint E v)) (words f) = Some ws" "length ws = length (words f)"
      "covers (positions f (fingerprint E v)) ws" "\<And>qs. covers qs (words f) \<Longrightarrow> covers qs ws"
    using set_positions_total[OF positions_in_range[OF assms]] by blast
  then show thesis
    using that[of "f\<lparr>words := ws\<rparr>"] assms positions_cong[of f "f\<lparr>words := ws\<rparr>"]
    by (simp add: filter_insert_def filter_ok_def)
qed

lemma insert_all_total:
  assumes "filter_ok f"
  shows "\<exists>g. insert_all E f vs = Some g \<and> filter_ok g \<and> length (words g) = length (words f)
    \<and> (\<forall>qs. covers qs (words f) \<longrightarrow> covers qs (words g))
    \<and> (\<forall>v \<in> set vs. covers (positions g (fingerprint E v)) (words g))"
  using assms
proof (induction vs arbitrary: f)
  case Nil
  then show ?case by (simp add: insert_all_def)
next
  case (Cons v vs)
  obtain f' where f': "filter_insert E f v = Some f'" "filter_ok f'" "length (words f') = length (words f)"
      "covers (positions f' (fingerprint E v)) (words f')" "\<And>qs. covers qs (words f) \<Longrightarrow> covers qs (words f')"
    using filter_insert_total[OF Cons.prems] by blast
  obtain g where g: "insert_all E f' vs = Some g" "filter_ok g" "length (words g) = length (words f')"
      "\<And>qs. covers qs (words f') \<Longrightarrow> covers qs (words g)"
      "\<forall>v \<in> set vs. covers (positions g (fingerprint E v)) (words g)"
    using Cons.IH[OF f'(2)] by blast
  then show ?case using f' positions_cong[OF g(3)] by (simp add: insert_all_Cons)
qed

section \<open>Codecs\<close>

lemma length_foldl_put_u64: "length (foldl put_u64 out ws) = length out + length ws * 8"
  by (induction ws arbitrary: out) auto

lemma u32_count: "n < 2 ^ 32 \<Longrightarrow> unat (word_of_nat n :: u32) = n"
  by (simp add: unat_of_nat)

interpretation filter: codec filter_write filter_read "\<lambda>f. length (words f) < 2 ^ 32"
proof
  fix out :: bytes and f :: block_filter
  show "filter_write out f = out @ filter_write [] f"
    unfolding filter_write_def
    by (metis append_assoc put_append(2) u64.foldl_put)
next
  fix f :: block_filter and pre rest :: bytes
  assume "length (words f) < 2 ^ 32"
  then have n: "unat (word_of_nat (length (words f)) :: u32) = length (words f)" by (rule u32_count)
  let ?h = "put_u32 pre (word_of_nat (length (words f)))"
  have h: "?h = pre @ put_u32 [] (word_of_nat (length (words f)))" by (rule put_append)
  have "read_many (with_next 8 get_u64) (length (words f)) (foldl put_u64 ?h (words f) @ rest) (length ?h)
      = Inr (words f, length (foldl put_u64 ?h (words f)))"
    by (rule u64.read_put_many) simp
  moreover have "get_u32 (foldl put_u64 ?h (words f) @ rest) (length pre) = Inr (word_of_nat (length (words f)))"
    by (subst u64.foldl_put) (simp add: h)
  moreover have "slice (foldl put_u64 ?h (words f) @ rest) (length pre + 4) (length (words f) * 8)
      = Inr (foldl put_u64 [] (words f))"
    by (subst u64.foldl_put) (simp add: h slice_Inr_conv length_foldl_put_u64)
  ultimately show "filter_read (filter_write pre f @ rest) (length pre) = Inr (f, length (filter_write pre f))"
    by (simp add: filter_read_def filter_write_def n Let_def length_foldl_put_u64)
qed

lemma put_steps_append: "put_steps out p rows = out @ put_steps [] p rows"
proof (induction rows arbitrary: out p)
  case (Cons r rows)
  show ?case
    using Cons.IH[of "put_varint out (ucast (r - p))" r] Cons.IH[of "put_varint [] (ucast (r - p))" r]
      varint.put_append[of out "ucast (r - p)"] by simp
qed simp

lemma length_put_steps: "length rows \<le> length (put_steps [] p rows)"
proof (induction rows arbitrary: p)
  case (Cons r rows)
  show ?case
    using Cons.IH[of r] put_varint_nonempty[of "ucast (r - p)"]
      put_steps_append[of "put_varint [] (ucast (r - p))" r rows] by (simp del: length_greater_0_conv)
qed simp

lemma ucast_u32_u64 [simp]: "(ucast (ucast (x :: u32) :: u64) :: u32) = x"
  by (rule bit_word_eqI) (simp add: bit_simps)

lemma read_steps_put:
  "read_steps (length rows) (put_steps out p rows @ rest) (length out) p = Inr (rows, length (put_steps out p rows))"
proof (induction rows arbitrary: out p)
  case (Cons r rows)
  let ?out = "put_varint out (ucast (r - p))"
  have "get_varint (put_steps ?out r rows @ rest) (length out) = Inr (ucast (r - p), length ?out)"
    using varint.get_put[where pre = out and x = "ucast (r - p)" and rest = "put_steps [] r rows @ rest"]
      put_steps_append[of ?out r rows] by simp
  then show ?case using Cons.IH[of ?out r] by (simp add: Let_def)
qed simp

definition term_ok :: "bytes \<times> u32 list \<Rightarrow> bool" where
  "term_ok = (\<lambda>(t, rows). length t < 2 ^ 64 \<and> length rows < 2 ^ 64)"

lemma put_term_layout:
  "put_term out (t, rows) = out @ put_varint [] (word_of_nat (length t)) @ t
     @ put_varint [] (word_of_nat (length rows)) @ put_steps [] 0 rows"
proof -
  let ?a = "put_varint out (word_of_nat (length t))"
  let ?b = "put_varint (?a @ t) (word_of_nat (length rows))"
  have "put_term out (t, rows) = ?b @ put_steps [] 0 rows"
    using put_steps_append[of ?b 0 rows] by (simp add: put_term_def Let_def)
  then show ?thesis
    using varint.put_append[of "?a @ t" "word_of_nat (length rows)"] varint.put_append[of out "word_of_nat (length t)"]
    by simp
qed

interpretation terms: codec put_term get_term term_ok
proof
  fix out :: bytes and x :: "bytes \<times> u32 list"
  show "put_term out x = out @ put_term [] x" by (cases x) (simp add: put_term_layout)
next
  fix x :: "bytes \<times> u32 list" and pre rest :: bytes
  assume ok: "term_ok x"
  obtain t rows where x: "x = (t, rows)" by fastforce
  let ?a = "put_varint [] (word_of_nat (length t))"
  let ?b = "put_varint [] (word_of_nat (length rows))"
  let ?s = "put_steps [] 0 rows"
  let ?bs = "pre @ ?a @ t @ ?b @ ?s @ rest"
  have n: "unat (word_of_nat (length t) :: u64) = length t" "unat (word_of_nat (length rows) :: u64) = length rows"
    using ok by (simp_all add: x term_ok_def unat_of_nat)
  have "get_varint ?bs (length pre) = Inr (word_of_nat (length t), length (pre @ ?a))"
    using varint.get_put_at[of "length pre" pre "word_of_nat (length t)" "t @ ?b @ ?s @ rest"] by simp
  moreover have "slice ?bs (length (pre @ ?a)) (length t) = Inr t"
    using slice_at[of "length (pre @ ?a)" "pre @ ?a" "length t" t] by simp
  moreover have "get_varint ?bs (length (pre @ ?a @ t)) = Inr (word_of_nat (length rows), length (pre @ ?a @ t @ ?b))"
    using varint.get_put_at[of "length (pre @ ?a @ t)" "pre @ ?a @ t" "word_of_nat (length rows)" "?s @ rest"] by simp
  moreover have "read_steps (length rows) ?bs (length (pre @ ?a @ t @ ?b)) 0 = Inr (rows, length (pre @ ?a @ t @ ?b @ ?s))"
    using read_steps_put[of rows "pre @ ?a @ t @ ?b" 0 rest] put_steps_append[of "pre @ ?a @ t @ ?b" 0 rows] by simp
  moreover have "\<not> length ?bs - length (pre @ ?a @ t @ ?b) < length rows"
    using length_put_steps[of rows 0] by simp
  ultimately show "get_term (put_term pre x @ rest) (length pre) = Inr (x, length (put_term pre x))"
    by (simp add: get_term_def x put_term_layout n Let_def add.assoc)
qed

lemma bt_insert_last: "\<forall>k' \<in> fst ` set m. k' < k \<Longrightarrow> bt_insert k v m = m @ [(k, v)]"
  by (induction k v m rule: bt_insert.induct) (auto dest: less_asym)

lemma bt_insert_foldl:
  "bt_ok (m @ ts) \<Longrightarrow> foldl (\<lambda>m (t, rows). bt_insert t rows m) m ts = m @ ts"
proof (induction ts arbitrary: m)
  case (Cons x ts)
  have "\<forall>k' \<in> fst ` set m. k' < fst x"
    using Cons.prems by (auto simp: bt_ok_def sorted_wrt_append)
  then have "bt_insert (fst x) (snd x) m = m @ [x]" by (simp add: bt_insert_last)
  then show ?case using Cons.IH[of "m @ [x]"] Cons.prems by (simp add: case_prod_beta)
qed simp

lemma insert_terms_id: "bt_ok ts \<Longrightarrow> insert_terms ts = ts"
  using bt_insert_foldl[of "[]" ts] by (simp add: insert_terms_def)

definition postings_ok :: "term_postings \<Rightarrow> bool" where
  "postings_ok p \<longleftrightarrow> bt_ok (terms p) \<and> length (terms p) < 2 ^ 32 \<and> (\<forall>t \<in> set (terms p). term_ok t)"

lemma length_foldl_put:
  assumes "\<And>out x. length (put out x) = length out + length (put [] x)" "\<And>x. 0 < length (put [] x)"
  shows "length out + length xs \<le> length (foldl put out xs)"
proof (induction xs arbitrary: out)
  case (Cons x xs)
  show ?case using Cons.IH[of "put out x"] assms(1)[of out x] assms(2)[of x]
    by (simp del: length_greater_0_conv)
qed simp

interpretation postings: codec postings_write postings_read postings_ok
proof
  fix out :: bytes and p :: term_postings
  show "postings_write out p = out @ postings_write [] p"
    unfolding postings_write_def by (metis append_assoc put_append(2) terms.foldl_put)
next
  fix p :: term_postings and pre rest :: bytes
  assume ok: "postings_ok p"
  let ?h = "put_u32 pre (word_of_nat (length (terms p)))"
  let ?w = "foldl put_term ?h (terms p)"
  have n: "unat (word_of_nat (length (terms p)) :: u32) = length (terms p)"
    using ok by (intro u32_count) (simp add: postings_ok_def)
  have h: "?h = pre @ put_u32 [] (word_of_nat (length (terms p)))" by (rule put_append)
  have "read_many get_term (length (terms p)) (?w @ rest) (length ?h) = Inr (terms p, length ?w)"
    using ok by (intro terms.read_put_many) (simp add: postings_ok_def)
  moreover have "get_u32 (?w @ rest) (length pre) = Inr (word_of_nat (length (terms p)))"
    by (subst terms.foldl_put) (simp add: h)
  moreover have "length ?h + length (terms p) \<le> length ?w"
    by (rule length_foldl_put[OF terms.length_put]) (auto simp: put_term_layout put_varint_nonempty[unfolded length_greater_0_conv])
  ultimately show "postings_read (postings_write pre p @ rest) (length pre) = Inr (p, length (postings_write pre p))"
    using ok by (simp add: postings_read_def postings_write_def n Let_def insert_terms_id postings_ok_def)
qed

interpretation entry: codec put_entry get_entry "\<lambda>_. True"
proof
  fix out :: bytes and x :: "u64 \<times> u32"
  show "put_entry out x = out @ put_entry [] x"
    by (cases x) (simp add: put_entry_def put_u32_def put_u64_def)
next
  fix x :: "u64 \<times> u32" and pre rest :: bytes
  obtain h r where x: "x = (h, r)" by fastforce
  have "put_entry pre x = pre @ put_u64 [] h @ put_u32 [] r"
    by (simp add: put_entry_def put_u32_def put_u64_def x)
  then show "get_entry (put_entry pre x @ rest) (length pre) = Inr (x, length (put_entry pre x))"
    using get_u32_put[of "length pre + 8" "pre @ put_u64 [] h" r rest] by (simp add: get_entry_def x)
qed

lemma length_put_entry [simp]: "length (put_entry out x) = length out + 12"
  by (cases x) (simp add: put_entry_def)

lemma length_foldl_put_entry: "length (foldl put_entry out es) = length out + length es * 12"
  by (induction es arbitrary: out) auto

interpretation lookup: codec lookup_write lookup_read "\<lambda>l. length (entries l) < 2 ^ 32"
proof
  fix out :: bytes and l :: unique_lookup
  show "lookup_write out l = out @ lookup_write [] l"
    unfolding lookup_write_def by (metis append_assoc put_append(2) entry.foldl_put)
next
  fix l :: unique_lookup and pre rest :: bytes
  assume "length (entries l) < 2 ^ 32"
  then have n: "unat (word_of_nat (length (entries l)) :: u32) = length (entries l)" by (rule u32_count)
  let ?h = "put_u32 pre (word_of_nat (length (entries l)))"
  have h: "?h = pre @ put_u32 [] (word_of_nat (length (entries l)))" by (rule put_append)
  have "read_many get_entry (length (entries l)) (foldl put_entry ?h (entries l) @ rest) (length ?h)
      = Inr (entries l, length (foldl put_entry ?h (entries l)))"
    by (rule entry.read_put_many) simp
  moreover have "get_u32 (foldl put_entry ?h (entries l) @ rest) (length pre) = Inr (word_of_nat (length (entries l)))"
    by (subst entry.foldl_put) (simp add: h)
  moreover have "slice (foldl put_entry ?h (entries l) @ rest) (length pre + 4) (length (entries l) * 12)
      = Inr (foldl put_entry [] (entries l))"
    by (subst entry.foldl_put) (simp add: h slice_Inr_conv length_foldl_put_entry)
  ultimately show "lookup_read (lookup_write pre l @ rest) (length pre) = Inr (l, length (lookup_write pre l))"
    by (simp add: lookup_read_def lookup_write_def n Let_def length_foldl_put_entry)
qed

section \<open>Lookups\<close>

lemma takeWhile_run:
  "sorted (map k ys) \<Longrightarrow> \<forall>y \<in> set ys. t \<le> k y \<Longrightarrow>
   takeWhile (\<lambda>y. k y = t) ys = filter (\<lambda>y. k y = (t :: 'a::linorder)) ys"
proof (induction ys)
  case (Cons y ys)
  show ?case
  proof (cases "k y = t")
    case False
    then have "\<forall>z \<in> set ys. k z \<noteq> t" using Cons.prems by force
    then show ?thesis using False by (auto simp: filter_empty_conv)
  qed (use Cons in auto)
qed simp

lemma takeWhile_drop_run:
  "sorted (map k xs) \<Longrightarrow>
   takeWhile (\<lambda>x. k x = t) (drop (partition_point (\<lambda>x. k x < t) xs) xs) = filter (\<lambda>x. k x = (t :: 'a::linorder)) xs"
proof (induction xs)
  case (Cons x xs)
  show ?case
  proof (cases "k x < t")
    case True
    then show ?thesis using Cons by (auto simp: partition_point_def)
  next
    case False
    then have "takeWhile (\<lambda>x. k x = t) (x # xs) = filter (\<lambda>x. k x = t) (x # xs)"
      using Cons.prems by (intro takeWhile_run) auto
    then show ?thesis using False by (simp add: partition_point_def split: if_splits)
  qed
qed (simp add: partition_point_def)

lemma sorted_map_fst: "sorted xs \<Longrightarrow> sorted (map fst (xs :: ('a::linorder \<times> 'b::linorder) list))"
  by (induction xs) (auto simp: less_eq_prod_def)

lemma lookup_candidates_sealed:
  "lookup_candidates E (lookup_seal l) v = map snd (sort (filter (\<lambda>(h, _). h = fingerprint E v) (entries l)))"
  using takeWhile_drop_run[where k = fst and xs = "sort (entries l)" and t = "fingerprint E v"] sorted_map_fst[of "sort (entries l)"]
  by (simp add: lookup_candidates_def lookup_seal_def filter_sort case_prod_beta' Let_def)

lemma entries_added:
  "entries (foldl (\<lambda>l (w, row). lookup_add E l w row) l ws) = entries l @ map (\<lambda>(w, row). (fingerprint E w, row)) ws"
  by (induction ws arbitrary: l) (auto simp: lookup_add_def)


definition rows_of :: "term_postings \<Rightarrow> bytes \<Rightarrow> u32 list" where
  "rows_of p v = (case postings_rows p v of None \<Rightarrow> [] | Some rows \<Rightarrow> rows)"

lemma rows_of_add: "rows_of (postings_add p w row) v = rows_of p v @ (if v = w then [row] else [])"
  by (simp add: rows_of_def postings_rows_def postings_add_def split: option.splits)

lemma postings_rows_nonempty:
  "(\<And>v. postings_rows p v \<noteq> Some []) \<Longrightarrow> postings_rows (postings_add p w row) v \<noteq> Some []"
  by (auto simp: postings_rows_def postings_add_def)

lemma postings_added:
  "(\<And>v. postings_rows p v \<noteq> Some []) \<Longrightarrow>
   rows_of (foldl (\<lambda>p (w, row). postings_add p w row) p ws) v = rows_of p v @ map snd (filter (\<lambda>(w, _). w = v) ws)
   \<and> postings_rows (foldl (\<lambda>p (w, row). postings_add p w row) p ws) v \<noteq> Some []"
proof (induction ws arbitrary: p)
  case (Cons x ws)
  obtain w row where x: "x = (w, row)" by fastforce
  show ?case
    using Cons.IH[of "postings_add p w row"] postings_rows_nonempty[OF Cons.prems] rows_of_add[of p w row v]
    by (simp add: x)
qed simp

section \<open>Blocks\<close>

fun index_ok :: "column_index \<Rightarrow> bool" where
  "index_ok (BlockFilter fs) = (length fs < 2 ^ 32 \<and> (\<forall>f \<in> set fs. length (words f) < 2 ^ 32))"
| "index_ok (TermPostings p) = postings_ok p"
| "index_ok (UniqueLookup l) = (length (entries l) < 2 ^ 32)"

lemma read_index_body_written:
  assumes "index_ok index"
  shows "read_index_body (layout index) (index_body index) = Inr index"
proof (cases index)
  case (BlockFilter fs)
  let ?h = "put_u32 [] (word_of_nat (length fs))"
  have n: "unat (word_of_nat (length fs) :: u32) = length fs"
    using assms BlockFilter by (intro u32_count) simp
  have "read_many filter_read (length fs) (foldl filter_write ?h fs @ []) (length ?h)
      = Inr (fs, length (foldl filter_write ?h fs))"
    using assms BlockFilter by (intro filter.read_put_many) simp
  moreover have "get_u32 (foldl filter_write ?h fs) 0 = Inr (word_of_nat (length fs))"
    using get_u32_put[of 0 "[]"] by (subst filter.foldl_put) simp
  moreover have "length ?h + length fs \<le> length (foldl filter_write ?h fs)"
    by (rule length_foldl_put[OF filter.length_put])
      (simp add: filter_write_def length_foldl_put_u64 del: length_greater_0_conv)
  ultimately show ?thesis by (simp add: BlockFilter read_index_body_def n Let_def)
next
  case (TermPostings p)
  then show ?thesis using postings.get_put[of p "[]" "[]"] assms by (simp add: read_index_body_def)
next
  case (UniqueLookup l)
  then show ?thesis using lookup.get_put[of l "[]" "[]"] assms by (simp add: read_index_body_def)
qed

definition index_fits :: "column_index \<Rightarrow> bool" where
  "index_fits index \<longleftrightarrow> length (index_body index) + OVERHEAD_BYTES < 2 ^ 32"

lemma read_written_index:
  assumes "index_ok index" "index_fits index"
    and "\<And>k. cip = Some k \<Longrightarrow> cipher_ok k" "draw_ok draw"
    and "write_index_maybe_encrypted E draw pre index cip seg = Inr (out, added)"
  shows "read_index_maybe_encrypted E (out @ rest) (length pre) verify cip seg = Inr index"
    "index_size (out @ rest) (length pre) = Inr added" "length out = length pre + added"
proof -
  obtain body where s: "(case cip of None \<Rightarrow> Inr (index_body index)
       | Some cip \<Rightarrow> seal cip draw (index_body index) (block_context seg (word_of_nat (length pre)))) = Inr body"
    and out: "out = pre @ put_u32 [] (word_of_nat (length body)) @ put_u16 [] (layout_number (layout index))
        @ put_u64 [] (page_checksum E body) @ body" "added = 14 + length body"
    using assms(5) by (auto simp: write_index_maybe_encrypted_def result_convs Let_def put_u32_def put_u16_def put_u64_def)
  have "length body \<le> length (index_body index) + OVERHEAD_BYTES"
    using s seal_length[OF assms(3) assms(4)] by (cases cip) force+
  then have n: "unat (word_of_nat (length body) :: u32) = length body"
    using assms(2) by (intro u32_count) (simp add: index_fits_def)
  have opened: "(case cip of None \<Rightarrow> Inr body
      | Some cip \<Rightarrow> (case open_block cip body (block_context seg (word_of_nat (length pre))) of
          Inl e \<Rightarrow> Inl (Unsupported (KeyFailure e)) | Inr plain \<Rightarrow> Inr plain)) = Inr (index_body index)"
    using s open_seal[OF assms(3) assms(4)] by (cases cip) auto
  let ?a = "put_u32 [] (word_of_nat (length body) :: u32)"
  let ?b = "put_u16 [] (layout_number (layout index))"
  let ?c = "put_u64 [] (page_checksum E body)"
  have len: "get_u32 (out @ rest) (length pre) = Inr (word_of_nat (length body))"
    by (simp add: out)
  have "get_u16 (out @ rest) (length pre + 4) = Inr (layout_number (layout index))"
    using get_u16_put[of "length pre + 4" "pre @ ?a"] by (simp add: out)
  moreover have "get_u64 (out @ rest) (length pre + 6) = Inr (page_checksum E body)"
    using get_u64_put[of "length pre + 6" "pre @ ?a @ ?b"] by (simp add: out)
  moreover have "slice (out @ rest) (length pre + 14) (length body) = Inr body"
    using slice_at[of "length pre + 14" "pre @ ?a @ ?b @ ?c" "length body" body] by (simp add: out)
  ultimately show "read_index_maybe_encrypted E (out @ rest) (length pre) verify cip seg = Inr index"
    using len n opened read_index_body_written[OF assms(1)]
    by (simp add: read_index_maybe_encrypted_def INDEX_HEADER_BYTES_def)
  show "index_size (out @ rest) (length pre) = Inr added" "length out = length pre + added"
    using len n by (simp_all add: index_size_def INDEX_HEADER_BYTES_def out)
qed

section \<open>Properties\<close>

text \<open>C17: The filter has no false negative. Inserting any values into a filter of any
  row count below \<open>2 ^ 59\<close> never fails, the filter still holds every value inserted,
  and it holds them after it has been written to a file and read back.\<close>

theorem filter_no_false_negative:
  assumes "rows < 2 ^ 59"
  shows "\<exists>f. insert_all E (filter_new rows) vs = Some f
    \<and> (\<forall>v \<in> set vs. maybe E f v = Some True)
    \<and> (length (words f) < 2 ^ 32 \<longrightarrow>
        filter_read (filter_write before f @ rest) (length before) = Inr (f, length (filter_write before f)))"
proof -
  obtain f where "insert_all E (filter_new rows) vs = Some f"
      "\<forall>v \<in> set vs. covers (positions f (fingerprint E v)) (words f)"
    using insert_all_total[OF filter_new_ok[OF assms], of E vs] by blast
  then show ?thesis
    using filter.get_put[of f before rest] by (auto simp: maybe_def all_positions_covers)
qed

theorem filter_no_false_negative_witness:
  "\<exists>f. insert_all plain_externs (filter_new 100) [[1, 2], [3]] = Some f
    \<and> maybe plain_externs f [1, 2] = Some True \<and> maybe plain_externs f [3] = Some True"
  using filter_no_false_negative[of 100 plain_externs "[[1, 2], [3]]" "[]" "[]"] by auto

text \<open>The postings of a term are exactly the rows that were added with it, in the
  order they were added; a term that was never added has none.\<close>

theorem postings_exact:
  "postings_rows (foldl (\<lambda>p (w, row). postings_add p w row) postings_new ws) v
     = (let rows = map snd (filter (\<lambda>(w, _). w = v) ws) in if rows = [] then None else Some rows)"
  using postings_added[of postings_new ws v]
  by (auto simp: rows_of_def postings_new_def postings_rows_def Let_def split: option.splits)

text \<open>After sealing, a lookup returns the rows of every value with the same
  fingerprint and no other row: no row of the value is missed, and what else it
  returns is only what a collision of fingerprints brings.\<close>

theorem lookup_candidates_exact:
  "set (lookup_candidates E (lookup_seal (foldl (\<lambda>l (w, row). lookup_add E l w row) lookup_new ws)) v)
     = {row. \<exists>w. (w, row) \<in> set ws \<and> fingerprint E w = fingerprint E v}"
  by (force simp: lookup_candidates_sealed entries_added lookup_new_def)

text \<open>An index block reads back as the index it was written from, with or without
  a cipher and with the checksum verified or not, and its header gives its size.\<close>

theorem index_round_trip:
  assumes "index_ok index" and "index_fits index"
    and "\<And>k. cip = Some k \<Longrightarrow> cipher_ok k" and "draw_ok draw"
    and "write_index_maybe_encrypted E draw before index cip segment_id = Inr (out, added)"
  shows "read_index_maybe_encrypted E (out @ rest) (length before) verify cip segment_id = Inr index
    \<and> index_size (out @ rest) (length before) = Inr added
    \<and> length out = length before + added"
  using read_written_index[OF assms] by simp

theorem index_round_trip_witness:
  "read_index_maybe_encrypted plain_externs
     (fst (projr (write_index_maybe_encrypted plain_externs (Some (replicate 12 7)) [9]
        (TermPostings \<lparr>terms = [([1], [3, 9]), ([2], [4])]\<rparr>) (Some toy_cipher) (replicate 16 1)))) 1 True
     (Some toy_cipher) (replicate 16 1)
   = Inr (TermPostings \<lparr>terms = [([1], [3, 9]), ([2], [4])]\<rparr>)"
proof -
  let ?i = "TermPostings \<lparr>terms = [([1], [3, 9]), ([2], [4])]\<rparr>"
  have ok: "index_ok ?i" by (simp add: postings_ok_def bt_ok_def term_ok_def)
  have fits: "index_fits ?i"
    by (simp add: index_fits_def OVERHEAD_BYTES_def NONCE_BYTES_def TAG_BYTES_def postings_write_def put_term_def put_varint.simps)
  obtain out added where w: "write_index_maybe_encrypted plain_externs (Some (replicate 12 7)) [9] ?i
      (Some toy_cipher) (replicate 16 1) = Inr (out, added)"
    by (simp add: write_index_maybe_encrypted_def seal_def toy_cipher_def Let_def)
  show ?thesis
    using index_round_trip[OF ok fits _ _ w, of "[]" True] toy_cipher_ok
    by (simp add: w draw_ok_def NONCE_BYTES_def)
qed

text \<open>A stored filter of no words is accepted by the reader and every later query
  of it panics: the reader does not check the count, and the index is masked with
  \<open>0 - 1\<close>.\<close>

theorem empty_filter_panics:
  "filter_read (put_u32 [] 0 @ rest) 0 = Inr (\<lparr>words = []\<rparr>, 4) \<and> maybe E \<lparr>words = []\<rparr> v = None"
proof -
  obtain m ms where "mix 4 (fingerprint E v) = m # ms"
    using mix.simps(2)[of 3 "fingerprint E v"] by (simp add: Let_def)
  then have "maybe E \<lparr>words = []\<rparr> v = None" by (simp add: maybe_def positions_def)
  then show ?thesis
    using filter.get_put[of "\<lparr>words = []\<rparr>" "[]" rest] by (simp add: filter_write_def)
qed

end
