(* ===== verification/Locator.thy ===== *)
theory Locator
  imports Index
begin

text \<open>
  The tablet locator, \<^verbatim>\<open>tallyowl-store/src/locator.rs\<close>: for each indexed value, the
  segments that may hold it, in runs of one day.

  A timestamp or a bucket is the \<open>int\<close> of an \<open>i64\<close>, because the map of runs is in
  signed order; the one subtraction that can leave the range is wrapped by
  \<open>i64_wrap\<close>. A segment identifier is its 16 bytes.

  The locator is specified by its set of references, \<open>refs\<close>: every operation is
  shown to be the corresponding operation on that set.
\<close>

definition i64_wrap :: "int \<Rightarrow> int" where
  "i64_wrap x = (x + 2 ^ 63) mod 2 ^ 64 - 2 ^ 63"

definition BUCKET_MS :: int where
  "BUCKET_MS = 86400000"

definition bucket_of :: "int \<Rightarrow> int" where
  "bucket_of at = i64_wrap (at - at mod BUCKET_MS)"

definition field_of :: "externs \<Rightarrow> bytes \<Rightarrow> u64" where
  "field_of E column = fingerprint E column"

section \<open>Runs\<close>

datatype locator_entry = Entry (entry_field: u64) (entry_value: u64) (entry_segment: bytes)

text \<open>The derived order: by field, then value, then segment.\<close>

instantiation locator_entry :: linorder
begin

definition less_eq_locator_entry :: "locator_entry \<Rightarrow> locator_entry \<Rightarrow> bool" where
  "less_eq_locator_entry a b \<longleftrightarrow>
     (entry_field a, entry_value a, entry_segment a) \<le> (entry_field b, entry_value b, entry_segment b)"

definition less_locator_entry :: "locator_entry \<Rightarrow> locator_entry \<Rightarrow> bool" where
  "less_locator_entry a b \<longleftrightarrow>
     (entry_field a, entry_value a, entry_segment a) < (entry_field b, entry_value b, entry_segment b)"

instance
proof
  fix x y z :: locator_entry
  show "(x < y) = (x \<le> y \<and> \<not> y \<le> x)" by (auto simp: less_eq_locator_entry_def less_locator_entry_def)
  show "x \<le> x" by (simp add: less_eq_locator_entry_def)
  show "x \<le> y \<Longrightarrow> y \<le> z \<Longrightarrow> x \<le> z" unfolding less_eq_locator_entry_def by (rule order_trans)
  show "x \<le> y \<Longrightarrow> y \<le> x \<Longrightarrow> x = y"
    unfolding less_eq_locator_entry_def by (drule (1) order_antisym) (cases x; cases y; simp)
  show "x \<le> y \<or> y \<le> x" unfolding less_eq_locator_entry_def by (rule linear)
qed

end

record locator_run =
  run_bucket :: int
  run_entries :: "locator_entry list"

definition run_new :: "int \<Rightarrow> locator_run" where
  "run_new bucket = \<lparr>run_bucket = bucket, run_entries = []\<rparr>"

definition run_is_empty :: "locator_run \<Rightarrow> bool" where
  "run_is_empty r \<longleftrightarrow> run_entries r = []"

definition run_byte_len :: "locator_run \<Rightarrow> nat" where
  "run_byte_len r = length (run_entries r) * 32"

definition run_add :: "externs \<Rightarrow> locator_run \<Rightarrow> bytes \<Rightarrow> bytes \<Rightarrow> bytes \<Rightarrow> locator_run" where
  "run_add E r column v segment =
     r\<lparr>run_entries := run_entries r @ [Entry (field_of E column) (fingerprint E v) segment]\<rparr>"

definition run_seal :: "locator_run \<Rightarrow> locator_run" where
  "run_seal r = r\<lparr>run_entries := sort_dedup (run_entries r)\<rparr>"

definition run_candidates :: "locator_run \<Rightarrow> u64 \<Rightarrow> u64 \<Rightarrow> bytes list \<Rightarrow> bytes list" where
  "run_candidates r field v out =
     (let start = partition_point (\<lambda>e. (entry_field e, entry_value e) < (field, v)) (run_entries r)
      in out @ map entry_segment
           (takeWhile (\<lambda>e. \<not> (entry_field e \<noteq> field \<or> entry_value e \<noteq> v)) (drop start (run_entries r))))"

definition run_retain_segments :: "locator_run \<Rightarrow> (bytes \<Rightarrow> bool) \<Rightarrow> locator_run" where
  "run_retain_segments r live = r\<lparr>run_entries := filter (\<lambda>e. live (entry_segment e)) (run_entries r)\<rparr>"

definition run_merge :: "locator_run \<Rightarrow> locator_run \<Rightarrow> locator_run" where
  "run_merge r other = run_seal (r\<lparr>run_entries := run_entries r @ run_entries other\<rparr>)"

definition put_locator_entry :: "bytes \<Rightarrow> locator_entry \<Rightarrow> bytes" where
  "put_locator_entry out e =
     put_u64 (put_u64 out (entry_field e)) (entry_value e) @ entry_segment e"

definition get_locator_entry :: "bytes \<Rightarrow> nat \<Rightarrow> format_error + locator_entry \<times> nat" where
  "get_locator_entry bs at =
     and_then (slice bs (at + 16) 16) (\<lambda>segment.
     and_then (get_u64 bs at) (\<lambda>field.
     and_then (get_u64 bs (at + 8)) (\<lambda>v. Inr (Entry field v segment, at + 32))))"

definition run_encode :: "locator_run \<Rightarrow> bytes" where
  "run_encode r =
     (let out = put_u64 [] (word_of_int (run_bucket r));
          out = put_u32 out (word_of_nat (length (run_entries r)))
      in foldl put_locator_entry out (run_entries r))"

definition run_decode :: "bytes \<Rightarrow> format_error + locator_run" where
  "run_decode bs =
     and_then (get_u64 bs 0) (\<lambda>bucket.
     and_then (get_u32 bs 8) (\<lambda>count. let count = unat count in
     and_then (slice bs 12 (count * 32)) (\<lambda>_.
     and_then (read_many get_locator_entry count bs 12) (\<lambda>(es, _).
       Inr \<lparr>run_bucket = sint bucket, run_entries = es\<rparr>))))"

section \<open>Locators\<close>

record locator =
  runs :: "(int, locator_run) btree"

definition locator_new :: locator where
  "locator_new = \<lparr>runs = []\<rparr>"

definition from_runs :: "locator_run list \<Rightarrow> locator" where
  "from_runs rs = \<lparr>runs = foldl (\<lambda>m r. bt_insert (run_bucket r) r m) [] rs\<rparr>"

definition locator_seal :: "locator \<Rightarrow> locator" where
  "locator_seal l = l\<lparr>runs := map (\<lambda>(bucket, r). (bucket, run_seal r)) (runs l)\<rparr>"

definition combine_run :: "(int, locator_run) btree \<Rightarrow> locator_run \<Rightarrow> (int, locator_run) btree" where
  "combine_run combined r =
     (case bt_get combined (run_bucket r) of
        None \<Rightarrow> bt_insert (run_bucket r) r combined
      | Some slot \<Rightarrow>
          bt_insert (run_bucket r) (slot\<lparr>run_entries := run_entries slot @ run_entries r\<rparr>) combined)"

definition from_all_runs :: "locator_run list \<Rightarrow> locator" where
  "from_all_runs rs = locator_seal \<lparr>runs = foldl combine_run [] rs\<rparr>"

definition locator_is_empty :: "locator \<Rightarrow> bool" where
  "locator_is_empty l \<longleftrightarrow> list_all run_is_empty (bt_values (runs l))"

definition locator_byte_len :: "locator \<Rightarrow> nat" where
  "locator_byte_len l = sum_list (map run_byte_len (bt_values (runs l)))"

definition run_or_new :: "locator \<Rightarrow> int \<Rightarrow> locator_run" where
  "run_or_new l bucket = (case bt_get (runs l) bucket of None \<Rightarrow> run_new bucket | Some r \<Rightarrow> r)"

definition locator_add :: "externs \<Rightarrow> locator \<Rightarrow> bytes \<Rightarrow> bytes \<Rightarrow> int \<Rightarrow> bytes \<Rightarrow> locator" where
  "locator_add E l column v at segment =
     (let bucket = bucket_of at
      in l\<lparr>runs := bt_insert bucket (run_add E (run_or_new l bucket) column v segment) (runs l)\<rparr>)"

definition locator_merge :: "locator \<Rightarrow> locator \<Rightarrow> locator" where
  "locator_merge l other =
     foldl (\<lambda>l (bucket, r). l\<lparr>runs := bt_insert bucket (run_merge (run_or_new l bucket) r) (runs l)\<rparr>)
       l (runs other)"

definition in_range :: "(int \<times> int) option \<Rightarrow> int \<Rightarrow> bool" where
  "in_range bounds bucket \<longleftrightarrow>
     (case bounds of None \<Rightarrow> True | Some (first, end) \<Rightarrow> first \<le> bucket \<and> bucket < end)"

definition overlapping :: "locator \<Rightarrow> (int \<times> int) option \<Rightarrow> locator_run list" where
  "overlapping l within =
     (let bounds = map_option (\<lambda>(start, end). (bucket_of start, end)) within
      in filter (\<lambda>r. in_range bounds (run_bucket r)) (bt_values (runs l)))"

definition candidates :: "externs \<Rightarrow> locator \<Rightarrow> bytes \<Rightarrow> bytes \<Rightarrow> (int \<times> int) option \<Rightarrow> bytes list" where
  "candidates E l column v within =
     (let field = field_of E column; printed = fingerprint E v;
          out = foldl (\<lambda>out r. run_candidates r field printed out) [] (overlapping l within)
      in sort_dedup out)"

definition candidate_count :: "externs \<Rightarrow> locator \<Rightarrow> bytes \<Rightarrow> bytes \<Rightarrow> (int \<times> int) option \<Rightarrow> nat" where
  "candidate_count E l column v within = length (candidates E l column v within)"

definition runs_read :: "locator \<Rightarrow> (int \<times> int) option \<Rightarrow> nat" where
  "runs_read l within = length (overlapping l within)"

definition retain_segments :: "locator \<Rightarrow> (bytes \<Rightarrow> bool) \<Rightarrow> locator" where
  "retain_segments l live =
     (let rs = map (\<lambda>(bucket, r). (bucket, run_retain_segments r live)) (runs l)
      in l\<lparr>runs := filter (\<lambda>(_, r). \<not> run_is_empty r) rs\<rparr>)"

definition disagreements :: "locator \<Rightarrow> (bytes \<Rightarrow> bool) \<Rightarrow> bytes list" where
  "disagreements l live =
     (let out = map entry_segment
            (filter (\<lambda>e. \<not> live (entry_segment e)) (concat (map run_entries (bt_values (runs l)))))
      in sort_dedup out)"

section \<open>The set of references\<close>

definition locator_ok :: "locator \<Rightarrow> bool" where
  "locator_ok l \<longleftrightarrow> bt_ok (runs l) \<and> (\<forall>(bucket, r) \<in> set (runs l). run_bucket r = bucket)"

definition refs :: "locator \<Rightarrow> (int \<times> locator_entry) set" where
  "refs l = {(bucket, e). \<exists>r. bt_get (runs l) bucket = Some r \<and> e \<in> set (run_entries r)}"

definition sealed_run :: "locator_run \<Rightarrow> bool" where
  "sealed_run r \<longleftrightarrow> sorted (run_entries r) \<and> distinct (run_entries r)"

definition locator_sealed :: "locator \<Rightarrow> bool" where
  "locator_sealed l \<longleftrightarrow> (\<forall>r \<in> snd ` set (runs l). sealed_run r)"

lemma locator_okD:
  assumes "locator_ok l"
  shows "bt_ok (runs l)" "bt_get (runs l) b = Some r \<Longrightarrow> run_bucket r = b" "(b, r) \<in> set (runs l) \<Longrightarrow> run_bucket r = b"
  using assms by (auto simp: locator_ok_def dest: map_of_SomeD)

lemma locator_ok_iff:
  "locator_ok l \<longleftrightarrow> bt_ok (runs l) \<and> (\<forall>b r. bt_get (runs l) b = Some r \<longrightarrow> run_bucket r = b)"
  by (auto simp: locator_ok_def bt_get_eq_Some dest: map_of_SomeD)

lemma run_or_new_bucket [simp]: "locator_ok l \<Longrightarrow> run_bucket (run_or_new l b) = b"
  by (auto simp: run_or_new_def run_new_def locator_okD split: option.splits)

lemma refs_run_or_new: "(b, e) \<in> refs l \<longleftrightarrow> e \<in> set (run_entries (run_or_new l b))"
  by (auto simp: refs_def run_or_new_def run_new_def split: option.splits)

lemma run_seal_simps [simp]:
  "run_bucket (run_seal r) = run_bucket r" "set (run_entries (run_seal r)) = set (run_entries r)" "sealed_run (run_seal r)"
  by (simp_all add: run_seal_def sealed_run_def)

lemma run_merge_simps [simp]:
  "run_bucket (run_merge r s) = run_bucket r"
  "set (run_entries (run_merge r s)) = set (run_entries r) \<union> set (run_entries s)" "sealed_run (run_merge r s)"
  by (simp_all add: run_merge_def)

lemma run_add_simps [simp]:
  "run_bucket (run_add E r c v s) = run_bucket r"
  "set (run_entries (run_add E r c v s)) = insert (Entry (field_of E c) (fingerprint E v) s) (set (run_entries r))"
  by (simp_all add: run_add_def)

lemma locator_ok_update:
  "locator_ok l \<Longrightarrow> run_bucket r = b \<Longrightarrow> locator_ok (l\<lparr>runs := bt_insert b r (runs l)\<rparr>)"
  by (auto simp: locator_ok_iff split: if_splits)

lemma refs_update:
  "refs (l\<lparr>runs := bt_insert b r (runs l)\<rparr>) = {(c, e) \<in> refs l. c \<noteq> b} \<union> {b} \<times> set (run_entries r)"
  by (auto simp: refs_def split: if_splits)

lemma locator_new_ok [simp]: "locator_ok locator_new" "refs locator_new = {}" "locator_sealed locator_new"
  by (simp_all add: locator_ok_def locator_new_def refs_def locator_sealed_def)

lemma locator_add_ok: "locator_ok l \<Longrightarrow> locator_ok (locator_add E l column v at segment)"
  by (simp add: locator_add_def Let_def locator_ok_update)

lemma refs_add:
  "refs (locator_add E l column v at segment)
     = insert (bucket_of at, Entry (field_of E column) (fingerprint E v) segment) (refs l)"
  by (auto simp: locator_add_def Let_def refs_update refs_run_or_new)

lemma bt_get_map_snd: "bt_get (map (\<lambda>(k, v). (k, f v)) m) k = map_option f (bt_get m k)"
  by (induction m) auto

lemma locator_seal_ok:
  "locator_ok l \<Longrightarrow> locator_ok (locator_seal l)" "refs (locator_seal l) = refs l" "locator_sealed (locator_seal l)"
  using bt_ok_map_snd[of "\<lambda>_. run_seal" "runs l"]
  by (auto simp: locator_ok_def locator_seal_def refs_def bt_get_map_snd locator_sealed_def case_prod_beta)

lemma locator_sealed_update:
  "locator_sealed l \<Longrightarrow> sealed_run r \<Longrightarrow> locator_sealed (l\<lparr>runs := bt_insert b r (runs l)\<rparr>)"
  using set_bt_insert[of b r "runs l"] by (fastforce simp: locator_sealed_def)

lemma merge_step:
  assumes "locator_ok l" "locator_ok other"
  shows "locator_ok (locator_merge l other) \<and> refs (locator_merge l other) = refs l \<union> refs other
    \<and> (locator_sealed l \<longrightarrow> locator_sealed (locator_merge l other))"
proof -
  let ?f = "\<lambda>l (b, r). l\<lparr>runs := bt_insert b (run_merge (run_or_new l b) r) (runs l)\<rparr>"
  have "locator_ok (foldl ?f l rs) \<and> refs (foldl ?f l rs) = refs l \<union> {(b, e). \<exists>r. (b, r) \<in> set rs \<and> e \<in> set (run_entries r)}
      \<and> (locator_sealed l \<longrightarrow> locator_sealed (foldl ?f l rs))"
    if "locator_ok l" for l rs
    using that
  proof (induction rs arbitrary: l)
    case (Cons x rs)
    obtain b r where x: "x = (b, r)" by fastforce
    have "locator_ok (?f l x)" using Cons.prems by (simp add: x locator_ok_update)
    moreover have "refs (?f l x) = refs l \<union> {b} \<times> set (run_entries r)"
      by (auto simp: x refs_update refs_run_or_new)
    moreover have "locator_sealed l \<longrightarrow> locator_sealed (?f l x)" by (simp add: x locator_sealed_update)
    ultimately show ?case using Cons.IH[of "?f l x"] by (auto simp: x)
  qed simp
  from this[OF assms(1), of "runs other"] show ?thesis
    using bt_get_eq_Some[OF locator_okD(1)[OF assms(2)]] by (simp add: locator_merge_def refs_def)
qed

lemma locator_merge_ok:
  "locator_ok l \<Longrightarrow> locator_ok other \<Longrightarrow> locator_ok (locator_merge l other)"
  "locator_ok l \<Longrightarrow> locator_ok other \<Longrightarrow> refs (locator_merge l other) = refs l \<union> refs other"
  "locator_ok l \<Longrightarrow> locator_ok other \<Longrightarrow> locator_sealed l \<Longrightarrow> locator_sealed (locator_merge l other)"
  using merge_step[of l other] by simp_all

lemma combine_run_ok:
  assumes "locator_ok \<lparr>runs = m\<rparr>"
  shows "locator_ok \<lparr>runs = combine_run m r\<rparr>"
    "refs \<lparr>runs = combine_run m r\<rparr> = refs \<lparr>runs = m\<rparr> \<union> {run_bucket r} \<times> set (run_entries r)"
    "dom (bt_get (combine_run m r)) = insert (run_bucket r) (dom (bt_get m))"
  using assms by (auto simp: combine_run_def locator_ok_iff refs_def split: option.splits if_splits)

lemma foldl_combine_run:
  "locator_ok \<lparr>runs = m\<rparr> \<Longrightarrow> locator_ok \<lparr>runs = foldl combine_run m rs\<rparr>
    \<and> refs \<lparr>runs = foldl combine_run m rs\<rparr> = refs \<lparr>runs = m\<rparr> \<union> (\<Union>r \<in> set rs. {run_bucket r} \<times> set (run_entries r))
    \<and> dom (bt_get (foldl combine_run m rs)) = dom (bt_get m) \<union> run_bucket ` set rs"
proof (induction rs arbitrary: m)
  case (Cons r rs)
  note c = combine_run_ok[OF Cons.prems, of r]
  show ?case using Cons.IH[OF c(1)] by (auto simp: c(2,3))
qed simp

lemma from_all_runs_ok:
  "locator_ok (from_all_runs rs)" "locator_sealed (from_all_runs rs)"
  "refs (from_all_runs rs) = (\<Union>r \<in> set rs. {run_bucket r} \<times> set (run_entries r))"
  "dom (bt_get (runs (from_all_runs rs))) = run_bucket ` set rs"
proof -
  let ?l = "\<lparr>runs = foldl combine_run [] rs\<rparr>"
  have l: "locator_ok ?l" "refs ?l = (\<Union>r \<in> set rs. {run_bucket r} \<times> set (run_entries r))"
      "dom (bt_get (runs ?l)) = run_bucket ` set rs"
    using foldl_combine_run[of "[]" rs] by (simp_all add: locator_ok_def refs_def)
  then show "locator_ok (from_all_runs rs)" "locator_sealed (from_all_runs rs)"
      "refs (from_all_runs rs) = (\<Union>r \<in> set rs. {run_bucket r} \<times> set (run_entries r))"
    by (simp_all add: from_all_runs_def locator_seal_ok)
  have "dom (bt_get (runs (from_all_runs rs))) = dom (bt_get (runs ?l))"
    by (auto simp: from_all_runs_def locator_seal_def bt_get_map_snd dom_def)
  then show "dom (bt_get (runs (from_all_runs rs))) = run_bucket ` set rs" using l(3) by simp
qed

text \<open>A sealed locator is determined by its references and its buckets.\<close>

lemma locator_ext:
  assumes "locator_ok l" "locator_ok l'" "locator_sealed l" "locator_sealed l'"
    and "refs l = refs l'" "dom (bt_get (runs l)) = dom (bt_get (runs l'))"
  shows "l = l'"
proof -
  have "bt_get (runs l) b = bt_get (runs l') b" for b
  proof (cases "bt_get (runs l) b")
    case None
    then show ?thesis using assms(6) by (metis domIff)
  next
    case (Some r)
    then obtain r' where r': "bt_get (runs l') b = Some r'" using assms(6) by (metis domD domI)
    have "set (run_entries r) = set (run_entries r')"
      using assms(5) refs_run_or_new[of b _ l] refs_run_or_new[of b _ l'] Some r' by (simp add: run_or_new_def set_eq_iff)
    moreover have "sealed_run r" "sealed_run r'"
      using assms(3,4) Some r' by (force simp: locator_sealed_def dest: map_of_SomeD)+
    ultimately have "run_entries r = run_entries r'"
      by (simp add: sealed_run_def sorted_distinct_set_unique)
    then show ?thesis using Some r' assms(1,2) by (simp add: locator_okD)
  qed
  then show ?thesis
    using bt_ext[OF locator_okD(1)[OF assms(1)] locator_okD(1)[OF assms(2)]] by (cases l; cases l') (auto simp: fun_eq_iff)
qed

section \<open>Lookups\<close>

lemma sorted_entry_keys: "sorted es \<Longrightarrow> sorted (map (\<lambda>e. (entry_field e, entry_value e)) es)"
proof (induction es)
  case (Cons e es)
  have "(entry_field e, entry_value e) \<le> (entry_field f, entry_value f)" if "e \<le> f" for f
    using that by (auto simp: less_eq_locator_entry_def less_eq_prod_def)
  then show ?case using Cons by auto
qed simp

lemma run_candidates_sealed:
  assumes "sealed_run r"
  shows "run_candidates r field v out
    = out @ map entry_segment (filter (\<lambda>e. (entry_field e, entry_value e) = (field, v)) (run_entries r))"
  using takeWhile_drop_run[OF sorted_entry_keys, of "run_entries r" "(field, v)"] assms
  by (simp add: run_candidates_def sealed_run_def)

lemma foldl_candidates_sealed:
  assumes "\<forall>r \<in> set rs. sealed_run r"
  shows "set (foldl (\<lambda>out r. run_candidates r field v out) out rs)
    = set out \<union> {s. \<exists>r \<in> set rs. Entry field v s \<in> set (run_entries r)}"
  using assms
proof (induction rs arbitrary: out)
  case (Cons r rs)
  have "e = Entry field v (entry_segment e)" if "entry_field e = field" "entry_value e = v" for e
    using that by (cases e) simp
  then have "entry_segment ` {e \<in> set (run_entries r). entry_field e = field \<and> entry_value e = v}
      = {s. Entry field v s \<in> set (run_entries r)}"
    by force
  then show ?case using Cons by (auto simp: run_candidates_sealed)
qed simp

definition covered :: "(int \<times> int) option \<Rightarrow> int \<Rightarrow> bool" where
  "covered within bucket \<longleftrightarrow> in_range (map_option (\<lambda>(start, end). (bucket_of start, end)) within) bucket"

lemma candidates_exact:
  assumes "locator_ok l" "locator_sealed l"
  shows "set (candidates E l column v within)
    = {s. \<exists>bucket. covered within bucket \<and> (bucket, Entry (field_of E column) (fingerprint E v) s) \<in> refs l}"
proof -
  let ?field = "field_of E column" and ?print = "fingerprint E v"
  have "\<forall>r \<in> set (overlapping l within). sealed_run r"
    using assms(2) by (auto simp: overlapping_def locator_sealed_def bt_values_def Let_def)
  then have c: "set (candidates E l column v within)
      = {s. \<exists>r \<in> set (overlapping l within). Entry ?field ?print s \<in> set (run_entries r)}"
    by (simp add: candidates_def Let_def foldl_candidates_sealed)
  have over: "r \<in> set (overlapping l within) \<longleftrightarrow>
      (\<exists>b. (b, r) \<in> set (runs l) \<and> covered within b)" for r
    using locator_okD(3)[OF assms(1)] by (force simp: overlapping_def covered_def bt_values_def Let_def)
  have ref: "(b, e) \<in> refs l \<longleftrightarrow> (\<exists>r. (b, r) \<in> set (runs l) \<and> e \<in> set (run_entries r))" for b e
    using bt_get_eq_Some[OF locator_okD(1)[OF assms(1)]] by (simp add: refs_def)
  show ?thesis unfolding c ref Bex_def over by blast
qed

lemma i64_wrap_id: "- (2 ^ 63) \<le> x \<Longrightarrow> x < 2 ^ 63 \<Longrightarrow> i64_wrap x = x"
  by (simp add: i64_wrap_def)

lemma bucket_of_bounds:
  assumes "- (2 ^ 63) + BUCKET_MS \<le> at" "at < 2 ^ 63"
  shows "bucket_of at \<le> at" "at < bucket_of at + BUCKET_MS" "BUCKET_MS dvd bucket_of at" "bucket_of at = at - at mod BUCKET_MS"
proof -
  have m: "0 \<le> at mod BUCKET_MS" "at mod BUCKET_MS < BUCKET_MS" by (simp_all add: BUCKET_MS_def)
  show b: "bucket_of at = at - at mod BUCKET_MS"
    unfolding bucket_of_def using assms m by (intro i64_wrap_id) linarith+
  show "bucket_of at \<le> at" "at < bucket_of at + BUCKET_MS" using b m by linarith+
  show "BUCKET_MS dvd bucket_of at" unfolding b by (simp add: dvd_minus_mod)
qed

lemma bucket_of_mono:
  assumes "- (2 ^ 63) + BUCKET_MS \<le> a" "a \<le> b" "b < 2 ^ 63"
  shows "bucket_of a \<le> bucket_of b"
proof -
  have "a div BUCKET_MS \<le> b div BUCKET_MS" using assms(2) by (simp add: zdiv_mono1 BUCKET_MS_def)
  then have "a div BUCKET_MS * BUCKET_MS \<le> b div BUCKET_MS * BUCKET_MS" by (simp add: BUCKET_MS_def)
  then show ?thesis using assms by (simp add: bucket_of_bounds(4) minus_mod_eq_div_mult)
qed

lemma covered_bucket:
  assumes "- (2 ^ 63) + BUCKET_MS \<le> start" "start \<le> at" "at < end" "end \<le> 2 ^ 63"
  shows "covered (Some (start, end)) (bucket_of at)"
  using assms bucket_of_mono[of start at] bucket_of_bounds(1)[of at] by (simp add: covered_def in_range_def)

section \<open>Maintenance\<close>

lemma bt_get_filter:
  "bt_ok m \<Longrightarrow> bt_get (filter (\<lambda>(k, v). P v) m) k = (case bt_get m k of None \<Rightarrow> None | Some v \<Rightarrow> if P v then Some v else None)"
proof (induction m)
  case (Cons x m)
  obtain a b where x: "x = (a, b)" by fastforce
  have "bt_get m a = None" using Cons.prems by (fastforce simp: x bt_ok_Cons map_of_eq_None_iff)
  then show ?case using Cons by (auto simp: x bt_ok_Cons)
qed simp

lemma retain_segments_ok:
  assumes "locator_ok l"
  shows "locator_ok (retain_segments l live)" "locator_sealed l \<Longrightarrow> locator_sealed (retain_segments l live)"
    "refs (retain_segments l live) = {(b, e) \<in> refs l. live (entry_segment e)}"
proof -
  let ?m = "map (\<lambda>(b, r). (b, run_retain_segments r live)) (runs l)"
  have m: "bt_ok ?m" using bt_ok_map_snd[of "\<lambda>_ r. run_retain_segments r live" "runs l"] locator_okD(1)[OF assms] by simp
  show "locator_ok (retain_segments l live)"
    using bt_ok_filter[OF m] locator_okD(3)[OF assms]
    by (auto simp: locator_ok_def retain_segments_def Let_def run_retain_segments_def)
  show "locator_sealed l \<Longrightarrow> locator_sealed (retain_segments l live)"
    by (fastforce simp: locator_sealed_def retain_segments_def Let_def run_retain_segments_def sealed_run_def
        intro: sorted_wrt_filter)
  have "bt_get (runs (retain_segments l live)) b = (case bt_get (runs l) b of None \<Rightarrow> None
      | Some r \<Rightarrow> if run_is_empty (run_retain_segments r live) then None else Some (run_retain_segments r live))" for b
    using bt_get_filter[OF m, of "\<lambda>r. \<not> run_is_empty r" b]
    by (auto simp: retain_segments_def Let_def bt_get_map_snd split: option.splits)
  then show "refs (retain_segments l live) = {(b, e) \<in> refs l. live (entry_segment e)}"
    by (fastforce simp: refs_def run_retain_segments_def run_is_empty_def filter_empty_conv split: option.splits if_splits)
qed

lemma disagreements_exact:
  assumes "locator_ok l"
  shows "set (disagreements l live) = {s. \<not> live s \<and> (\<exists>b e. (b, e) \<in> refs l \<and> entry_segment e = s)}"
  using bt_get_eq_Some[OF locator_okD(1)[OF assms]]
  by (force simp: disagreements_def refs_def bt_values_def Let_def)

section \<open>Stored runs\<close>

lemma put_locator_entry_layout:
  "put_locator_entry out e = out @ put_u64 [] (entry_field e) @ put_u64 [] (entry_value e) @ entry_segment e"
  by (simp add: put_locator_entry_def put_u64_def)

lemma put_locator_entry_append: "put_locator_entry out e = out @ put_locator_entry [] e"
  by (simp add: put_locator_entry_layout)

lemma get_put_locator_entry:
  assumes len: "length (entry_segment e) = 16"
  shows "get_locator_entry (put_locator_entry pre e @ rest) (length pre) = Inr (e, length (put_locator_entry pre e))"
proof -
  define f g where "f = put_u64 [] (entry_field e)" and "g = put_u64 [] (entry_value e)"
  let ?bs = "pre @ f @ g @ entry_segment e @ rest"
  have l: "length f = 8" "length g = 8" by (simp_all add: f_def g_def)
  have "slice ?bs (length pre + 16) 16 = Inr (entry_segment e)"
    by (simp add: slice_Inr_conv len l)
  moreover have "get_u64 ?bs (length pre) = Inr (entry_field e)" by (simp add: f_def)
  moreover have "get_u64 ?bs (length pre + 8) = Inr (entry_value e)"
    using get_u64_put[of "length pre + 8" "pre @ f" "entry_value e" "entry_segment e @ rest"] l by (simp add: g_def)
  ultimately show ?thesis
    using len l by (simp add: get_locator_entry_def put_locator_entry_layout f_def[symmetric] g_def[symmetric])
qed

interpretation locator_entry: codec put_locator_entry get_locator_entry "\<lambda>e. length (entry_segment e) = 16"
  by unfold_locales (rule put_locator_entry_append, rule get_put_locator_entry)

lemma length_foldl_put_locator_entry:
  "\<forall>e \<in> set es. length (entry_segment e) = 16 \<Longrightarrow> length (foldl put_locator_entry out es) = length out + length es * 32"
  by (induction es arbitrary: out) (auto simp: put_locator_entry_layout)

definition run_ok :: "locator_run \<Rightarrow> bool" where
  "run_ok r \<longleftrightarrow> - (2 ^ 63) \<le> run_bucket r \<and> run_bucket r < 2 ^ 63 \<and> length (run_entries r) < 2 ^ 32
     \<and> (\<forall>e \<in> set (run_entries r). length (entry_segment e) = 16)"

lemma sint_word_of_int: "- (2 ^ 63) \<le> x \<Longrightarrow> x < 2 ^ 63 \<Longrightarrow> sint (word_of_int x :: i64) = x"
  by (simp add: sint_sbintrunc' signed_take_bit_int_eq_self)

lemma run_decode_encode:
  assumes "run_ok r"
  shows "run_decode (run_encode r @ rest) = Inr r"
proof -
  have n: "unat (word_of_nat (length (run_entries r)) :: u32) = length (run_entries r)"
    using assms by (intro u32_count) (simp add: run_ok_def)
  have ids: "\<forall>e \<in> set (run_entries r). length (entry_segment e) = 16" using assms by (simp add: run_ok_def)
  let ?b = "put_u64 [] (word_of_int (run_bucket r))"
  let ?h = "put_u32 ?b (word_of_nat (length (run_entries r)))"
  let ?w = "foldl put_locator_entry ?h (run_entries r)"
  have h: "?h = ?b @ put_u32 [] (word_of_nat (length (run_entries r)))" by (rule put_append)
  have w: "?w @ rest = ?h @ foldl put_locator_entry [] (run_entries r) @ rest"
    by (subst locator_entry.foldl_put) simp
  have "read_many get_locator_entry (length (run_entries r)) (?w @ rest) (length ?h) = Inr (run_entries r, length ?w)"
    using ids by (rule locator_entry.read_put_many)
  moreover have "slice (?w @ rest) 12 (length (run_entries r) * 32) = Inr (foldl put_locator_entry [] (run_entries r))"
    unfolding w using ids by (intro slice_at) (simp_all add: length_foldl_put_locator_entry)
  moreover have "get_u64 (?w @ rest) 0 = Inr (word_of_int (run_bucket r))"
    using get_u64_put[of 0 "[]"] by (simp only: w) (simp add: h)
  moreover have "get_u32 (?w @ rest) 8 = Inr (word_of_nat (length (run_entries r)))"
    using get_u32_put[of 8 ?b] by (simp only: w) (simp add: h)
  ultimately show ?thesis
    using assms sint_word_of_int[of "run_bucket r"]
    by (simp add: run_decode_def run_encode_def n Let_def run_ok_def)
qed

section \<open>Merging one run at a time\<close>

lemma from_runs_single: "runs (from_runs [r]) = [(run_bucket r, r)]"
  by (simp add: from_runs_def)

lemma dom_merge_single:
  "dom (bt_get (runs (locator_merge l (from_runs [r])))) = insert (run_bucket r) (dom (bt_get (runs l)))"
  by (auto simp: locator_merge_def from_runs_single)

lemma foldl_merge_runs:
  assumes "locator_ok l" "locator_sealed l"
  shows "locator_ok (foldl (\<lambda>l r. locator_merge l (from_runs [r])) l rs)
    \<and> locator_sealed (foldl (\<lambda>l r. locator_merge l (from_runs [r])) l rs)
    \<and> refs (foldl (\<lambda>l r. locator_merge l (from_runs [r])) l rs)
        = refs l \<union> (\<Union>r \<in> set rs. {run_bucket r} \<times> set (run_entries r))
    \<and> dom (bt_get (runs (foldl (\<lambda>l r. locator_merge l (from_runs [r])) l rs)))
        = dom (bt_get (runs l)) \<union> run_bucket ` set rs"
  using assms
proof (induction rs arbitrary: l)
  case (Cons r rs)
  have one: "locator_ok (from_runs [r])" "refs (from_runs [r]) = {run_bucket r} \<times> set (run_entries r)"
    by (auto simp: locator_ok_def from_runs_single refs_def bt_ok_def split: if_splits)
  note m = locator_merge_ok[OF Cons.prems(1) one(1)]
  show ?case
    using Cons.IH[OF m(1) m(3)[OF Cons.prems(2)]] by (auto simp: m(2) one(2) dom_merge_single)
qed simp

section \<open>Properties\<close>

text \<open>C6: The locator never loses a segment. A segment added under a value at a time is
  among the candidates of every lookup of that value whose range contains the time,
  and of the unbounded lookup, after the runs are sealed, whatever other locator was
  merged in, and after a clean-up that keeps the segment.\<close>

theorem locator_finds_segment:
  assumes "locator_ok l" and "locator_ok other" and "live segment"
    and "- (2 ^ 63) + BUCKET_MS \<le> start" and "start \<le> at" and "at < end" and "end \<le> 2 ^ 63"
    and "within = None \<or> within = Some (start, end)"
  shows "segment \<in> set (candidates E
    (retain_segments (locator_merge (locator_seal (locator_add E l column v at segment)) other) live) column v within)"
proof -
  let ?a = "locator_seal (locator_add E l column v at segment)"
  have a: "locator_ok ?a" "locator_sealed ?a"
      "(bucket_of at, Entry (field_of E column) (fingerprint E v) segment) \<in> refs ?a"
    using assms(1) by (simp_all add: locator_seal_ok locator_add_ok refs_add)
  note m = locator_merge_ok[OF a(1) assms(2)]
  note r = retain_segments_ok[OF m(1), of live]
  have "covered within (bucket_of at)"
    using assms(8) covered_bucket[OF assms(4-7)] by (auto simp: covered_def in_range_def)
  then show ?thesis
    using a(3) m(3)[OF a(2)] assms(3) by (auto simp: candidates_exact r m(2))
qed

definition toy_segment :: bytes where
  "toy_segment = replicate 16 9"

theorem locator_finds_segment_witness:
  "toy_segment \<in> set (candidates plain_externs
     (retain_segments (locator_merge (locator_seal (locator_add plain_externs locator_new (lit ''trace_id'') [1] 90000000 toy_segment)) locator_new)
       (\<lambda>s. s = toy_segment)) (lit ''trace_id'') [1] (Some (86500000, 90000001)))"
  using locator_finds_segment[OF locator_new_ok(1) locator_new_ok(1), of "\<lambda>s. s = toy_segment" toy_segment 86500000 90000000 90000001]
  by (simp add: BUCKET_MS_def)

text \<open>C19: A lookup returns exactly the segments with a reference of the same field and
  value fingerprint in a bucket that the range overlaps, each once and in order, so
  a fingerprint collision is the only way a segment is named for nothing.\<close>

theorem locator_candidates_exact:
  assumes "locator_ok l" and "locator_sealed l"
  shows "set (candidates E l column v within)
      = {s. \<exists>bucket. covered within bucket \<and> (bucket, Entry (field_of E column) (fingerprint E v) s) \<in> refs l}
    \<and> sorted (candidates E l column v within) \<and> distinct (candidates E l column v within)"
  using candidates_exact[OF assms] by (simp add: candidates_def Let_def)

theorem locator_candidates_exact_witness:
  "set (candidates plain_externs (locator_seal (locator_add plain_externs locator_new (lit ''a'') [1] 0 toy_segment)) (lit ''a'') [2] None) = {}"
proof -
  let ?l = "locator_seal (locator_add plain_externs locator_new (lit ''a'') [1] 0 toy_segment)"
  have "locator_ok ?l" "locator_sealed ?l" by (simp_all add: locator_seal_ok locator_add_ok)
  from locator_candidates_exact[OF this, of plain_externs "lit ''a''" "[2]" None] show ?thesis
    by (simp add: locator_seal_ok refs_add fingerprint_def plain_externs_def)
qed

text \<open>Combining all stored runs with one sort for each bucket gives the same locator
  as merging them one at a time.\<close>

theorem from_all_runs_is_merging:
  "from_all_runs rs = foldl (\<lambda>l r. locator_merge l (from_runs [r])) locator_new rs"
  using foldl_merge_runs[of locator_new rs] from_all_runs_ok[of rs]
  by (intro locator_ext) (simp_all add: locator_new_def[THEN arg_cong[where f = runs]])

text \<open>A run reads back from its stored form, whatever bytes follow it.\<close>

theorem locator_run_round_trip:
  assumes "run_ok r"
  shows "run_decode (run_encode r @ rest) = Inr r"
  using run_decode_encode[OF assms] .

theorem locator_run_round_trip_witness:
  "run_decode (run_encode \<lparr>run_bucket = - 86400000, run_entries = [Entry 1 2 toy_segment]\<rparr> @ [5])
     = Inr \<lparr>run_bucket = - 86400000, run_entries = [Entry 1 2 toy_segment]\<rparr>"
  by (rule locator_run_round_trip) (simp add: run_ok_def toy_segment_def)

text \<open>After a clean-up the locator and the segments agree: no reference is left to a
  segment that no longer exists and every reference to a live one is kept.\<close>

theorem retained_locator_agrees:
  assumes "locator_ok l"
  shows "disagreements (retain_segments l live) live = []
    \<and> refs (retain_segments l live) = {(b, e) \<in> refs l. live (entry_segment e)}
    \<and> locator_ok (retain_segments l live)"
proof -
  have "set (disagreements (retain_segments l live) live) = {}"
    by (auto simp: disagreements_exact retain_segments_ok[OF assms])
  then show ?thesis by (simp add: retain_segments_ok[OF assms])
qed

theorem retained_locator_agrees_witness:
  "disagreements (retain_segments (locator_add plain_externs locator_new (lit ''a'') [1] 0 toy_segment) (\<lambda>_. False)) (\<lambda>_. False) = []"
  using retained_locator_agrees[OF locator_add_ok[OF locator_new_ok(1)]] by blast

text \<open>Within one day of the smallest \<open>i64\<close> the bucket wraps around to the far
  future, so a range that starts there covers no bucket of any ordinary time.\<close>

theorem bucket_of_wraps:
  "bucket_of (- (2 ^ 63)) > 0 \<and> \<not> covered (Some (- (2 ^ 63), 1000)) (bucket_of 0)"
  by (simp add: bucket_of_def i64_wrap_def BUCKET_MS_def covered_def in_range_def)

end
