(* ===== verification/Topology.thy ===== *)
theory Topology
  imports Prelude
begin

text \<open>
  The cluster's placement map, \<^verbatim>\<open>tallyowl-cluster/src/topology.rs\<close>: nodes, cells, tablets
  and the commands of the controller group that change them.

  One definition models each arm of \<open>apply_inner\<close>. An arm returns the changed
  map and whether it counts as a change, or an error; every error of the source is
  returned before the map is touched. A message is a constructor that names its
  place in the source and carries what the text interpolates; audit records hold
  their text. Names are strings; generations, epochs, shards and byte counts are
  natural numbers, times are integers: none of them is ever brought near its limit
  by the code.
\<close>

type_synonym name = string

definition VIRTUAL_SHARDS :: nat where
  "VIRTUAL_SHARDS = 4096"

section \<open>Data\<close>

datatype member_role = Voter | Learner

record member =
  m_node :: name
  m_role :: member_role
  m_address :: string
  m_region :: name
  m_domain :: name

definition voter_member :: "name \<Rightarrow> string \<Rightarrow> member" where
  "voter_member node address =
     \<lparr>m_node = node, m_role = Voter, m_address = address, m_region = ''home'', m_domain = ''default''\<rparr>"

definition learner_member :: "name \<Rightarrow> string \<Rightarrow> member" where
  "learner_member node address = (voter_member node address)\<lparr>m_role := Learner\<rparr>"

definition member_in_region :: "member \<Rightarrow> name \<Rightarrow> member" where
  "member_in_region m region = m\<lparr>m_region := region\<rparr>"

definition member_in_domain :: "member \<Rightarrow> name \<Rightarrow> member" where
  "member_in_domain m domain = m\<lparr>m_domain := domain\<rparr>"

datatype tablet_state = Active | Splitting | Merging | Moving | Draining | Retired

datatype receipt_policy = LocalOne | LocalQuorum | RemoteOne

fun policy_as_str :: "receipt_policy \<Rightarrow> string" where
  "policy_as_str LocalOne = ''local-one''"
| "policy_as_str LocalQuorum = ''local-quorum''"
| "policy_as_str RemoteOne = ''remote-one''"

definition policy_parse :: "string \<Rightarrow> receipt_policy option" where
  "policy_parse t =
     (if t = ''local-one'' then Some LocalOne
      else if t = ''local-quorum'' then Some LocalQuorum
      else if t = ''remote-one'' then Some RemoteOne
      else None)"

record degraded_mark =
  d_since :: int
  d_range_start :: int
  d_range_end :: int
  d_survivor_watermark :: nat
  d_reason :: string
  d_audit_id :: string

record tablet =
  t_name :: name
  t_cell :: name
  t_write_region :: name
  t_epoch :: nat
  t_state :: tablet_state
  t_shard_start :: nat
  t_shard_end :: nat
  t_members :: "member list"
  t_receipt_policy :: receipt_policy
  t_degraded :: "degraded_mark option"

definition is_voter :: "member \<Rightarrow> bool" where
  "is_voter m \<longleftrightarrow> m_role m = Voter"

definition voters :: "tablet \<Rightarrow> member list" where
  "voters t = filter is_voter (t_members t)"

definition voter_count :: "tablet \<Rightarrow> nat" where
  "voter_count t = length (voters t)"

definition member_of :: "tablet \<Rightarrow> name \<Rightarrow> member option" where
  "member_of t node = find (\<lambda>m. m_node m = node) (t_members t)"

definition owns :: "tablet \<Rightarrow> nat \<Rightarrow> bool" where
  "owns t shard \<longleftrightarrow> t_shard_start t \<le> shard \<and> shard < t_shard_end t"

fun state_writable :: "tablet_state \<Rightarrow> bool" where
  "state_writable Active = True"
| "state_writable Splitting = True"
| "state_writable Merging = True"
| "state_writable Moving = True"
| "state_writable _ = False"

definition writable :: "tablet \<Rightarrow> bool" where
  "writable t \<longleftrightarrow> state_writable (t_state t)"

definition quorum :: "tablet \<Rightarrow> nat" where
  "quorum t = voter_count t div 2 + 1"

record cell =
  c_name :: name
  c_region :: name
  c_controllers :: "member list"

datatype node_state = Healthy | Slow | Unreachable | ReadOnly | NodeDraining

fun node_state_as_str :: "node_state \<Rightarrow> string" where
  "node_state_as_str Healthy = ''healthy''"
| "node_state_as_str Slow = ''slow''"
| "node_state_as_str Unreachable = ''unreachable''"
| "node_state_as_str ReadOnly = ''read-only''"
| "node_state_as_str NodeDraining = ''draining''"

record node =
  n_name :: name
  n_address :: string
  n_region :: name
  n_domain :: name
  n_state :: node_state
  n_cause :: "string option"
  n_since :: int
  n_writable :: bool
  n_free_bytes :: nat

datatype topology_message =
    NoNodeNamed name
  | NoTabletNamed name
  | EmptyRange name nat nat
  | TabletExists name
  | ShardsBelongTo nat nat name
  | NoVoterLeft name name
  | DoesNotHold name name
  | CannotSplit name nat nat nat
  | NotAdjacent name name nat nat
  | HeldByDifferentNodes name name
  | NoReplicaIn name name
  | LocalOneNeedsOneVoter name nat

datatype topology_error =
    NotFound topology_message
  | Refused topology_message
  | AlreadyDone topology_message

datatype controller_command =
    RegisterNode name string name name
  | SetNodeCondition name node_state "string option" int bool nat
  | RegisterCell name name "member list"
  | CreateTablet name name name nat nat "member list" receipt_policy
  | AddReplica name member
  | RemoveReplica name name
  | MoveReplica name name member
  | SetTabletState name tablet_state
  | SplitTablet name nat name
  | MergeTablets name name
  | SetReceiptPolicy name receipt_policy
  | FailOverRegion name name
  | MarkDegraded name degraded_mark
  | ClearDegraded name string string int

record audit_record =
  a_audit_id :: string
  a_at :: int
  a_what :: string
  a_detail :: string

record topology =
  generation :: nat
  cells :: "(name, cell) btree"
  tablets :: "(name, tablet) btree"
  nodes :: "(name, node) btree"
  audit :: "audit_record list"

definition topology_new :: topology where
  "topology_new = \<lparr>generation = 0, cells = [], tablets = [], nodes = [], audit = []\<rparr>"

section \<open>Queries\<close>

definition tablet_named :: "topology \<Rightarrow> name \<Rightarrow> tablet option" where
  "tablet_named tp n = bt_get (tablets tp) n"

fun owner_among :: "tablet list \<Rightarrow> nat \<Rightarrow> tablet option \<Rightarrow> tablet option" where
  "owner_among [] shard draining = draining"
| "owner_among (t # ts) shard draining =
     (if t_state t = Retired \<or> \<not> owns t shard then owner_among ts shard draining
      else if writable t then Some t
      else owner_among ts shard (Some t))"

definition owner_of :: "topology \<Rightarrow> nat \<Rightarrow> tablet option" where
  "owner_of tp shard = owner_among (bt_values (tablets tp)) shard None"

definition readable_tablets :: "topology \<Rightarrow> tablet list" where
  "readable_tablets tp = filter (\<lambda>t. t_state t \<noteq> Retired) (bt_values (tablets tp))"

section \<open>Commands\<close>

type_synonym 'a outcome = "topology_error + 'a"

definition check_policy :: "receipt_policy \<Rightarrow> nat \<Rightarrow> name \<Rightarrow> unit outcome" where
  "check_policy policy n tab =
     (if policy = LocalOne \<and> 1 < n then Inl (Refused (LocalOneNeedsOneVoter tab n)) else Inr ())"

definition tablet_mut :: "topology \<Rightarrow> name \<Rightarrow> tablet outcome" where
  "tablet_mut tp n = ok_or (bt_get (tablets tp) n) (NotFound (NoTabletNamed n))"

definition put_tablet :: "topology \<Rightarrow> name \<Rightarrow> tablet \<Rightarrow> topology" where
  "put_tablet tp n t = tp\<lparr>tablets := bt_insert n t (tablets tp)\<rparr>"

definition put_node :: "topology \<Rightarrow> name \<Rightarrow> node \<Rightarrow> topology" where
  "put_node tp n v = tp\<lparr>nodes := bt_insert n v (nodes tp)\<rparr>"

definition register_node :: "topology \<Rightarrow> name \<Rightarrow> string \<Rightarrow> name \<Rightarrow> name \<Rightarrow> (topology \<times> bool) outcome" where
  "register_node tp node address region domain =
     (let fresh = \<lparr>n_name = node, n_address = address, n_region = region, n_domain = domain,
            n_state = Healthy, n_cause = None, n_since = 0, n_writable = True, n_free_bytes = 0\<rparr>
      in case bt_get (nodes tp) node of
           Some existing \<Rightarrow>
             if n_address existing = address \<and> n_region existing = region \<and> n_domain existing = domain
             then Inr (tp, False)
             else Inr (put_node tp node
                    (existing\<lparr>n_address := address, n_region := region, n_domain := domain\<rparr>), True)
         | None \<Rightarrow> Inr (put_node tp node fresh, True))"

definition set_node_condition ::
  "topology \<Rightarrow> name \<Rightarrow> node_state \<Rightarrow> string option \<Rightarrow> int \<Rightarrow> bool \<Rightarrow> nat \<Rightarrow> (topology \<times> bool) outcome" where
  "set_node_condition tp node state cause at wr free =
     and_then (ok_or (bt_get (nodes tp) node) (NotFound (NoNodeNamed node))) (\<lambda>existing.
       if n_state existing = state \<and> n_cause existing = cause \<and> n_writable existing = wr
          \<and> n_free_bytes existing = free
       then Inr (tp, False)
       else let existing = (if n_state existing \<noteq> state then existing\<lparr>n_since := at\<rparr> else existing)
            in Inr (put_node tp node
                 (existing\<lparr>n_state := state, n_cause := cause, n_writable := wr, n_free_bytes := free\<rparr>), True))"

definition register_cell :: "topology \<Rightarrow> name \<Rightarrow> name \<Rightarrow> member list \<Rightarrow> (topology \<times> bool) outcome" where
  "register_cell tp cl region controllers =
     (let fresh = \<lparr>c_name = cl, c_region = region, c_controllers = controllers\<rparr>
      in if bt_get (cells tp) cl = Some fresh then Inr (tp, False)
         else Inr (tp\<lparr>cells := bt_insert cl fresh (cells tp)\<rparr>, True))"

definition create_tablet ::
  "topology \<Rightarrow> name \<Rightarrow> name \<Rightarrow> name \<Rightarrow> nat \<Rightarrow> nat \<Rightarrow> member list \<Rightarrow> receipt_policy \<Rightarrow> (topology \<times> bool) outcome" where
  "create_tablet tp tab cl region shard_start shard_end members policy =
     (if shard_end \<le> shard_start then Inl (Refused (EmptyRange tab shard_start shard_end))
      else if bt_get (tablets tp) tab \<noteq> None then Inl (AlreadyDone (TabletExists tab))
      else case find (\<lambda>t. t_state t \<noteq> Retired \<and> t_shard_start t < shard_end \<and> shard_start < t_shard_end t)
                  (bt_values (tablets tp)) of
          Some other \<Rightarrow> Inl (Refused (ShardsBelongTo shard_start shard_end (t_name other)))
        | None \<Rightarrow>
            and_then (check_policy policy (length (filter is_voter members)) tab) (\<lambda>_.
              Inr (put_tablet tp tab
                \<lparr>t_name = tab, t_cell = cl, t_write_region = region, t_epoch = 1, t_state = Active,
                 t_shard_start = shard_start, t_shard_end = shard_end, t_members = members,
                 t_receipt_policy = policy, t_degraded = None\<rparr>, True)))"

definition add_replica :: "topology \<Rightarrow> name \<Rightarrow> member \<Rightarrow> (topology \<times> bool) outcome" where
  "add_replica tp tab m =
     and_then (tablet_mut tp tab) (\<lambda>found.
       if member_of found (m_node m) = Some m then Inr (tp, False)
       else let kept = filter (\<lambda>x. m_node x \<noteq> m_node m) (t_members found)
            in Inr (put_tablet tp tab (found\<lparr>t_members := kept @ [m]\<rparr>), True))"

definition remove_replica :: "topology \<Rightarrow> name \<Rightarrow> name \<Rightarrow> (topology \<times> bool) outcome" where
  "remove_replica tp tab node =
     and_then (tablet_mut tp tab) (\<lambda>found.
       case member_of found node of
         None \<Rightarrow> Inr (tp, False)
       | Some leaving \<Rightarrow>
           and_then
             (if m_role leaving = Voter then
                let after = voter_count found - 1
                in if after = 0 then Inl (Refused (NoVoterLeft node tab))
                   else check_policy (t_receipt_policy found) after tab
              else Inr ())
             (\<lambda>_. Inr (put_tablet tp tab
                (found\<lparr>t_members := filter (\<lambda>x. m_node x \<noteq> node) (t_members found)\<rparr>), True)))"

definition move_replica :: "topology \<Rightarrow> name \<Rightarrow> name \<Rightarrow> member \<Rightarrow> (topology \<times> bool) outcome" where
  "move_replica tp tab away_from onto =
     and_then (tablet_mut tp tab) (\<lambda>found.
       if member_of found away_from = None then
         if member_of found (m_node onto) \<noteq> None then Inr (tp, False)
         else Inl (NotFound (DoesNotHold away_from tab))
       else let kept = filter (\<lambda>x. m_node x \<noteq> away_from) (t_members found);
                kept = filter (\<lambda>x. m_node x \<noteq> m_node onto) kept
            in Inr (put_tablet tp tab (found\<lparr>t_members := kept @ [onto]\<rparr>), True))"

definition set_tablet_state :: "topology \<Rightarrow> name \<Rightarrow> tablet_state \<Rightarrow> (topology \<times> bool) outcome" where
  "set_tablet_state tp tab state =
     and_then (tablet_mut tp tab) (\<lambda>found.
       if t_state found = state then Inr (tp, False)
       else Inr (put_tablet tp tab (found\<lparr>t_state := state\<rparr>), True))"

definition split_tablet :: "topology \<Rightarrow> name \<Rightarrow> nat \<Rightarrow> name \<Rightarrow> (topology \<times> bool) outcome" where
  "split_tablet tp tab at_shard right =
     (if bt_get (tablets tp) right \<noteq> None then Inl (AlreadyDone (TabletExists right))
      else and_then (tablet_mut tp tab) (\<lambda>parent.
        if at_shard \<le> t_shard_start parent \<or> t_shard_end parent \<le> at_shard
        then Inl (Refused (CannotSplit tab (t_shard_start parent) (t_shard_end parent) at_shard))
        else let child = parent\<lparr>t_name := right, t_shard_start := at_shard, t_state := Active\<rparr>;
                 parent = parent\<lparr>t_shard_end := at_shard, t_state := Active\<rparr>
             in Inr (put_tablet (put_tablet tp tab parent) right child, True)))"

definition merge_tablets :: "topology \<Rightarrow> name \<Rightarrow> name \<Rightarrow> (topology \<times> bool) outcome" where
  "merge_tablets tp left right =
     and_then (ok_or (tablet_named tp right) (NotFound (NoTabletNamed right))) (\<lambda>r.
     and_then (ok_or (tablet_named tp left) (NotFound (NoTabletNamed left))) (\<lambda>l.
       if t_shard_end l \<noteq> t_shard_start r
       then Inl (Refused (NotAdjacent left right (t_shard_end l) (t_shard_start r)))
       else if map m_node (t_members l) \<noteq> map m_node (t_members r)
       then Inl (Refused (HeldByDifferentNodes left right))
       else let merged = l\<lparr>t_shard_end := t_shard_end r\<rparr>;
                merged = (if t_degraded merged = None then merged\<lparr>t_degraded := t_degraded r\<rparr> else merged);
                tp = put_tablet tp left merged
            in Inr (tp\<lparr>tablets := bt_remove right (tablets tp)\<rparr>, True)))"

definition set_receipt_policy :: "topology \<Rightarrow> name \<Rightarrow> receipt_policy \<Rightarrow> (topology \<times> bool) outcome" where
  "set_receipt_policy tp tab policy =
     and_then (tablet_mut tp tab) (\<lambda>found.
       if t_receipt_policy found = policy then Inr (tp, False)
       else and_then (check_policy policy (voter_count found) tab) (\<lambda>_.
              Inr (put_tablet tp tab (found\<lparr>t_receipt_policy := policy\<rparr>), True)))"

definition fail_over_region :: "topology \<Rightarrow> name \<Rightarrow> name \<Rightarrow> (topology \<times> bool) outcome" where
  "fail_over_region tp tab onto_region =
     and_then (tablet_mut tp tab) (\<lambda>found.
       if t_write_region found = onto_region then Inr (tp, False)
       else if \<not> list_ex (\<lambda>m. m_region m = onto_region) (t_members found)
       then Inl (Refused (NoReplicaIn tab onto_region))
       else Inr (put_tablet tp tab (found\<lparr>t_write_region := onto_region, t_epoch := t_epoch found + 1\<rparr>), True))"

definition push_audit :: "topology \<Rightarrow> audit_record \<Rightarrow> topology" where
  "push_audit tp a =
     (if list_ex (\<lambda>b. a_audit_id b = a_audit_id a) (audit tp) then tp
      else tp\<lparr>audit := audit tp @ [a]\<rparr>)"

definition mark_degraded :: "topology \<Rightarrow> name \<Rightarrow> degraded_mark \<Rightarrow> (topology \<times> bool) outcome" where
  "mark_degraded tp tab mark =
     and_then (tablet_mut tp tab) (\<lambda>found.
       if t_degraded found = Some mark then Inr (tp, False)
       else let tp = put_tablet tp tab (found\<lparr>t_degraded := Some mark\<rparr>)
            in Inr (push_audit tp
                 \<lparr>a_audit_id = d_audit_id mark, a_at = d_since mark,
                  a_what = ''unsafe recovery of `'' @ tab @ ''`'',
                  a_detail = ''The survivor held watermark '' @ show_nat (d_survivor_watermark mark)
                    @ ''. Writes the lost voters committed past it are gone. Reason: '' @ d_reason mark\<rparr>, True))"

definition clear_degraded :: "topology \<Rightarrow> name \<Rightarrow> string \<Rightarrow> string \<Rightarrow> int \<Rightarrow> (topology \<times> bool) outcome" where
  "clear_degraded tp tab accepted_by reason at =
     and_then (tablet_mut tp tab) (\<lambda>found.
       if t_degraded found = None then Inr (tp, False)
       else let tp = put_tablet tp tab (found\<lparr>t_degraded := None\<rparr>)
            in Inr (push_audit tp
                 \<lparr>a_audit_id = ''cleared-'' @ tab @ ''-'' @ show_int at, a_at = at,
                  a_what = ''degraded mark cleared on `'' @ tab @ ''`'',
                  a_detail = accepted_by @ '' accepted the loss. Reason: '' @ reason\<rparr>, True))"

fun apply_inner :: "topology \<Rightarrow> controller_command \<Rightarrow> (topology \<times> bool) outcome" where
  "apply_inner tp (RegisterNode node address region domain) = register_node tp node address region domain"
| "apply_inner tp (SetNodeCondition node state cause at wr free) = set_node_condition tp node state cause at wr free"
| "apply_inner tp (RegisterCell cl region controllers) = register_cell tp cl region controllers"
| "apply_inner tp (CreateTablet tab cl region s e members policy) = create_tablet tp tab cl region s e members policy"
| "apply_inner tp (AddReplica tab m) = add_replica tp tab m"
| "apply_inner tp (RemoveReplica tab node) = remove_replica tp tab node"
| "apply_inner tp (MoveReplica tab away_from onto) = move_replica tp tab away_from onto"
| "apply_inner tp (SetTabletState tab state) = set_tablet_state tp tab state"
| "apply_inner tp (SplitTablet tab at_shard right) = split_tablet tp tab at_shard right"
| "apply_inner tp (MergeTablets left right) = merge_tablets tp left right"
| "apply_inner tp (SetReceiptPolicy tab policy) = set_receipt_policy tp tab policy"
| "apply_inner tp (FailOverRegion tab onto_region) = fail_over_region tp tab onto_region"
| "apply_inner tp (MarkDegraded tab mark) = mark_degraded tp tab mark"
| "apply_inner tp (ClearDegraded tab accepted_by reason at) = clear_degraded tp tab accepted_by reason at"

definition apply_command :: "topology \<Rightarrow> controller_command \<Rightarrow> topology \<times> (topology_error + nat)" where
  "apply_command tp command =
     (case apply_inner tp command of
        Inl e \<Rightarrow> (tp, Inl e)
      | Inr (tp, changed) \<Rightarrow>
          let tp = (if changed then tp\<lparr>generation := generation tp + 1\<rparr> else tp)
          in (tp, Inr (generation tp)))"

section \<open>Well-formedness\<close>

abbreviation tab_at :: "topology \<Rightarrow> name \<Rightarrow> tablet option" where
  "tab_at tp n \<equiv> bt_get (tablets tp) n"

definition tablet_ok :: "name \<Rightarrow> tablet \<Rightarrow> bool" where
  "tablet_ok n t \<longleftrightarrow> t_name t = n \<and> t_shard_start t < t_shard_end t"

definition topology_ok :: "topology \<Rightarrow> bool" where
  "topology_ok tp \<longleftrightarrow> bt_ok (tablets tp) \<and> bt_ok (nodes tp) \<and> bt_ok (cells tp)
     \<and> (\<forall>n t. tab_at tp n = Some t \<longrightarrow> tablet_ok n t)
     \<and> (\<forall>n v. bt_get (nodes tp) n = Some v \<longrightarrow> n_name v = n)
     \<and> (\<forall>n v. bt_get (cells tp) n = Some v \<longrightarrow> c_name v = n)"

definition live :: "tablet \<Rightarrow> bool" where
  "live t \<longleftrightarrow> t_state t \<noteq> Retired"

definition disjoint_ranges :: "tablet \<Rightarrow> tablet \<Rightarrow> bool" where
  "disjoint_ranges a b \<longleftrightarrow> t_shard_end a \<le> t_shard_start b \<or> t_shard_end b \<le> t_shard_start a"

definition one_owner :: "topology \<Rightarrow> bool" where
  "one_owner tp \<longleftrightarrow> (\<forall>m n s t. tab_at tp m = Some s \<longrightarrow> tab_at tp n = Some t \<longrightarrow> m \<noteq> n \<longrightarrow>
     live s \<longrightarrow> live t \<longrightarrow> disjoint_ranges s t)"

lemma tablet_mut_Inr [simp]: "tablet_mut tp n = Inr t \<longleftrightarrow> tab_at tp n = Some t"
  by (simp add: tablet_mut_def result_convs)

lemma put_simps [simp]:
  "tab_at (put_tablet tp n t) = (bt_get (tablets tp))(n \<mapsto> t)"
  "nodes (put_tablet tp n t) = nodes tp" "cells (put_tablet tp n t) = cells tp"
  "generation (put_tablet tp n t) = generation tp" "audit (put_tablet tp n t) = audit tp"
  "tablets (put_node tp n v) = tablets tp" "cells (put_node tp n v) = cells tp"
  "bt_get (nodes (put_node tp n v)) = (bt_get (nodes tp))(n \<mapsto> v)"
  "generation (put_node tp n v) = generation tp" "audit (put_node tp n v) = audit tp"
  by (simp_all add: put_tablet_def put_node_def fun_eq_iff)

lemma push_audit_simps [simp]:
  "tablets (push_audit tp a) = tablets tp" "nodes (push_audit tp a) = nodes tp" "cells (push_audit tp a) = cells tp"
  "generation (push_audit tp a) = generation tp"
  by (simp_all add: push_audit_def)

lemma put_tablet_ok: "topology_ok tp \<Longrightarrow> tablet_ok n t \<Longrightarrow> topology_ok (put_tablet tp n t)"
  by (auto simp: topology_ok_def put_tablet_def)

lemma put_node_ok: "topology_ok tp \<Longrightarrow> n_name v = n \<Longrightarrow> topology_ok (put_node tp n v)"
  by (auto simp: topology_ok_def put_node_def)

lemma push_audit_ok [simp]: "topology_ok (push_audit tp a) = topology_ok tp"
  by (simp add: topology_ok_def)

lemma topology_okD: "topology_ok tp \<Longrightarrow> tab_at tp n = Some t \<Longrightarrow> tablet_ok n t"
  by (simp add: topology_ok_def)

lemma find_None: "find P xs = None \<longleftrightarrow> (\<forall>x \<in> set xs. \<not> P x)"
  by (auto simp: find_None_iff)

lemma create_tablet_effect:
  assumes "create_tablet tp tab cl region s e members policy = Inr (tp', changed)"
  obtains t where "tp' = put_tablet tp tab t" "tab_at tp tab = None" "changed" "tablet_ok tab t"
    "t_members t = members" "t_receipt_policy t = policy" "\<not> (policy = LocalOne \<and> 1 < length (filter is_voter members))"
    "\<And>n u. tab_at tp n = Some u \<Longrightarrow> live u \<Longrightarrow> disjoint_ranges u t"
    "t_state t = Active" "t_shard_start t = s" "t_shard_end t = e"
proof -
  let ?t = "\<lparr>t_name = tab, t_cell = cl, t_write_region = region, t_epoch = 1, t_state = Active,
       t_shard_start = s, t_shard_end = e, t_members = members, t_receipt_policy = policy, t_degraded = None\<rparr>"
  have *: "s < e" "tab_at tp tab = None" "tp' = put_tablet tp tab ?t" changed
      "find (\<lambda>t. t_state t \<noteq> Retired \<and> t_shard_start t < e \<and> s < t_shard_end t) (bt_values (tablets tp)) = None"
      "\<not> (policy = LocalOne \<and> 1 < length (filter is_voter members))"
    using assms by (auto simp: create_tablet_def check_policy_def result_convs split: if_splits option.splits)
  have "disjoint_ranges u ?t" if "tab_at tp n = Some u" "live u" for n u
    using that *(5) map_of_SomeD[OF that(1)]
    by (force simp: find_None bt_values_def live_def disjoint_ranges_def)
  with * show thesis using that[of ?t] by (simp add: tablet_ok_def)
qed

text \<open>
  Every other command on a tablet that exists keeps its name, its range and its
  state, apart from the four that place tablets.
\<close>

definition same_place :: "tablet \<Rightarrow> tablet \<Rightarrow> bool" where
  "same_place a b \<longleftrightarrow> t_name a = t_name b \<and> t_shard_start a = t_shard_start b
     \<and> t_shard_end a = t_shard_end b \<and> t_state a = t_state b"

fun places :: "controller_command \<Rightarrow> bool" where
  "places (CreateTablet _ _ _ _ _ _ _) = True"
| "places (SetTabletState _ _) = True"
| "places (SplitTablet _ _ _) = True"
| "places (MergeTablets _ _) = True"
| "places _ = False"

lemma same_place_refl [simp]: "same_place t t"
  by (simp add: same_place_def)

lemma rel_same_place_refl [simp]: "rel_option same_place x x"
  by (cases x) simp_all

lemma keeps_place:
  assumes "apply_inner tp c = Inr (tp', changed)" "\<not> places c"
  shows "rel_option same_place (tab_at tp n) (tab_at tp' n)"
  using assms
  by (cases c)
    (auto simp: register_node_def set_node_condition_def register_cell_def add_replica_def remove_replica_def
      move_replica_def set_receipt_policy_def fail_over_region_def mark_degraded_def clear_degraded_def
      result_convs Let_def same_place_def split: if_splits option.splits)

lemma set_tablet_state_effect:
  assumes "set_tablet_state tp tab state = Inr (tp', changed)"
  obtains t where "tab_at tp tab = Some t" "tp' = (if changed then put_tablet tp tab (t\<lparr>t_state := state\<rparr>) else tp)"
    "changed \<longleftrightarrow> t_state t \<noteq> state"
  using assms by (auto simp: set_tablet_state_def result_convs split: if_splits)

lemma split_tablet_effect:
  assumes "split_tablet tp tab at_shard right = Inr (tp', changed)"
  obtains t where "tab_at tp tab = Some t" "tab_at tp right = None" "tab \<noteq> right" changed
    "t_shard_start t < at_shard" "at_shard < t_shard_end t"
    "tp' = put_tablet (put_tablet tp tab (t\<lparr>t_shard_end := at_shard, t_state := Active\<rparr>)) right
       (t\<lparr>t_name := right, t_shard_start := at_shard, t_state := Active\<rparr>)"
  using assms by (cases "tab = right") (auto simp: split_tablet_def result_convs Let_def split: if_splits)

lemma merge_tablets_effect:
  assumes "merge_tablets tp left right = Inr (tp', changed)"
  obtains l r d where "tab_at tp left = Some l" "tab_at tp right = Some r" changed
    "t_shard_end l = t_shard_start r" "map m_node (t_members l) = map m_node (t_members r)"
    "d = (if t_degraded l = None then t_degraded r else t_degraded l)"
    "tp' = (put_tablet tp left (l\<lparr>t_shard_end := t_shard_end r, t_degraded := d\<rparr>))
       \<lparr>tablets := bt_remove right (tablets (put_tablet tp left (l\<lparr>t_shard_end := t_shard_end r, t_degraded := d\<rparr>)))\<rparr>"
proof -
  from assms obtain l r where lr: "tab_at tp left = Some l" "tab_at tp right = Some r"
    by (auto simp: merge_tablets_def tablet_named_def result_convs)
  let ?d = "if t_degraded l = None then t_degraded r else t_degraded l"
  have "(if t_degraded l = None then l\<lparr>t_shard_end := t_shard_end r, t_degraded := t_degraded r\<rparr>
      else l\<lparr>t_shard_end := t_shard_end r\<rparr>) = l\<lparr>t_shard_end := t_shard_end r, t_degraded := ?d\<rparr>"
    by simp
  then show thesis
    using assms lr that[of l r ?d] by (simp add: merge_tablets_def tablet_named_def Let_def split: if_splits)
qed

lemma remove_tablet_ok: "topology_ok tp \<Longrightarrow> topology_ok (tp\<lparr>tablets := bt_remove n (tablets tp)\<rparr>)"
  by (auto simp: topology_ok_def split: if_splits)

lemma apply_inner_ok:
  assumes ok: "topology_ok tp" and "apply_inner tp c = Inr (tp', changed)"
  shows "topology_ok tp'"
proof (cases "places c")
  case True
  then show ?thesis
  proof (cases c rule: places.cases)
    case (1 tab cl region s e members policy)
    then show ?thesis using assms create_tablet_effect put_tablet_ok by (metis apply_inner.simps(4))
  next
    case (2 tab state)
    then show ?thesis
      using assms topology_okD[OF ok] by (auto elim!: set_tablet_state_effect intro!: put_tablet_ok simp: tablet_ok_def)
  next
    case (3 tab at_shard right)
    then show ?thesis
      using assms topology_okD[OF ok] by (auto elim!: split_tablet_effect intro!: put_tablet_ok simp: tablet_ok_def)
  next
    case (4 left right)
    then have "merge_tablets tp left right = Inr (tp', changed)" using assms by simp
    then show ?thesis
    proof (rule merge_tablets_effect)
      fix l r d
      assume "tab_at tp left = Some l" "tab_at tp right = Some r" "t_shard_end l = t_shard_start r"
        "tp' = (put_tablet tp left (l\<lparr>t_shard_end := t_shard_end r, t_degraded := d\<rparr>))
          \<lparr>tablets := bt_remove right (tablets (put_tablet tp left (l\<lparr>t_shard_end := t_shard_end r, t_degraded := d\<rparr>)))\<rparr>"
      then show ?thesis
        using topology_okD[OF ok, of left l] topology_okD[OF ok, of right r]
        by (simp add: remove_tablet_ok put_tablet_ok ok tablet_ok_def)
    qed
  qed simp_all
next
  case False
  have "tablet_ok n t'" if "tab_at tp' n = Some t'" for n t'
    using keeps_place[OF assms(2) False, of n] topology_okD[OF ok, of n] that
    by (auto simp: option_rel_Some2 same_place_def tablet_ok_def)
  moreover have "bt_ok (tablets tp') \<and> bt_ok (nodes tp') \<and> bt_ok (cells tp')
     \<and> (\<forall>n v. bt_get (nodes tp') n = Some v \<longrightarrow> n_name v = n)
     \<and> (\<forall>n v. bt_get (cells tp') n = Some v \<longrightarrow> c_name v = n)"
    using assms False
    by (cases c)
      (auto simp: topology_ok_def register_node_def set_node_condition_def register_cell_def add_replica_def
        remove_replica_def move_replica_def set_receipt_policy_def fail_over_region_def mark_degraded_def
        clear_degraded_def result_convs Let_def put_tablet_def put_node_def split: if_splits option.splits)
  ultimately show ?thesis by (simp add: topology_ok_def)
qed

section \<open>One owner for each shard\<close>

text \<open>The commands that can bring a retired tablet's range back are excluded.\<close>

fun revives :: "topology \<Rightarrow> controller_command \<Rightarrow> bool" where
  "revives tp (SetTabletState tab state) =
     (\<exists>t. tab_at tp tab = Some t \<and> t_state t = Retired \<and> state \<noteq> Retired)"
| "revives tp (SplitTablet tab at_shard right) = (\<exists>t. tab_at tp tab = Some t \<and> t_state t = Retired)"
| "revives tp (MergeTablets left right) =
     (\<exists>l r. tab_at tp left = Some l \<and> tab_at tp right = Some r \<and> t_state r = Retired \<and> t_state l \<noteq> Retired)"
| "revives tp _ = False"

lemma one_ownerD:
  "one_owner tp \<Longrightarrow> tab_at tp m = Some s \<Longrightarrow> tab_at tp n = Some t \<Longrightarrow> m \<noteq> n \<Longrightarrow> live s \<Longrightarrow> live t \<Longrightarrow> disjoint_ranges s t"
  unfolding one_owner_def by blast

lemma disjoint_ranges_sym: "disjoint_ranges a b \<longleftrightarrow> disjoint_ranges b a"
  by (auto simp: disjoint_ranges_def)

lemma one_owner_put:
  assumes "one_owner tp" "\<And>n u. tab_at tp n = Some u \<Longrightarrow> n \<noteq> tab \<Longrightarrow> live u \<Longrightarrow> live t \<Longrightarrow> disjoint_ranges u t"
  shows "one_owner (put_tablet tp tab t)"
  using assms unfolding one_owner_def by (auto simp: disjoint_ranges_sym split: if_splits)

lemma one_owner_put_inside:
  assumes "one_owner tp" "tab_at tp tab = Some u" "live t \<Longrightarrow> live u"
    and "t_shard_start u \<le> t_shard_start t" "t_shard_end t \<le> t_shard_end u"
  shows "one_owner (put_tablet tp tab t)"
proof (rule one_owner_put[OF assms(1)])
  fix n v assume "tab_at tp n = Some v" "n \<noteq> tab" "live v" "live t"
  then have "disjoint_ranges v u" using one_ownerD[OF assms(1) _ assms(2)] assms(3) by blast
  then show "disjoint_ranges v t" using assms(4,5) by (auto simp: disjoint_ranges_def)
qed

lemma one_owner_split:
  assumes ow: "one_owner tp" and t: "tab_at tp tab = Some t" "live t" "tab_at tp right = None" "tab \<noteq> right"
    and "t_shard_start t < p" "p < t_shard_end t"
  shows "one_owner (put_tablet (put_tablet tp tab (t\<lparr>t_shard_end := p, t_state := Active\<rparr>)) right
    (t\<lparr>t_name := right, t_shard_start := p, t_state := Active\<rparr>))"
proof (rule one_owner_put)
  show "one_owner (put_tablet tp tab (t\<lparr>t_shard_end := p, t_state := Active\<rparr>))"
    using assms by (intro one_owner_put_inside[OF ow t(1)]) auto
  fix n u
  assume u: "tab_at (put_tablet tp tab (t\<lparr>t_shard_end := p, t_state := Active\<rparr>)) n = Some u" "live u"
  show "disjoint_ranges u (t\<lparr>t_name := right, t_shard_start := p, t_state := Active\<rparr>)"
  proof (cases "n = tab")
    case False
    then have "disjoint_ranges u t" using u one_ownerD[OF ow, of n u tab t] t by simp
    then show ?thesis using assms(6,7) by (auto simp: disjoint_ranges_def)
  qed (use u in \<open>auto simp: disjoint_ranges_def\<close>)
qed

lemma one_owner_merge:
  fixes d :: "degraded_mark option"
  assumes ok: "topology_ok tp" and ow: "one_owner tp"
    and l: "tab_at tp left = Some l" and r: "tab_at tp right = Some r"
    and adj: "t_shard_end l = t_shard_start r" and dead: "live l \<Longrightarrow> live r"
  defines "m \<equiv> put_tablet tp left (l\<lparr>t_shard_end := t_shard_end r, t_degraded := d\<rparr>)"
  shows "one_owner (m\<lparr>tablets := bt_remove right (tablets m)\<rparr>)"
proof -
  have lr: "left \<noteq> right" using l r adj topology_okD[OF ok l] by (auto simp: tablet_ok_def)
  have "disjoint_ranges u (l\<lparr>t_shard_end := t_shard_end r, t_degraded := d\<rparr>)"
    if u: "tab_at tp n = Some u" "n \<noteq> left" "n \<noteq> right" "live u" "live l" for n u
  proof -
    have "disjoint_ranges u l" "disjoint_ranges u r"
      using one_ownerD[OF ow] u l r dead by blast+
    moreover have "t_shard_start u < t_shard_end u" "t_shard_start l < t_shard_end l" "t_shard_start r < t_shard_end r"
      using topology_okD[OF ok] u(1) l r by (auto simp: tablet_ok_def)
    ultimately show ?thesis using adj by (auto simp: disjoint_ranges_def)
  qed
  then show ?thesis
    using ow lr unfolding one_owner_def m_def
    by (auto simp: live_def disjoint_ranges_sym split: if_splits)
qed

lemma apply_inner_one_owner:
  assumes ok: "topology_ok tp" and ow: "one_owner tp" and app: "apply_inner tp c = Inr (tp', changed)"
    and "\<not> revives tp c"
  shows "one_owner tp'"
proof (cases "places c")
  case True
  then show ?thesis
  proof (cases c rule: places.cases)
    case (1 tab cl region s e members policy)
    then show ?thesis
      using app by (auto elim!: create_tablet_effect intro!: one_owner_put ow)
  next
    case (2 tab state)
    then show ?thesis
      using app assms(4)
      by (auto elim!: set_tablet_state_effect intro!: one_owner_put_inside ow simp: live_def ow)
  next
    case (3 tab at_shard right)
    then have "split_tablet tp tab at_shard right = Inr (tp', changed)" using app by simp
    then obtain t where "tab_at tp tab = Some t" "tab_at tp right = None" "tab \<noteq> right"
        "t_shard_start t < at_shard" "at_shard < t_shard_end t"
        "tp' = put_tablet (put_tablet tp tab (t\<lparr>t_shard_end := at_shard, t_state := Active\<rparr>)) right
          (t\<lparr>t_name := right, t_shard_start := at_shard, t_state := Active\<rparr>)"
      by (rule split_tablet_effect)
    then show ?thesis using one_owner_split[OF ow] assms(4) 3 by (simp add: live_def)
  next
    case (4 left right)
    then have "merge_tablets tp left right = Inr (tp', changed)" using app by simp
    then obtain l r d where lr: "tab_at tp left = Some l" "tab_at tp right = Some r" "t_shard_end l = t_shard_start r"
      and tp': "tp' = (put_tablet tp left (l\<lparr>t_shard_end := t_shard_end r, t_degraded := d\<rparr>))
       \<lparr>tablets := bt_remove right (tablets (put_tablet tp left (l\<lparr>t_shard_end := t_shard_end r, t_degraded := d\<rparr>)))\<rparr>"
      by (rule merge_tablets_effect)
    show ?thesis
      unfolding tp' by (rule one_owner_merge[OF ok ow lr]) (use assms(4) 4 lr in \<open>auto simp: live_def\<close>)
  qed simp_all
next
  case False
  have old: "\<exists>s. tab_at tp n = Some s \<and> same_place s t" if "tab_at tp' n = Some t" for n t
    using keeps_place[OF app False, of n] that by (auto simp: option_rel_Some2)
  show ?thesis unfolding one_owner_def
  proof (intro allI impI)
    fix m n s t assume "tab_at tp' m = Some s" "tab_at tp' n = Some t" and d: "m \<noteq> n" "live s" "live t"
    then obtain s' t' where st: "tab_at tp m = Some s'" "same_place s' s" "tab_at tp n = Some t'" "same_place t' t"
      using old by blast
    then have "disjoint_ranges s' t'" using d by (intro one_ownerD[OF ow st(1,3)]) (auto simp: same_place_def live_def)
    then show "disjoint_ranges s t" using st by (simp add: same_place_def disjoint_ranges_def)
  qed
qed

section \<open>Applying commands\<close>

fun settles :: "controller_command \<Rightarrow> bool" where
  "settles (MoveReplica tab away_from onto) = (away_from \<noteq> m_node onto)"
| "settles _ = True"

lemma find_filter_not: "find P (filter (\<lambda>x. \<not> P x) xs) = None"
  by (auto simp: find_None_iff)

lemma find_filter_append: "find P (filter (\<lambda>x. \<not> P x) xs @ ys) = find P ys"
  by (induction xs) auto

lemma find_filter_other: "(\<And>x. P x \<Longrightarrow> Q x) \<Longrightarrow> find P xs = None \<Longrightarrow> find P (filter Q xs) = None"
  by (auto simp: find_None_iff)

lemmas arm_defs = register_node_def set_node_condition_def register_cell_def create_tablet_def add_replica_def
  remove_replica_def move_replica_def set_tablet_state_def split_tablet_def merge_tablets_def
  set_receipt_policy_def fail_over_region_def mark_degraded_def clear_degraded_def tablet_named_def

lemma apply_inner_quiet: "apply_inner tp c = Inr (tp', False) \<Longrightarrow> tp' = tp"
  by (cases c) (auto simp: arm_defs result_convs Let_def split: if_splits option.splits)

lemma apply_inner_generation: "apply_inner tp c = Inr (tp', changed) \<Longrightarrow> generation tp' = generation tp"
  by (cases c) (auto simp: arm_defs result_convs Let_def split: if_splits option.splits)

lemma put_tablet_generation [simp]: "tablets (tp\<lparr>generation := g\<rparr>) = tablets tp"
  by simp

lemma remove_replica_effect:
  assumes "remove_replica tp tab node = Inr (tp', True)"
  obtains t m where "tab_at tp tab = Some t" "member_of t node = Some m"
    "tp' = put_tablet tp tab (t\<lparr>t_members := filter (\<lambda>x. m_node x \<noteq> node) (t_members t)\<rparr>)"
    "m_role m = Voter \<Longrightarrow> 1 < voter_count t"
proof -
  obtain t where t: "tab_at tp tab = Some t" using assms by (auto simp: remove_replica_def result_convs)
  then obtain m where m: "member_of t node = Some m"
    using assms by (cases "member_of t node") (auto simp: remove_replica_def tablet_mut_def)
  show thesis
    using assms t m that[of t m]
    by (cases "m_role m = Voter") (auto simp: remove_replica_def tablet_mut_def Let_def result_convs split: if_splits)
qed

lemma apply_inner_again:
  assumes "apply_inner tp c = Inr (tp', True)" "settles c"
  shows "(\<exists>e. apply_inner (tp'\<lparr>generation := g\<rparr>) c = Inl e)
    \<or> apply_inner (tp'\<lparr>generation := g\<rparr>) c = Inr (tp'\<lparr>generation := g\<rparr>, False)"
proof (cases c)
  case (AddReplica tab m)
  then obtain t where "tab_at tp tab = Some t"
      "tp' = put_tablet tp tab (t\<lparr>t_members := filter (\<lambda>x. m_node x \<noteq> m_node m) (t_members t) @ [m]\<rparr>)"
    using assms by (auto simp: add_replica_def result_convs Let_def split: if_splits)
  then show ?thesis using AddReplica by (simp add: add_replica_def tablet_mut_def member_of_def find_filter_append)
next
  case (RemoveReplica tab node)
  then obtain t where "tab_at tp tab = Some t"
      "tp' = put_tablet tp tab (t\<lparr>t_members := filter (\<lambda>x. m_node x \<noteq> node) (t_members t)\<rparr>)"
    using assms by (auto elim: remove_replica_effect)
  then show ?thesis using RemoveReplica by (simp add: remove_replica_def tablet_mut_def member_of_def find_filter_not)
next
  case (MoveReplica tab away_from onto)
  then obtain t where t: "tab_at tp tab = Some t"
      "tp' = put_tablet tp tab (t\<lparr>t_members := filter (\<lambda>x. m_node x \<noteq> m_node onto)
         (filter (\<lambda>x. m_node x \<noteq> away_from) (t_members t)) @ [onto]\<rparr>)"
    using assms by (auto simp: move_replica_def result_convs Let_def split: if_splits)
  have "find (\<lambda>m. m_node m = away_from) (filter (\<lambda>x. m_node x \<noteq> m_node onto) (filter (\<lambda>x. m_node x \<noteq> away_from) ms) @ [onto]) = None"
    for ms using assms(2) MoveReplica by (auto simp: find_None_iff)
  with t show ?thesis using MoveReplica
    by (simp add: move_replica_def tablet_mut_def member_of_def find_filter_append)
next
  case (RegisterNode node address region domain)
  with assms(1) show ?thesis
    by (auto simp: register_node_def tablet_mut_def Let_def and_then_def ok_or_def split: if_splits option.splits sum.splits)
next
  case (SetNodeCondition node state cause at wr free)
  with assms(1) show ?thesis
    by (auto simp: set_node_condition_def tablet_mut_def Let_def and_then_def ok_or_def split: if_splits option.splits sum.splits)
next
  case (RegisterCell cl region controllers)
  with assms(1) show ?thesis
    by (auto simp: register_cell_def tablet_mut_def Let_def and_then_def ok_or_def split: if_splits option.splits sum.splits)
next
  case (CreateTablet tab cl region s e members policy)
  with assms(1) show ?thesis
    by (auto simp: create_tablet_def tablet_mut_def Let_def and_then_def ok_or_def split: if_splits option.splits sum.splits)
next
  case (SetTabletState tab state)
  with assms(1) show ?thesis
    by (auto simp: set_tablet_state_def tablet_mut_def Let_def and_then_def ok_or_def split: if_splits option.splits sum.splits)
next
  case (SplitTablet tab at_shard right)
  with assms(1) show ?thesis
    by (auto simp: split_tablet_def tablet_mut_def Let_def and_then_def ok_or_def split: if_splits option.splits sum.splits)
next
  case (MergeTablets left right)
  with assms(1) show ?thesis
    by (auto simp: merge_tablets_def tablet_named_def tablet_mut_def Let_def and_then_def ok_or_def split: if_splits option.splits sum.splits)
next
  case (SetReceiptPolicy tab policy)
  with assms(1) show ?thesis
    by (auto simp: set_receipt_policy_def tablet_mut_def Let_def and_then_def ok_or_def split: if_splits option.splits sum.splits)
next
  case (FailOverRegion tab onto_region)
  with assms(1) show ?thesis
    by (auto simp: fail_over_region_def tablet_mut_def Let_def and_then_def ok_or_def split: if_splits option.splits sum.splits)
next
  case (MarkDegraded tab mark)
  with assms(1) show ?thesis
    by (auto simp: mark_degraded_def tablet_mut_def Let_def and_then_def ok_or_def split: if_splits option.splits sum.splits)
next
  case (ClearDegraded tab accepted_by reason at)
  with assms(1) show ?thesis
    by (auto simp: clear_degraded_def tablet_mut_def Let_def and_then_def ok_or_def split: if_splits option.splits sum.splits)
qed

lemma apply_command_simps:
  "apply_inner tp c = Inl e \<Longrightarrow> apply_command tp c = (tp, Inl e)"
  "apply_inner tp c = Inr (tp', False) \<Longrightarrow> apply_command tp c = (tp, Inr (generation tp))"
  "apply_inner tp c = Inr (tp', True) \<Longrightarrow>
     apply_command tp c = (tp'\<lparr>generation := generation tp + 1\<rparr>, Inr (generation tp + 1))"
  using apply_inner_quiet[of tp c tp'] apply_inner_generation[of tp c tp' True]
  by (simp_all add: apply_command_def)

lemma apply_command_cases:
  obtains (refused) e where "apply_inner tp c = Inl e" "apply_command tp c = (tp, Inl e)"
  | (quiet) "apply_inner tp c = Inr (tp, False)" "apply_command tp c = (tp, Inr (generation tp))"
  | (changed) tp' where "apply_inner tp c = Inr (tp', True)"
      "apply_command tp c = (tp'\<lparr>generation := generation tp + 1\<rparr>, Inr (generation tp + 1))"
proof (cases "apply_inner tp c")
  case (Inr p)
  then show thesis
    using quiet changed apply_command_simps(2,3)[of tp c] apply_inner_quiet[of tp c]
    by (cases p; cases "snd p") auto
qed (use refused apply_command_simps(1) in blast)

lemma apply_command_settled:
  "settles c \<Longrightarrow> fst (apply_command (fst (apply_command tp c)) c) = fst (apply_command tp c)"
proof (cases rule: apply_command_cases[of tp c])
  case (changed tp')
  assume "settles c"
  then show ?thesis
    using apply_inner_again[OF changed(1), of "generation tp + 1"] changed(2)
      apply_command_simps(1,2)[of "tp'\<lparr>generation := generation tp + 1\<rparr>" c] by auto
qed simp_all

interpretation controller: command_machine apply_command generation settles
proof
  fix tp tp' :: topology and c e g
  show "apply_command tp c = (tp', Inl e) \<Longrightarrow> tp' = tp"
    by (rule apply_command_cases[of tp c]) auto
  show "apply_command tp c = (tp', Inr g) \<Longrightarrow> g = generation tp' \<and> (tp' = tp \<or> generation tp' = generation tp + 1)"
    by (rule apply_command_cases[of tp c]) auto
  show "settles c \<Longrightarrow> fst (apply_command (fst (apply_command tp c)) c) = fst (apply_command tp c)"
    by (rule apply_command_settled)
qed

section \<open>Reachable maps\<close>

lemma topology_ok_generation [simp]: "topology_ok (tp\<lparr>generation := g\<rparr>) = topology_ok tp"
  by (simp add: topology_ok_def)

lemma one_owner_generation [simp]: "one_owner (tp\<lparr>generation := g\<rparr>) = one_owner tp"
  by (simp add: one_owner_def)

text \<open>The maps a controller group can reach by a log that revives no retired tablet.\<close>

inductive reached :: "topology \<Rightarrow> bool" where
  start: "reached topology_new"
| step: "reached tp \<Longrightarrow> \<not> revives tp c \<Longrightarrow> reached (fst (apply_command tp c))"

lemma reached_ok: "reached tp \<Longrightarrow> topology_ok tp \<and> one_owner tp"
proof (induction rule: reached.induct)
  case start
  then show ?case by (simp add: topology_new_def topology_ok_def one_owner_def)
next
  case (step tp c)
  then show ?case
    by (cases rule: apply_command_cases[of tp c]) (auto dest: apply_inner_ok apply_inner_one_owner)
qed

section \<open>Who owns a shard\<close>

definition owned :: "topology \<Rightarrow> nat \<Rightarrow> bool" where
  "owned tp shard \<longleftrightarrow> (\<exists>n t. tab_at tp n = Some t \<and> live t \<and> owns t shard)"

lemma owner_among_Some:
  "owner_among ts shard d = Some t \<Longrightarrow> d = Some t \<or> (t \<in> set ts \<and> live t \<and> owns t shard)"
  by (induction ts shard d rule: owner_among.induct) (auto simp: live_def split: if_splits)

lemma owner_among_None:
  "owner_among ts shard d = None \<longleftrightarrow> d = None \<and> (\<forall>t \<in> set ts. \<not> (live t \<and> owns t shard))"
  by (induction ts shard d rule: owner_among.induct) (auto simp: live_def)

lemma in_bt_values: "bt_ok m \<Longrightarrow> v \<in> set (bt_values m) \<longleftrightarrow> (\<exists>k. bt_get m k = Some v)"
  by (simp add: bt_get_eq_Some bt_values_def) force

lemma one_owner_unique:
  assumes "one_owner tp" "tab_at tp m = Some s" "live s" "owns s shard" "tab_at tp n = Some t" "live t" "owns t shard"
  shows "s = t"
proof (rule ccontr)
  assume "s \<noteq> t"
  then have "disjoint_ranges s t" using one_ownerD[OF assms(1,2,5) _ assms(3,6)] assms(2,5) by (cases "m = n") simp_all
  then show False using assms(4,7) by (auto simp: owns_def disjoint_ranges_def)
qed

lemma owner_of_iff:
  assumes "topology_ok tp" "one_owner tp"
  shows "owner_of tp shard = Some t \<longleftrightarrow> (\<exists>n. tab_at tp n = Some t \<and> live t \<and> owns t shard)"
proof -
  have mem: "\<And>v. v \<in> set (bt_values (tablets tp)) \<longleftrightarrow> (\<exists>n. tab_at tp n = Some v)"
    using assms(1) by (intro in_bt_values) (simp add: topology_ok_def)
  have found: "\<exists>n. tab_at tp n = Some s \<and> live s \<and> owns s shard" if "owner_of tp shard = Some s" for s
    using owner_among_Some[of "bt_values (tablets tp)" shard None s] that unfolding owner_of_def mem by blast
  have some: "owner_of tp shard \<noteq> None" if "tab_at tp n = Some t" "live t" "owns t shard" for n
    using owner_among_None[of "bt_values (tablets tp)" shard None] that unfolding owner_of_def Ball_def mem by blast
  show ?thesis
    using found some one_owner_unique[OF assms(2)] by (metis option.exhaust)
qed

section \<open>Fencing, policy and audit\<close>

definition fenced :: "tablet \<Rightarrow> tablet \<Rightarrow> bool" where
  "fenced a b \<longleftrightarrow> t_epoch a \<le> t_epoch b \<and> (t_write_region a \<noteq> t_write_region b \<longrightarrow> t_epoch a < t_epoch b)"

lemma fenced_refl [simp]: "fenced t t"
  by (simp add: fenced_def)

lemma apply_inner_fenced:
  assumes "apply_inner tp c = Inr (tp', changed)" "tab_at tp n = Some t" "tab_at tp' n = Some t'"
  shows "fenced t t'"
proof (cases c)
  case (CreateTablet tab cl region s e members policy)
  then show ?thesis using assms by (auto elim!: create_tablet_effect split: if_splits)
next
  case (SplitTablet tab at_shard right)
  then show ?thesis using assms by (auto elim!: split_tablet_effect simp: fenced_def split: if_splits)
next
  case (MergeTablets left right)
  then have "merge_tablets tp left right = Inr (tp', changed)" using assms by simp
  then show ?thesis
    by (rule merge_tablets_effect) (use assms(2,3) in \<open>auto simp: fenced_def split: if_splits\<close>)
next
  case (RemoveReplica tab node)
  then show ?thesis
    using assms apply_inner_quiet[of tp c tp']
    by (cases changed) (auto elim!: remove_replica_effect simp: fenced_def split: if_splits)
qed (use assms in \<open>auto simp: register_node_def set_node_condition_def register_cell_def add_replica_def
      move_replica_def set_tablet_state_def set_receipt_policy_def fail_over_region_def mark_degraded_def
      clear_degraded_def result_convs Let_def fenced_def split: if_splits option.splits\<close>)

definition policy_safe :: "tablet \<Rightarrow> bool" where
  "policy_safe t \<longleftrightarrow> (t_receipt_policy t = LocalOne \<longrightarrow> voter_count t \<le> 1)"

fun adds_replica :: "controller_command \<Rightarrow> bool" where
  "adds_replica (AddReplica _ _) = True"
| "adds_replica (MoveReplica _ _ _) = True"
| "adds_replica _ = False"

lemma voter_count_filter: "length (filter is_voter (filter P ms)) \<le> length (filter is_voter ms)"
  by (induction ms) auto

lemma policy_safe_same:
  "t_members s = t_members t \<Longrightarrow> t_receipt_policy s = t_receipt_policy t \<Longrightarrow> policy_safe s = policy_safe t"
  by (simp add: policy_safe_def voter_count_def voters_def)

lemma apply_inner_policy:
  assumes "apply_inner tp c = Inr (tp', changed)" "\<not> adds_replica c"
    and safe: "\<And>n t. tab_at tp n = Some t \<Longrightarrow> policy_safe t" and t': "tab_at tp' n = Some t'"
  shows "policy_safe t'"
proof (cases c)
  case (CreateTablet tab cl region s e members policy)
  then have "create_tablet tp tab cl region s e members policy = Inr (tp', changed)" using assms by simp
  then show ?thesis
    by (rule create_tablet_effect)
      (use safe t' in \<open>auto simp: policy_safe_def voter_count_def voters_def split: if_splits\<close>)
next
  case (SplitTablet tab at_shard right)
  then have "split_tablet tp tab at_shard right = Inr (tp', changed)" using assms by simp
  then obtain t where t: "tab_at tp tab = Some t"
      "tp' = put_tablet (put_tablet tp tab (t\<lparr>t_shard_end := at_shard, t_state := Active\<rparr>)) right
       (t\<lparr>t_name := right, t_shard_start := at_shard, t_state := Active\<rparr>)" by (rule split_tablet_effect)
  then show ?thesis using safe t' safe[OF t(1)]
    by (auto simp: policy_safe_def voter_count_def voters_def split: if_splits)
next
  case (MergeTablets left right)
  then have "merge_tablets tp left right = Inr (tp', changed)" using assms by simp
  then obtain l r d where l: "tab_at tp left = Some l" "tab_at tp right = Some r"
      "tp' = (put_tablet tp left (l\<lparr>t_shard_end := t_shard_end r, t_degraded := d\<rparr>))
       \<lparr>tablets := bt_remove right (tablets (put_tablet tp left (l\<lparr>t_shard_end := t_shard_end r, t_degraded := d\<rparr>)))\<rparr>"
    by (rule merge_tablets_effect)
  then show ?thesis using safe t' safe[OF l(1)]
    by (auto simp: policy_safe_def voter_count_def voters_def split: if_splits)
next
  case (RemoveReplica tab node)
  show ?thesis
  proof (cases changed)
    case True
    then obtain t where t: "tab_at tp tab = Some t"
        "tp' = put_tablet tp tab (t\<lparr>t_members := filter (\<lambda>x. m_node x \<noteq> node) (t_members t)\<rparr>)"
      using RemoveReplica assms by (auto elim: remove_replica_effect)
    have "policy_safe (t\<lparr>t_members := filter (\<lambda>x. m_node x \<noteq> node) (t_members t)\<rparr>)"
      using safe[OF t(1)] voter_count_filter[of "\<lambda>x. m_node x \<noteq> node" "t_members t"]
      by (auto simp: policy_safe_def voter_count_def voters_def)
    then show ?thesis using safe t t' by (auto split: if_splits)
  qed (use assms apply_inner_quiet in fastforce)
qed (use assms in \<open>auto simp: register_node_def set_node_condition_def register_cell_def set_tablet_state_def
      set_receipt_policy_def fail_over_region_def mark_degraded_def clear_degraded_def check_policy_def
      result_convs Let_def policy_safe_def voter_count_def voters_def split: if_splits option.splits\<close>)

lemma push_audit_extends: "\<exists>new. audit (push_audit tp a) = audit tp @ new"
  by (simp add: push_audit_def)

lemma push_audit_distinct:
  "distinct (map a_audit_id (audit tp)) \<Longrightarrow> distinct (map a_audit_id (audit (push_audit tp a)))"
  by (auto simp: push_audit_def list_ex_iff)

lemma apply_inner_audit:
  assumes "apply_inner tp c = Inr (tp', changed)"
  shows "(\<exists>new. audit tp' = audit tp @ new)
    \<and> (distinct (map a_audit_id (audit tp)) \<longrightarrow> distinct (map a_audit_id (audit tp')))"
proof (cases c)
  case (MarkDegraded tab mark)
  then show ?thesis
    using assms push_audit_extends push_audit_distinct
    by (auto simp: mark_degraded_def result_convs Let_def split: if_splits) (metis put_simps(5))+
next
  case (ClearDegraded tab accepted_by reason at)
  then show ?thesis
    using assms push_audit_extends push_audit_distinct
    by (auto simp: clear_degraded_def result_convs Let_def split: if_splits) (metis put_simps(5))+
next
  case (CreateTablet tab cl region s e members policy)
  then show ?thesis using assms by (auto elim!: create_tablet_effect)
next
  case (RemoveReplica tab node)
  then show ?thesis
    using assms apply_inner_quiet[of tp c tp'] by (cases changed) (auto elim!: remove_replica_effect)
qed (use assms in \<open>auto simp: register_node_def set_node_condition_def register_cell_def add_replica_def
      move_replica_def set_tablet_state_def split_tablet_def merge_tablets_def tablet_named_def set_receipt_policy_def
      fail_over_region_def result_convs Let_def split: if_splits option.splits\<close>)

section \<open>Replica sets\<close>

lemma distinct_member: "distinct (map m_node ms) \<Longrightarrow> x \<in> set ms \<Longrightarrow> find (\<lambda>m. m_node m = m_node x) ms = Some x"
  by (induction ms) (auto simp: image_iff)

lemma filter_other_member:
  "distinct (map m_node ms) \<Longrightarrow> find (\<lambda>m. m_node m = n) ms = Some x \<Longrightarrow>
   length (filter is_voter (filter (\<lambda>m. m_node m \<noteq> n) ms)) + (if is_voter x then 1 else 0) = length (filter is_voter ms)"
proof (induction ms)
  case (Cons m ms)
  show ?case
  proof (cases "m_node m = n")
    case True
    then have "\<forall>y \<in> set ms. m_node y \<noteq> n" using Cons.prems by (auto simp: image_iff)
    then have "filter (\<lambda>m. m_node m \<noteq> n) ms = ms" by (simp add: filter_id_conv)
    then show ?thesis using Cons.prems True by auto
  qed (use Cons in auto)
qed simp

lemma remove_replica_keeps_voter:
  assumes "remove_replica tp tab node = Inr (tp', True)" "tab_at tp tab = Some t" "distinct (map m_node (t_members t))"
    "0 < voter_count t"
  obtains t' where "tab_at tp' tab = Some t'" "0 < voter_count t'"
    "t_members t' = filter (\<lambda>m. m_node m \<noteq> node) (t_members t)"
proof -
  obtain m where m: "member_of t node = Some m" "m_role m = Voter \<Longrightarrow> 1 < voter_count t"
      "tp' = put_tablet tp tab (t\<lparr>t_members := filter (\<lambda>x. m_node x \<noteq> node) (t_members t)\<rparr>)"
    using assms(1,2) by (auto elim!: remove_replica_effect)
  have "0 < voter_count (t\<lparr>t_members := filter (\<lambda>x. m_node x \<noteq> node) (t_members t)\<rparr>)"
    using filter_other_member[OF assms(3) m(1)[unfolded member_of_def]] m(2) assms(4)
    by (auto simp: voter_count_def voters_def is_voter_def split: if_splits)
  then show thesis using that[of "t\<lparr>t_members := filter (\<lambda>x. m_node x \<noteq> node) (t_members t)\<rparr>"] m(3) by simp
qed

lemma quorums_meet:
  assumes "A \<subseteq> set (voters t)" "B \<subseteq> set (voters t)" "quorum t \<le> card A" "quorum t \<le> card B"
  shows "A \<inter> B \<noteq> {}"
proof
  assume "A \<inter> B = {}"
  moreover have fin: "finite A" "finite B" using assms(1,2) finite_subset by blast+
  ultimately have "card A + card B = card (A \<union> B)" by (simp add: card_Un_disjoint)
  also have "\<dots> \<le> card (set (voters t))" using assms(1,2) by (intro card_mono) auto
  also have "\<dots> \<le> voter_count t" by (simp add: voter_count_def card_length)
  finally show False using assms(3,4) by (simp add: quorum_def)
qed

lemma ownedI: "tab_at tp n = Some t \<Longrightarrow> live t \<Longrightarrow> owns t shard \<Longrightarrow> owned tp shard"
  by (auto simp: owned_def)

lemma split_keeps_owned:
  assumes "split_tablet tp tab at_shard right = Inr (tp', changed)" "\<not> revives tp (SplitTablet tab at_shard right)"
  shows "owned tp' shard = owned tp shard"
proof -
  obtain t where t: "tab_at tp tab = Some t" "tab_at tp right = None" "tab \<noteq> right"
      "t_shard_start t < at_shard" "at_shard < t_shard_end t"
      "tp' = put_tablet (put_tablet tp tab (t\<lparr>t_shard_end := at_shard, t_state := Active\<rparr>)) right
         (t\<lparr>t_name := right, t_shard_start := at_shard, t_state := Active\<rparr>)"
    using assms(1) by (rule split_tablet_effect)
  have l: "live t" using assms(2) t(1) by (simp add: live_def)
  show ?thesis
  proof
    assume "owned tp' shard"
    then obtain n u where u: "tab_at tp' n = Some u" "live u" "owns u shard" by (auto simp: owned_def)
    show "owned tp shard"
    proof (cases "n = right \<or> n = tab")
      case True
      then have "owns t shard" using u t by (auto simp: owns_def)
      then show ?thesis using t(1) l by (rule ownedI[rotated 2])
    qed (use u t in \<open>auto intro: ownedI\<close>)
  next
    assume "owned tp shard"
    then obtain n u where u: "tab_at tp n = Some u" "live u" "owns u shard" by (auto simp: owned_def)
    consider "n \<noteq> tab" | "n = tab" "shard < at_shard" | "n = tab" "at_shard \<le> shard" by linarith
    then show "owned tp' shard"
    proof cases
      case 1
      then have "tab_at tp' n = Some u" using u t(2,6) by auto
      then show ?thesis using u by (auto simp: owned_def)
    next
      case 2
      then have "tab_at tp' tab = Some (t\<lparr>t_shard_end := at_shard, t_state := Active\<rparr>)" using t by simp
      then show ?thesis using u t 2 unfolding owned_def by (force simp: owns_def live_def)
    next
      case 3
      then have "tab_at tp' right = Some (t\<lparr>t_name := right, t_shard_start := at_shard, t_state := Active\<rparr>)" using t by simp
      then show ?thesis using u t 3 unfolding owned_def by (force simp: owns_def live_def)
    qed
  qed
qed

lemma merge_keeps_owned:
  assumes "merge_tablets tp left right = Inr (tp', changed)" "topology_ok tp"
    and "tab_at tp left = Some l" "tab_at tp right = Some r" "live l" "live r"
  shows "owned tp' shard = owned tp shard"
proof -
  obtain d where d: "t_shard_end l = t_shard_start r"
      "tp' = (put_tablet tp left (l\<lparr>t_shard_end := t_shard_end r, t_degraded := d\<rparr>))
       \<lparr>tablets := bt_remove right (tablets (put_tablet tp left (l\<lparr>t_shard_end := t_shard_end r, t_degraded := d\<rparr>)))\<rparr>"
    using merge_tablets_effect[OF assms(1)] assms(3,4) by (metis option.inject)
  have ok: "t_shard_start l < t_shard_end l" "t_shard_start r < t_shard_end r"
    using topology_okD[OF assms(2)] assms(3,4) by (auto simp: tablet_ok_def)
  then have lr: "left \<noteq> right" using d(1) assms(3,4) by auto
  let ?m = "l\<lparr>t_shard_end := t_shard_end r, t_degraded := d\<rparr>"
  have at: "tab_at tp' n = (if n = right then None else if n = left then Some ?m else tab_at tp n)" for n
    using d(2) lr by simp
  have m: "owns ?m shard \<longleftrightarrow> owns l shard \<or> owns r shard" "live ?m"
    using d(1) ok assms(5) by (auto simp: owns_def live_def)
  show ?thesis
  proof
    assume "owned tp' shard"
    then obtain n u where u: "tab_at tp' n = Some u" "live u" "owns u shard" by (auto simp: owned_def)
    then show "owned tp shard"
      using at[of n] m assms(3-6) by (cases "n = left") (auto simp: owned_def split: if_splits)
  next
    assume "owned tp shard"
    then obtain n u where u: "tab_at tp n = Some u" "live u" "owns u shard" by (auto simp: owned_def)
    show "owned tp' shard"
    proof (cases "n = left \<or> n = right")
      case True
      then have "owns ?m shard" using u m(1) assms(3,4) by auto
      then show ?thesis using at[of left] lr m(2) by (auto simp: owned_def)
    next
      case False
      then show ?thesis using at[of n] u by (auto simp: owned_def)
    qed
  qed
qed

section \<open>Properties\<close>

text \<open>C3: A shard has one owner. In every placement map that a log of commands reaches
  without reviving a retired tablet, two different live tablets never share a shard,
  and the lookup of a shard's owner returns the live tablet that owns it whenever
  there is one.\<close>

theorem topology_one_owner:
  assumes "reached tp"
  shows "one_owner tp \<and> (owner_of tp shard = Some t \<longleftrightarrow> (\<exists>n. tab_at tp n = Some t \<and> live t \<and> owns t shard))"
  using reached_ok[OF assms] owner_of_iff by blast

definition two_shards :: controller_command where
  "two_shards = CreateTablet ''t1'' ''c1'' ''home'' 0 2 [voter_member ''n1'' ''a1''] LocalOne"

theorem topology_one_owner_witness:
  "owner_of (fst (apply_command topology_new two_shards)) 1
     = tab_at (fst (apply_command topology_new two_shards)) ''t1''
   \<and> one_owner (fst (apply_command topology_new two_shards))"
proof -
  have r: "reached (fst (apply_command topology_new two_shards))"
    by (rule reached.step[OF reached.start]) (simp add: two_shards_def)
  let ?tp = "fst (apply_command topology_new two_shards)"
  obtain t where t: "tab_at ?tp ''t1'' = Some t" "live t" "owns t 1"
    by (simp add: apply_command_def two_shards_def create_tablet_def topology_new_def bt_values_def
        check_policy_def voter_member_def is_voter_def put_tablet_def live_def owns_def)
  show ?thesis using topology_one_owner[OF r, of 1 t] t by auto
qed



text \<open>The generation is the map's version number: replaying a log never lowers it, it
  grows by at most one for each command, and an equal generation means an equal map.\<close>

theorem topology_generation:
  shows "generation tp \<le> generation (foldl (\<lambda>tp c. fst (apply_command tp c)) tp log)
    \<and> generation (foldl (\<lambda>tp c. fst (apply_command tp c)) tp log) \<le> generation tp + length log
    \<and> (generation (foldl (\<lambda>tp c. fst (apply_command tp c)) tp log) \<noteq> generation tp
        \<or> foldl (\<lambda>tp c. fst (apply_command tp c)) tp log = tp)"
  using controller.replay_generation[of tp log] controller.replay_unchanged[of tp log]
  by (auto simp: controller.replay_def)

theorem topology_generation_witness:
  "generation (foldl (\<lambda>tp c. fst (apply_command tp c)) topology_new [RemoveReplica ''t1'' ''n1'']) \<le> 1"
  using topology_generation[of topology_new "[RemoveReplica ''t1'' ''n1'']"] by (simp add: topology_new_def)

text \<open>C20: Splitting a live tablet and merging two live neighbours move no shard out of
  ownership and bring none in: a shard has a live owner after exactly when it had one
  before.\<close>

theorem split_and_merge_keep_ownership:
  assumes "topology_ok tp" and "apply_inner tp c = Inr (tp', changed)"
    and "(\<exists>p. c = SplitTablet left p right \<and> \<not> revives tp c)
      \<or> c = MergeTablets left right \<and> tab_at tp left = Some l \<and> tab_at tp right = Some r \<and> live l \<and> live r"
  shows "owned tp' shard \<longleftrightarrow> owned tp shard"
  using assms(3)
proof
  assume "\<exists>p. c = SplitTablet left p right \<and> \<not> revives tp c"
  then show ?thesis using split_keeps_owned assms(2) by auto
next
  assume "c = MergeTablets left right \<and> tab_at tp left = Some l \<and> tab_at tp right = Some r \<and> live l \<and> live r"
  then show ?thesis using merge_keeps_owned[of tp left right tp' changed l r] assms(1,2) by simp
qed

definition one_tablet :: topology where
  "one_tablet = fst (apply_command topology_new two_shards)"

lemma one_tablet_tablets:
  "tablets one_tablet = [(''t1'', \<lparr>t_name = ''t1'', t_cell = ''c1'', t_write_region = ''home'', t_epoch = 1,
      t_state = Active, t_shard_start = 0, t_shard_end = 2, t_members = [voter_member ''n1'' ''a1''],
      t_receipt_policy = LocalOne, t_degraded = None\<rparr>)]"
  by (simp add: one_tablet_def apply_command_def two_shards_def create_tablet_def topology_new_def bt_values_def
      check_policy_def voter_member_def is_voter_def put_tablet_def)

lemma one_owner_disjoint:
  "one_owner tp \<Longrightarrow> tab_at tp m = Some s \<Longrightarrow> tab_at tp n = Some t \<Longrightarrow> m \<noteq> n \<Longrightarrow> live s \<Longrightarrow> live t \<Longrightarrow>
   \<not> (owns s shard \<and> owns t shard)"
  using one_ownerD[of tp m s n t] by (auto simp: disjoint_ranges_def owns_def)

lemma one_tablet_at:
  "tab_at one_tablet ''t1'' = Some \<lparr>t_name = ''t1'', t_cell = ''c1'', t_write_region = ''home'', t_epoch = 1,
      t_state = Active, t_shard_start = 0, t_shard_end = 2, t_members = [voter_member ''n1'' ''a1''],
      t_receipt_policy = LocalOne, t_degraded = None\<rparr>"
  "tab_at one_tablet ''t2'' = None"
  by (simp_all add: one_tablet_tablets)

lemma one_tablet_split:
  "topology_ok one_tablet" "\<not> revives one_tablet (SplitTablet ''t1'' 1 ''t2'')"
  "\<exists>tp'. apply_inner one_tablet (SplitTablet ''t1'' 1 ''t2'') = Inr (tp', True)"
proof -
  have "reached one_tablet" unfolding one_tablet_def
    by (rule reached.step[OF reached.start]) (simp add: two_shards_def)
  then show "topology_ok one_tablet" using reached_ok by blast
qed (simp_all add: split_tablet_def tablet_mut_def one_tablet_at Let_def)

theorem split_and_merge_keep_ownership_witness:
  "\<exists>tp'. apply_inner one_tablet (SplitTablet ''t1'' 1 ''t2'') = Inr (tp', True)
    \<and> (owned tp' 1 \<longleftrightarrow> owned one_tablet 1)"
  using one_tablet_split(3) split_and_merge_keep_ownership[OF one_tablet_split(1), of "SplitTablet ''t1'' 1 ''t2''" _ True "''t1''" "''t2''"]
    one_tablet_split(2) by blast

text \<open>C21: The write region of a tablet never changes without a new epoch, and an epoch
  never goes back, so a writer that holds an older epoch can be told apart.\<close>

theorem write_region_is_fenced:
  assumes "tab_at tp n = Some t" and "tab_at (fst (apply_command tp c)) n = Some t'"
  shows "t_epoch t \<le> t_epoch t' \<and> (t_write_region t' \<noteq> t_write_region t \<longrightarrow> t_epoch t < t_epoch t')"
proof -
  have "fenced t t'"
    using assms by (cases rule: apply_command_cases[of tp c]) (auto dest: apply_inner_fenced)
  then show ?thesis by (auto simp: fenced_def)
qed

theorem write_region_is_fenced_witness:
  "\<exists>t t'. tab_at one_tablet ''t1'' = Some t
    \<and> tab_at (fst (apply_command one_tablet (SetTabletState ''t1'' Draining))) ''t1'' = Some t' \<and> t_epoch t \<le> t_epoch t'"
proof -
  obtain t where t: "tab_at one_tablet ''t1'' = Some t" "t_state t = Active" using one_tablet_at by auto
  then have "tab_at (fst (apply_command one_tablet (SetTabletState ''t1'' Draining))) ''t1'' = Some (t\<lparr>t_state := Draining\<rparr>)"
    by (simp add: apply_command_def set_tablet_state_def tablet_mut_def put_tablet_def)
  with write_region_is_fenced[OF t(1) this] t show ?thesis by blast
qed

text \<open>The receipt policy stays safe. No command but the two that add a replica can
  leave a \<open>local-one\<close> tablet, which acknowledges before the group commits, with more
  than one voter.\<close>

theorem receipt_policy_stays_safe:
  assumes "\<not> adds_replica c" and "\<And>n t. tab_at tp n = Some t \<Longrightarrow> policy_safe t"
    and "tab_at (fst (apply_command tp c)) n = Some t'"
  shows "policy_safe t'"
  using assms(3)
  by (cases rule: apply_command_cases[of tp c]) (auto intro: assms(2) apply_inner_policy[OF _ assms(1,2)])

theorem receipt_policy_stays_safe_witness:
  "policy_safe (the (tab_at (fst (apply_command topology_new two_shards)) ''t1''))"
proof -
  obtain t where t: "tab_at (fst (apply_command topology_new two_shards)) ''t1'' = Some t"
    using one_tablet_at by (auto simp: one_tablet_def)
  have "policy_safe t"
    by (rule receipt_policy_stays_safe[OF _ _ t]) (simp_all add: two_shards_def topology_new_def)
  then show ?thesis by (simp add: t)
qed

text \<open>Removing a replica never takes the last voter, and any two quorums of a tablet
  share a voter, so two decisions of one tablet cannot both be made without a member
  that knows of the other.\<close>

theorem voters_and_quorums:
  assumes "apply_inner tp (RemoveReplica tab node) = Inr (tp', True)" and "tab_at tp tab = Some t"
    and "distinct (map m_node (t_members t))" and "0 < voter_count t"
  shows "\<exists>t'. tab_at tp' tab = Some t' \<and> 0 < voter_count t' \<and> node \<notin> m_node ` set (t_members t')
    \<and> (\<forall>A B. A \<subseteq> set (voters t') \<longrightarrow> B \<subseteq> set (voters t') \<longrightarrow> quorum t' \<le> card A \<longrightarrow> quorum t' \<le> card B \<longrightarrow> A \<inter> B \<noteq> {})"
proof -
  obtain t' where "tab_at tp' tab = Some t'" "0 < voter_count t'"
      "t_members t' = filter (\<lambda>m. m_node m \<noteq> node) (t_members t)"
    using remove_replica_keeps_voter[OF _ assms(2-4)] assms(1) by auto
  then show ?thesis using quorums_meet[of _ t'] by (intro exI[of _ t']) auto
qed

definition two_voters :: topology where
  "two_voters = fst (apply_command topology_new (CreateTablet ''t1'' ''c1'' ''home'' 0 2
     [voter_member ''n1'' ''a1'', voter_member ''n2'' ''a2''] LocalQuorum))"

lemma two_voters_tablets:
  "tablets two_voters = [(''t1'', \<lparr>t_name = ''t1'', t_cell = ''c1'', t_write_region = ''home'', t_epoch = 1,
      t_state = Active, t_shard_start = 0, t_shard_end = 2,
      t_members = [voter_member ''n1'' ''a1'', voter_member ''n2'' ''a2''],
      t_receipt_policy = LocalQuorum, t_degraded = None\<rparr>)]"
  by (simp add: two_voters_def apply_command_def create_tablet_def topology_new_def bt_values_def
      check_policy_def put_tablet_def)

theorem voters_and_quorums_witness:
  "\<exists>tp' t'. apply_inner two_voters (RemoveReplica ''t1'' ''n1'') = Inr (tp', True)
    \<and> tab_at tp' ''t1'' = Some t' \<and> 0 < voter_count t'"
proof -
  obtain tp' where tp': "apply_inner two_voters (RemoveReplica ''t1'' ''n1'') = Inr (tp', True)"
    by (simp add: remove_replica_def tablet_mut_def two_voters_tablets member_of_def voter_member_def
        voter_count_def voters_def is_voter_def check_policy_def)
  from voters_and_quorums[OF this] show ?thesis
    using tp' by (auto simp: two_voters_tablets voter_member_def voter_count_def voters_def is_voter_def)
qed

text \<open>The audit log is only ever appended to, and no audit identifier is recorded
  twice.\<close>

theorem audit_is_append_only:
  assumes "distinct (map a_audit_id (audit tp))"
  shows "(\<exists>added. audit (foldl (\<lambda>tp c. fst (apply_command tp c)) tp log) = audit tp @ added)
    \<and> distinct (map a_audit_id (audit (foldl (\<lambda>tp c. fst (apply_command tp c)) tp log)))"
  using assms
proof (induction log arbitrary: tp)
  case (Cons c log)
  have step: "(\<exists>added. audit (fst (apply_command tp c)) = audit tp @ added)
      \<and> distinct (map a_audit_id (audit (fst (apply_command tp c))))"
    using Cons.prems by (cases rule: apply_command_cases[of tp c]) (auto dest: apply_inner_audit)
  then have "\<exists>added. audit (foldl (\<lambda>tp c. fst (apply_command tp c)) (fst (apply_command tp c)) log)
      = audit (fst (apply_command tp c)) @ added" using Cons.IH by blast
  then show ?case using step Cons.IH[of "fst (apply_command tp c)"] by auto
qed simp

theorem audit_is_append_only_witness:
  "distinct (map a_audit_id (audit (foldl (\<lambda>tp c. fst (apply_command tp c)) topology_new
     [two_shards, ClearDegraded ''t1'' ''me'' ''x'' 5])))"
  using audit_is_append_only[of topology_new "[two_shards, ClearDegraded ''t1'' ''me'' ''x'' 5]"] by (simp add: topology_new_def)

lemma replayed_ok: "topology_ok tp \<Longrightarrow> topology_ok (foldl (\<lambda>tp c. fst (apply_command tp c)) tp log)"
proof (induction log arbitrary: tp)
  case (Cons c log)
  have "topology_ok (fst (apply_command tp c))"
    using Cons.prems by (cases rule: apply_command_cases[of tp c]) (auto dest: apply_inner_ok)
  then show ?case using Cons.IH by simp
qed simp

definition revival :: "controller_command list" where
  "revival = [two_shards, SetTabletState ''t1'' Retired,
     CreateTablet ''t2'' ''c1'' ''home'' 0 2 [] LocalQuorum, SetTabletState ''t1'' Active]"

lemma revival_shares_shards:
  "\<exists>s t. tab_at (foldl (\<lambda>tp c. fst (apply_command tp c)) topology_new revival) ''t1'' = Some s
    \<and> tab_at (foldl (\<lambda>tp c. fst (apply_command tp c)) topology_new revival) ''t2'' = Some t
    \<and> live s \<and> live t \<and> owns s 0 \<and> owns t 0"
proof -
  obtain tp1 where tp1: "fst (apply_command one_tablet (SetTabletState ''t1'' Retired)) = tp1"
      "\<exists>s. tablets tp1 = [(''t1'', s)] \<and> t_state s = Retired \<and> owns s 0"
    using one_tablet_tablets by (simp add: apply_command_def set_tablet_state_def tablet_mut_def put_tablet_def owns_def)
  then obtain s where s: "tablets tp1 = [(''t1'', s)]" "t_state s = Retired" "owns s 0" by blast
  obtain tp2 where tp2: "fst (apply_command tp1 (CreateTablet ''t2'' ''c1'' ''home'' 0 2 [] LocalQuorum)) = tp2"
      "\<exists>t. tablets tp2 = [(''t1'', s), (''t2'', t)] \<and> live t \<and> owns t 0"
    using s by (simp add: apply_command_def create_tablet_def bt_values_def check_policy_def put_tablet_def live_def owns_def)
  then obtain t where t: "tablets tp2 = [(''t1'', s), (''t2'', t)]" "live t" "owns t 0" by blast
  have "tablets (fst (apply_command tp2 (SetTabletState ''t1'' Active))) = [(''t1'', s\<lparr>t_state := Active\<rparr>), (''t2'', t)]"
    using s(2) by (simp add: apply_command_def set_tablet_state_def tablet_mut_def put_tablet_def t)
  then show ?thesis
    using t s tp1(1) tp2(1) by (simp add: revival_def one_tablet_def[symmetric] live_def owns_def)
qed

lemma moved_onto_itself:
  defines "c \<equiv> MoveReplica ''t1'' ''n1'' (voter_member ''n1'' ''a1'')"
  shows "generation (fst (apply_command (fst (apply_command one_tablet c)) c)) \<noteq> generation (fst (apply_command one_tablet c))"
  by (simp add: c_def apply_command_def move_replica_def tablet_mut_def one_tablet_at member_of_def voter_member_def)


end
