(* ===== verification/Directory.thy ===== *)
theory Directory
  imports Topology
begin

text \<open>
  The global project-to-cell directory and the copy a cell keeps of it,
  \<^verbatim>\<open>tallyowl-cluster/src/directory.rs\<close>. One definition models each arm of
  \<open>Directory::apply\<close>; the mutex of the cache guards one record, which is passed
  through the operations.
\<close>

type_synonym project_id = bytes

record placement =
  p_project_id :: project_id
  p_cells :: "name list"
  p_moving_to :: "name option"
  p_policy_generation :: nat

datatype directory_command =
    DirRegisterCell name string
  | AssignProject project_id "name list"
  | StartProjectMove project_id name
  | FinishProjectMove project_id
  | SetGlobalPolicyGeneration nat

datatype directory_message =
    NeedsOneCell
  | NoCellNamedRegister name
  | NoCellNamed name
  | ProjectNotAssigned
  | DirectoryNotAnswering

datatype directory_error =
    DirNotFound directory_message
  | DirRefused directory_message

record directory =
  dir_generation :: nat
  dir_policy_generation :: nat
  dir_cells :: "(name, string) btree"
  placements :: "(project_id, placement) btree"

definition directory_new :: directory where
  "directory_new = \<lparr>dir_generation = 0, dir_policy_generation = 0, dir_cells = [], placements = []\<rparr>"

definition placement_of :: "directory \<Rightarrow> project_id \<Rightarrow> placement option" where
  "placement_of dir p = bt_get (placements dir) p"

definition write_cell :: "directory \<Rightarrow> project_id \<Rightarrow> name option" where
  "write_cell dir p =
     (case bt_get (placements dir) p of
        None \<Rightarrow> None
      | Some pl \<Rightarrow> (case p_cells pl of [] \<Rightarrow> None | c # _ \<Rightarrow> Some c))"

section \<open>Commands\<close>

definition dir_register_cell :: "directory \<Rightarrow> name \<Rightarrow> string \<Rightarrow> directory_error + directory \<times> bool" where
  "dir_register_cell dir cl region =
     (if bt_get (dir_cells dir) cl = Some region then Inr (dir, False)
      else Inr (dir\<lparr>dir_cells := bt_insert cl region (dir_cells dir)\<rparr>, True))"

definition assign_project :: "directory \<Rightarrow> project_id \<Rightarrow> name list \<Rightarrow> directory_error + directory \<times> bool" where
  "assign_project dir p cls =
     (if cls = [] then Inl (DirRefused NeedsOneCell)
      else case find (\<lambda>c. bt_get (dir_cells dir) c = None) cls of
          Some unknown \<Rightarrow> Inl (DirNotFound (NoCellNamedRegister unknown))
        | None \<Rightarrow>
            let existing = bt_get (placements dir) p
            in if map_option p_cells existing = Some cls then Inr (dir, False)
               else Inr (dir\<lparr>placements := bt_insert p
                      \<lparr>p_project_id = p, p_cells = cls,
                       p_moving_to = Option.bind existing p_moving_to,
                       p_policy_generation = dir_policy_generation dir\<rparr> (placements dir)\<rparr>, True))"

definition start_project_move :: "directory \<Rightarrow> project_id \<Rightarrow> name \<Rightarrow> directory_error + directory \<times> bool" where
  "start_project_move dir p onto_cell =
     (if bt_get (dir_cells dir) onto_cell = None then Inl (DirNotFound (NoCellNamed onto_cell))
      else and_then (ok_or (bt_get (placements dir) p) (DirNotFound ProjectNotAssigned)) (\<lambda>pl.
        if p_moving_to pl = Some onto_cell then Inr (dir, False)
        else Inr (dir\<lparr>placements := bt_insert p (pl\<lparr>p_moving_to := Some onto_cell\<rparr>) (placements dir)\<rparr>, True)))"

definition finish_project_move :: "directory \<Rightarrow> project_id \<Rightarrow> directory_error + directory \<times> bool" where
  "finish_project_move dir p =
     and_then (ok_or (bt_get (placements dir) p) (DirNotFound ProjectNotAssigned)) (\<lambda>pl.
       case p_moving_to pl of
         None \<Rightarrow> Inr (dir, False)
       | Some target \<Rightarrow>
           Inr (dir\<lparr>placements := bt_insert p
             (pl\<lparr>p_moving_to := None, p_cells := target # filter (\<lambda>c. c \<noteq> target) (p_cells pl)\<rparr>)
             (placements dir)\<rparr>, True))"

definition set_policy_generation :: "directory \<Rightarrow> nat \<Rightarrow> directory_error + directory \<times> bool" where
  "set_policy_generation dir g =
     (if dir_policy_generation dir = g then Inr (dir, False)
      else Inr (dir\<lparr>dir_policy_generation := g\<rparr>, True))"

fun dir_apply_inner :: "directory \<Rightarrow> directory_command \<Rightarrow> directory_error + directory \<times> bool" where
  "dir_apply_inner dir (DirRegisterCell cl region) = dir_register_cell dir cl region"
| "dir_apply_inner dir (AssignProject p cls) = assign_project dir p cls"
| "dir_apply_inner dir (StartProjectMove p onto_cell) = start_project_move dir p onto_cell"
| "dir_apply_inner dir (FinishProjectMove p) = finish_project_move dir p"
| "dir_apply_inner dir (SetGlobalPolicyGeneration g) = set_policy_generation dir g"

definition dir_apply :: "directory \<Rightarrow> directory_command \<Rightarrow> directory \<times> (directory_error + nat)" where
  "dir_apply dir command =
     (case dir_apply_inner dir command of
        Inl e \<Rightarrow> (dir, Inl e)
      | Inr (dir, changed) \<Rightarrow>
          let dir = (if changed then dir\<lparr>dir_generation := dir_generation dir + 1\<rparr> else dir)
          in (dir, Inr (dir_generation dir)))"

section \<open>The cell's copy\<close>

record directory_cache =
  cached :: directory
  refreshed_at :: int
  reachable :: bool

definition cache_new :: directory_cache where
  "cache_new = \<lparr>cached = directory_new, refreshed_at = 0, reachable = False\<rparr>"

definition cache_refresh :: "directory_cache \<Rightarrow> directory \<Rightarrow> int \<Rightarrow> directory_cache" where
  "cache_refresh c dir at = c\<lparr>cached := dir, refreshed_at := at, reachable := True\<rparr>"

definition cache_unreachable :: "directory_cache \<Rightarrow> directory_cache" where
  "cache_unreachable c = c\<lparr>reachable := False\<rparr>"

definition cache_write_cell :: "directory_cache \<Rightarrow> project_id \<Rightarrow> name option" where
  "cache_write_cell c p = write_cell (cached c) p"

definition may_change_placement :: "directory_cache \<Rightarrow> directory_error + unit" where
  "may_change_placement c = (if reachable c then Inr () else Inl (DirRefused DirectoryNotAnswering))"

section \<open>Applying commands\<close>

lemmas dir_arms = dir_register_cell_def assign_project_def start_project_move_def finish_project_move_def
  set_policy_generation_def

lemma dir_inner_quiet: "dir_apply_inner dir c = Inr (dir', False) \<Longrightarrow> dir' = dir"
  by (cases c) (auto simp: dir_arms result_convs Let_def split: if_splits option.splits)

lemma dir_inner_generation: "dir_apply_inner dir c = Inr (dir', changed) \<Longrightarrow> dir_generation dir' = dir_generation dir"
  by (cases c) (auto simp: dir_arms result_convs Let_def split: if_splits option.splits)

lemma dir_inner_again:
  assumes "dir_apply_inner dir c = Inr (dir', True)"
  shows "dir_apply_inner (dir'\<lparr>dir_generation := g\<rparr>) c = Inr (dir'\<lparr>dir_generation := g\<rparr>, False)"
  using assms
  by (cases c) (auto simp: dir_arms and_then_def ok_or_def Let_def split: if_splits option.splits sum.splits)

lemma dir_apply_cases:
  obtains (refused) e where "dir_apply_inner dir c = Inl e" "dir_apply dir c = (dir, Inl e)"
  | (quiet) "dir_apply_inner dir c = Inr (dir, False)" "dir_apply dir c = (dir, Inr (dir_generation dir))"
  | (changed) dir' where "dir_apply_inner dir c = Inr (dir', True)"
      "dir_apply dir c = (dir'\<lparr>dir_generation := dir_generation dir + 1\<rparr>, Inr (dir_generation dir + 1))"
proof (cases "dir_apply_inner dir c")
  case (Inl e)
  then show thesis using refused by (simp add: dir_apply_def)
next
  case (Inr p)
  obtain dir' ch where p: "p = (dir', ch)" by fastforce
  show thesis
    using Inr p quiet changed dir_inner_quiet[of dir c dir'] dir_inner_generation[of dir c dir' ch]
    by (cases ch) (auto simp: dir_apply_def)
qed

interpretation directory: command_machine dir_apply dir_generation "\<lambda>_. True"
proof
  fix dir dir' :: directory and c e g
  show "dir_apply dir c = (dir', Inl e) \<Longrightarrow> dir' = dir"
    by (rule dir_apply_cases[of dir c]) auto
  show "dir_apply dir c = (dir', Inr g) \<Longrightarrow> g = dir_generation dir' \<and> (dir' = dir \<or> dir_generation dir' = dir_generation dir + 1)"
    by (rule dir_apply_cases[of dir c]) auto
  show "True \<Longrightarrow> fst (dir_apply (fst (dir_apply dir c)) c) = fst (dir_apply dir c)"
  proof (cases rule: dir_apply_cases[of dir c])
    case (changed d)
    then show ?thesis
      using dir_inner_again[OF changed(1), of "dir_generation dir + 1"] by (simp add: dir_apply_def)
  qed simp_all
qed

section \<open>Well-formedness\<close>

definition placement_ok :: "directory \<Rightarrow> project_id \<Rightarrow> placement \<Rightarrow> bool" where
  "placement_ok dir p pl \<longleftrightarrow> p_project_id pl = p \<and> p_cells pl \<noteq> []
     \<and> (\<forall>c \<in> set (p_cells pl). bt_get (dir_cells dir) c \<noteq> None)
     \<and> (\<forall>c. p_moving_to pl = Some c \<longrightarrow> bt_get (dir_cells dir) c \<noteq> None)"

definition directory_ok :: "directory \<Rightarrow> bool" where
  "directory_ok dir \<longleftrightarrow> bt_ok (dir_cells dir) \<and> bt_ok (placements dir)
     \<and> (\<forall>p pl. bt_get (placements dir) p = Some pl \<longrightarrow> placement_ok dir p pl)"

lemma dir_inner_ok:
  assumes "directory_ok dir" "dir_apply_inner dir c = Inr (dir', changed)"
  shows "directory_ok dir'"
proof (cases c)
  case (AssignProject p cls)
  then show ?thesis using assms
    by (fastforce simp: directory_ok_def placement_ok_def assign_project_def find_None_iff Let_def Option.bind_eq_Some_conv
        split: if_splits option.splits)
qed (use assms in \<open>auto simp: directory_ok_def placement_ok_def dir_register_cell_def start_project_move_def
    finish_project_move_def set_policy_generation_def result_convs split: if_splits option.splits\<close>)

lemma directory_ok_generation [simp]: "directory_ok (dir\<lparr>dir_generation := g\<rparr>) = directory_ok dir"
  by (simp add: directory_ok_def placement_ok_def)

lemma dir_apply_ok: "directory_ok dir \<Longrightarrow> directory_ok (fst (dir_apply dir c))"
  by (rule dir_apply_cases[of dir c]) (auto dest: dir_inner_ok)

lemma dir_replay_ok: "directory_ok dir \<Longrightarrow> directory_ok (foldl (\<lambda>d c. fst (dir_apply d c)) dir log)"
  by (induction log arbitrary: dir) (simp_all add: dir_apply_ok)

section \<open>Properties\<close>

lemma write_cell_registered:
  assumes "directory_ok dir" "bt_get (placements dir) p = Some pl"
  shows "\<exists>c. write_cell dir p = Some c \<and> bt_get (dir_cells dir) c \<noteq> None"
  using assms by (cases "p_cells pl") (auto simp: directory_ok_def placement_ok_def write_cell_def)

fun redirects :: "project_id \<Rightarrow> directory_command \<Rightarrow> bool" where
  "redirects p (AssignProject q _) = (p = q)"
| "redirects p (FinishProjectMove q) = (p = q)"
| "redirects p _ = False"

lemma write_cell_generation [simp]: "write_cell (dir\<lparr>dir_generation := g\<rparr>) p = write_cell dir p"
  by (simp add: write_cell_def)

lemma inner_keeps_write_cell:
  "dir_apply_inner dir c = Inr (dir', changed) \<Longrightarrow> \<not> redirects p c \<Longrightarrow> write_cell dir' p = write_cell dir p"
  by (cases c) (auto simp: dir_arms result_convs Let_def write_cell_def split: if_splits option.splits)

text \<open>C27: Every project that any log of commands placed has a write cell, and the write
  cell is registered, so a lookup never sends a write to a cell nobody knows.\<close>

theorem placed_project_has_write_cell:
  assumes "placement_of (foldl (\<lambda>d c. fst (dir_apply d c)) directory_new log) p = Some pl"
  shows "\<exists>c. write_cell (foldl (\<lambda>d c. fst (dir_apply d c)) directory_new log) p = Some c
    \<and> bt_get (dir_cells (foldl (\<lambda>d c. fst (dir_apply d c)) directory_new log)) c \<noteq> None"
  using assms write_cell_registered[OF dir_replay_ok[of directory_new log]]
  by (simp add: placement_of_def directory_ok_def directory_new_def)

definition placed_once :: "directory_command list" where
  "placed_once = [DirRegisterCell ''c1'' ''home'', DirRegisterCell ''c2'' ''away'', AssignProject [1] [''c1'']]"

lemma placed_once_result:
  "placement_of (foldl (\<lambda>d c. fst (dir_apply d c)) directory_new placed_once) [1]
     = Some \<lparr>p_project_id = [1], p_cells = [''c1''], p_moving_to = None, p_policy_generation = 0\<rparr>"
  by (simp add: placed_once_def dir_apply_def dir_arms directory_new_def placement_of_def)

theorem placed_project_has_write_cell_witness:
  "\<exists>c. write_cell (foldl (\<lambda>d c. fst (dir_apply d c)) directory_new placed_once) [1] = Some c"
  using placed_project_has_write_cell[OF placed_once_result] by blast

text \<open>A project moves in one step. No command changes where a project's writes go but
  a new assignment of that project and the end of its move; the end of a move puts the
  target first, exactly once, and keeps every other cell in order.\<close>

theorem project_moves_in_one_step:
  assumes "bt_get (placements dir) p = Some pl" and "p_moving_to pl = Some target"
  shows "(\<not> redirects p c \<longrightarrow> write_cell (fst (dir_apply dir c)) p = write_cell dir p)
    \<and> write_cell (fst (dir_apply dir (FinishProjectMove p))) p = Some target
    \<and> (\<exists>pl'. placement_of (fst (dir_apply dir (FinishProjectMove p))) p = Some pl' \<and> p_moving_to pl' = None
        \<and> count_list (p_cells pl') target = 1
        \<and> filter (\<lambda>c. c \<noteq> target) (p_cells pl') = filter (\<lambda>c. c \<noteq> target) (p_cells pl))"
proof (intro conjI impI)
  assume "\<not> redirects p c"
  then show "write_cell (fst (dir_apply dir c)) p = write_cell dir p"
    by (cases rule: dir_apply_cases[of dir c]) (auto dest: inner_keeps_write_cell)
next
  show "write_cell (fst (dir_apply dir (FinishProjectMove p))) p = Some target"
    using assms by (simp add: dir_apply_def finish_project_move_def write_cell_def)
  have "count_list (filter (\<lambda>c. c \<noteq> target) xs) target = 0" for xs
    by (induction xs) auto
  then show "\<exists>pl'. placement_of (fst (dir_apply dir (FinishProjectMove p))) p = Some pl' \<and> p_moving_to pl' = None
      \<and> count_list (p_cells pl') target = 1
      \<and> filter (\<lambda>c. c \<noteq> target) (p_cells pl') = filter (\<lambda>c. c \<noteq> target) (p_cells pl)"
    using assms by (simp add: dir_apply_def finish_project_move_def placement_of_def)
qed

theorem project_moves_in_one_step_witness:
  "write_cell (fst (dir_apply
     (foldl (\<lambda>d c. fst (dir_apply d c)) directory_new (placed_once @ [StartProjectMove [1] ''c2'']))
     (FinishProjectMove [1]))) [1] = Some ''c2''"
proof -
  let ?d = "foldl (\<lambda>d c. fst (dir_apply d c)) directory_new (placed_once @ [StartProjectMove [1] ''c2''])"
  have "bt_get (placements ?d) [1] = Some \<lparr>p_project_id = [1], p_cells = [''c1''], p_moving_to = Some ''c2'', p_policy_generation = 0\<rparr>"
    by (simp add: placed_once_def dir_apply_def dir_arms directory_new_def)
  from project_moves_in_one_step[OF this, of "''c2''" "FinishProjectMove [1]"] show ?thesis by simp
qed

text \<open>A directory command that is delivered again changes nothing, for every command
  and in any log.\<close>

theorem directory_redelivery:
  "foldl (\<lambda>d c. fst (dir_apply d c)) dir (concat (map (\<lambda>(c, n). replicate (Suc n) c) log))
    = foldl (\<lambda>d c. fst (dir_apply d c)) dir (map fst log)"
  using directory.replay_redelivered[of log dir] by (simp add: directory.replay_def)

end
