(* ===== verification/Routing.thy ===== *)
theory Routing
  imports Topology
begin

text \<open>
  Where a write belongs, \<^verbatim>\<open>tallyowl-cluster/src/routing.rs\<close>: the virtual shard of an
  affinity key, the route to the tablet that owns it, the fence a leader checks an
  incoming write against, and the gateway's cache of routes.

  The closure \<open>leader_of\<close> of the source is a parameter. The cache's two mutexes guard
  one record that is passed through its operations; its hash map is an association
  list, of which only lookups and the size are observed.
\<close>

datatype affinity = Trace | Session | Series | Event

definition affinity_key :: "affinity \<Rightarrow> bytes option \<Rightarrow> bytes option \<Rightarrow> bytes option \<Rightarrow> bytes \<Rightarrow> bytes" where
  "affinity_key a trace_id session_or_user series_id event_id =
     (let unwrap_or = \<lambda>k. case k of Some v \<Rightarrow> v | None \<Rightarrow> event_id
      in case a of
           Trace \<Rightarrow> unwrap_or trace_id
         | Session \<Rightarrow> unwrap_or session_or_user
         | Series \<Rightarrow> unwrap_or series_id
         | Event \<Rightarrow> event_id)"

definition shard_of :: "bytes \<Rightarrow> bytes \<Rightarrow> nat" where
  "shard_of project key =
     (let hash = foldl (\<lambda>hash byte. (hash XOR ucast byte) * 0x100000001b3)
            (0xcbf29ce484222325 :: u64) (project @ key)
      in unat (hash mod word_of_nat VIRTUAL_SHARDS))"

record route =
  r_cell :: name
  r_shard :: nat
  r_tablet :: name
  r_leader :: "name option"
  r_leader_address :: "string option"
  r_generation :: nat
  r_epoch :: nat
  r_receipt_policy :: receipt_policy
  r_write_region :: name

datatype route_error =
    NoOwner nat
  | NotWritable name nat

definition route_write ::
  "topology \<Rightarrow> bytes \<Rightarrow> bytes \<Rightarrow> (name \<Rightarrow> name option) \<Rightarrow> route_error + route" where
  "route_write tp project key leader_of =
     (let shard = shard_of project key
      in and_then (ok_or (owner_of tp shard) (NoOwner shard)) (\<lambda>t.
           if \<not> writable t then Inl (NotWritable (t_name t) shard)
           else let leader = leader_of (t_name t);
                    leader_address = map_option m_address (Option.bind leader (member_of t))
                in Inr \<lparr>r_cell = t_cell t, r_shard = shard, r_tablet = t_name t, r_leader = leader,
                     r_leader_address = leader_address, r_generation = generation tp,
                     r_epoch = t_epoch t, r_receipt_policy = t_receipt_policy t,
                     r_write_region = t_write_region t\<rparr>))"

datatype fence_reason =
    UnknownTablet name
  | MovedRegion name name nat nat
  | OtherRegion name name name
  | NoLongerAccepts name

datatype fence =
    Current
  | Redirect nat fence_reason
  | Fenced nat name fence_reason

definition check_fence :: "topology \<Rightarrow> name \<Rightarrow> nat \<Rightarrow> nat \<Rightarrow> name option \<Rightarrow> fence" where
  "check_fence tp tab carried_generation carried_epoch writer_region =
     (case tablet_named tp tab of
        None \<Rightarrow> Redirect (generation tp) (UnknownTablet tab)
      | Some found \<Rightarrow>
          if carried_epoch < t_epoch found
          then Fenced (t_epoch found) (t_write_region found)
                 (MovedRegion tab (t_write_region found) (t_epoch found) carried_epoch)
          else if (case writer_region of Some region \<Rightarrow> region \<noteq> t_write_region found | None \<Rightarrow> False)
          then Fenced (t_epoch found) (t_write_region found)
                 (OtherRegion tab (t_write_region found) (the writer_region))
          else if carried_generation < generation tp \<and> carried_generation \<noteq> 0 \<and> \<not> writable found
          then Redirect (generation tp) (NoLongerAccepts tab)
          else Current)"

section \<open>The gateway's cache\<close>

record route_cache =
  held :: nat
  routes :: "(nat, route) btree"

definition route_cache_new :: route_cache where
  "route_cache_new = \<lparr>held = 0, routes = []\<rparr>"

definition route_cache_get :: "route_cache \<Rightarrow> nat \<Rightarrow> route option" where
  "route_cache_get c shard = bt_get (routes c) shard"

definition route_cache_put :: "route_cache \<Rightarrow> route \<Rightarrow> route_cache" where
  "route_cache_put c r =
     (let c = (if held c < r_generation r then c\<lparr>routes := [], held := r_generation r\<rparr> else c)
      in if held c \<le> r_generation r then c\<lparr>routes := bt_insert (r_shard r) r (routes c)\<rparr> else c)"

definition invalidate_before :: "route_cache \<Rightarrow> nat \<Rightarrow> route_cache" where
  "invalidate_before c g = (if held c < g then c\<lparr>held := g, routes := []\<rparr> else c)"

definition route_cache_len :: "route_cache \<Rightarrow> nat" where
  "route_cache_len c = length (routes c)"

section \<open>Shards and routes\<close>

lemma shard_of_bound: "shard_of project key < VIRTUAL_SHARDS"
  unfolding shard_of_def Let_def VIRTUAL_SHARDS_def by (simp add: unat_mod)

lemma route_write_Inr:
  assumes "route_write tp project key leader_of = Inr r"
  obtains t where "owner_of tp (shard_of project key) = Some t" "writable t" "r_tablet r = t_name t"
    "r_generation r = generation tp" "r_epoch r = t_epoch t" "r_shard r = shard_of project key"
    "r_write_region r = t_write_region t"
    "r_leader_address r = map_option m_address (Option.bind (r_leader r) (member_of t))"
  using assms by (auto simp: route_write_def result_convs Let_def split: if_splits)

lemma writable_live: "writable t \<Longrightarrow> live t"
  by (cases "t_state t") (auto simp: writable_def live_def)

section \<open>Cached routes\<close>

definition route_cache_ok :: "route_cache \<Rightarrow> bool" where
  "route_cache_ok c \<longleftrightarrow> (\<forall>shard r. bt_get (routes c) shard = Some r \<longrightarrow> r_generation r = held c \<and> r_shard r = shard)"

datatype cache_op = Put route | Invalidate nat

fun cache_step :: "route_cache \<Rightarrow> cache_op \<Rightarrow> route_cache" where
  "cache_step c (Put r) = route_cache_put c r"
| "cache_step c (Invalidate g) = invalidate_before c g"

lemma cache_step_ok: "route_cache_ok c \<Longrightarrow> route_cache_ok (cache_step c op)"
  by (cases op) (auto simp: route_cache_ok_def route_cache_put_def invalidate_before_def Let_def split: if_splits)

lemma cache_step_held: "held c \<le> held (cache_step c op)"
  by (cases op) (auto simp: route_cache_put_def invalidate_before_def Let_def)

lemma cache_run: "route_cache_ok c \<Longrightarrow> route_cache_ok (foldl cache_step c ops) \<and> held c \<le> held (foldl cache_step c ops)"
proof (induction ops arbitrary: c)
  case (Cons op ops)
  then show ?case using Cons.IH[OF cache_step_ok[OF Cons.prems, of op]] cache_step_held[of c op] by simp
qed simp

lemma cache_held_at_least:
  "op \<in> set ops \<Longrightarrow> op = Invalidate g \<or> (op = Put r \<and> r_generation r = g) \<Longrightarrow> g \<le> held (foldl cache_step c ops)"
proof (induction ops arbitrary: c)
  case (Cons op' ops)
  have mono: "held (cache_step c op') \<le> held (foldl cache_step (cache_step c op') ops)"
    for c by (induction ops rule: rev_induct) (auto intro: order_trans cache_step_held)
  show ?case
  proof (cases "op = op'")
    case True
    then have "g \<le> held (cache_step c op')"
      using Cons.prems(2) by (auto simp: route_cache_put_def invalidate_before_def Let_def)
    then show ?thesis using mono[of c] by simp
  qed (use Cons in auto)
qed simp

section \<open>Properties\<close>


definition whole_cell :: controller_command where
  "whole_cell = CreateTablet ''t1'' ''c1'' ''home'' 0 4096 [voter_member ''n1'' ''a1''] LocalOne"

definition whole_tablet :: tablet where
  "whole_tablet = \<lparr>t_name = ''t1'', t_cell = ''c1'', t_write_region = ''home'', t_epoch = 1,
      t_state = Active, t_shard_start = 0, t_shard_end = 4096, t_members = [voter_member ''n1'' ''a1''],
      t_receipt_policy = LocalOne, t_degraded = None\<rparr>"

lemma whole_cell_reached: "reached (fst (apply_command topology_new whole_cell))"
  by (rule reached.step[OF reached.start]) (simp add: whole_cell_def)

lemma whole_cell_map:
  "tablets (fst (apply_command topology_new whole_cell)) = [(''t1'', whole_tablet)]"
  "generation (fst (apply_command topology_new whole_cell)) = 1"
  by (simp_all add: apply_command_def whole_cell_def whole_tablet_def create_tablet_def topology_new_def bt_values_def
      check_policy_def voter_member_def is_voter_def put_tablet_def)

lemma whole_cell_owner: "owner_of (fst (apply_command topology_new whole_cell)) (shard_of p k) = Some whole_tablet"
  using shard_of_bound[of p k]
  by (simp add: owner_of_def whole_cell_map bt_values_def whole_tablet_def owns_def writable_def VIRTUAL_SHARDS_def)



definition two_regions :: topology where
  "two_regions = fst (apply_command topology_new (CreateTablet ''t1'' ''c1'' ''home'' 0 4096
     [voter_member ''n1'' ''a1'', member_in_region (voter_member ''n2'' ''a2'') ''away''] LocalQuorum))"


text \<open>C29: The cache never serves a route older than a generation it was told of: after any
  sequence of insertions and invalidations, a cached route is filed under its own shard
  and is at least as new as every generation that appeared in the sequence.\<close>

theorem route_cache_never_stale:
  assumes "route_cache_get (foldl cache_step route_cache_new ops) shard = Some r"
    and "Invalidate g \<in> set ops \<or> (\<exists>q. Put q \<in> set ops \<and> r_generation q = g)"
  shows "r_shard r = shard \<and> g \<le> r_generation r"
proof -
  have "route_cache_ok route_cache_new" by (simp add: route_cache_ok_def route_cache_new_def)
  then have "route_cache_ok (foldl cache_step route_cache_new ops)" using cache_run by blast
  then show ?thesis
    using assms cache_held_at_least[of _ ops g] by (auto simp: route_cache_ok_def route_cache_get_def)
qed

definition toy_route :: "nat \<Rightarrow> route" where
  "toy_route g = \<lparr>r_cell = ''c1'', r_shard = 7, r_tablet = ''t1'', r_leader = None, r_leader_address = None,
     r_generation = g, r_epoch = 1, r_receipt_policy = LocalOne, r_write_region = ''home''\<rparr>"

theorem route_cache_never_stale_witness:
  "route_cache_get (foldl cache_step route_cache_new [Put (toy_route 3), Invalidate 5, Put (toy_route 4), Put (toy_route 6)]) 7
     = Some (toy_route 6) \<and> 5 \<le> r_generation (toy_route 6)"
proof -
  have g: "route_cache_get (foldl cache_step route_cache_new [Put (toy_route 3), Invalidate 5, Put (toy_route 4), Put (toy_route 6)]) 7
      = Some (toy_route 6)"
    by (simp add: route_cache_get_def route_cache_put_def invalidate_before_def route_cache_new_def toy_route_def)
  then show ?thesis using route_cache_never_stale[OF g, of 5] by simp
qed




end
