(* ===== verification/Tally_Error.thy ===== *)
theory Tally_Error
  imports Prelude
begin

text \<open>
  The error codes every boundary of the system speaks, \<^verbatim>\<open>tallyowl-obs/src/error.rs\<close>. The
  message type is a parameter: each component has a datatype of its messages, one
  constructor for each place that writes one.
\<close>

datatype error_code =
    InvalidArgument | Unauthenticated | PermissionDenied | CodeNotFound | AlreadyExists | ResourceExhausted
  | FailedPrecondition | Unavailable | SchemaUnsupported | BudgetExceeded | IncompleteResult | Internal

fun code_as_str :: "error_code \<Rightarrow> string" where
  "code_as_str InvalidArgument = ''invalid-argument''"
| "code_as_str Unauthenticated = ''unauthenticated''"
| "code_as_str PermissionDenied = ''permission-denied''"
| "code_as_str CodeNotFound = ''not-found''"
| "code_as_str AlreadyExists = ''already-exists''"
| "code_as_str ResourceExhausted = ''resource-exhausted''"
| "code_as_str FailedPrecondition = ''failed-precondition''"
| "code_as_str Unavailable = ''unavailable''"
| "code_as_str SchemaUnsupported = ''schema-unsupported''"
| "code_as_str BudgetExceeded = ''budget-exceeded''"
| "code_as_str IncompleteResult = ''incomplete-result''"
| "code_as_str Internal = ''internal''"

definition code_parse :: "string \<Rightarrow> error_code option" where
  "code_parse t =
     (if t = ''invalid-argument'' then Some InvalidArgument
      else if t = ''unauthenticated'' then Some Unauthenticated
      else if t = ''permission-denied'' then Some PermissionDenied
      else if t = ''not-found'' then Some CodeNotFound
      else if t = ''already-exists'' then Some AlreadyExists
      else if t = ''resource-exhausted'' then Some ResourceExhausted
      else if t = ''failed-precondition'' then Some FailedPrecondition
      else if t = ''unavailable'' then Some Unavailable
      else if t = ''schema-unsupported'' then Some SchemaUnsupported
      else if t = ''budget-exceeded'' then Some BudgetExceeded
      else if t = ''incomplete-result'' then Some IncompleteResult
      else if t = ''internal'' then Some Internal
      else None)"

fun retryable_by_default :: "error_code \<Rightarrow> bool" where
  "retryable_by_default Unavailable = True"
| "retryable_by_default ResourceExhausted = True"
| "retryable_by_default Internal = True"
| "retryable_by_default _ = False"

record 'm tally_error =
  e_code :: error_code
  e_message :: 'm
  e_retryable :: bool
  e_detail :: "(string \<times> string) list"

definition new_error :: "error_code \<Rightarrow> 'm \<Rightarrow> 'm tally_error" where
  "new_error code message =
     \<lparr>e_code = code, e_message = message, e_retryable = retryable_by_default code, e_detail = []\<rparr>"

definition set_retryable :: "'m tally_error \<Rightarrow> bool \<Rightarrow> 'm tally_error" where
  "set_retryable e r = e\<lparr>e_retryable := r\<rparr>"

definition with_detail :: "'m tally_error \<Rightarrow> string \<Rightarrow> string \<Rightarrow> 'm tally_error" where
  "with_detail e k v = e\<lparr>e_detail := e_detail e @ [(k, v)]\<rparr>"

lemma code_parse_as_str [simp]: "code_parse (code_as_str c) = Some c"
  by (cases c) (simp_all add: code_parse_def)

lemma code_parse_Some: "code_parse t = Some c \<Longrightarrow> code_as_str c = t"
  by (auto simp: code_parse_def split: if_splits)

end
