(* ===== verification/Movement.thy ===== *)
theory Movement
  imports Topology Tally_Error
begin

text \<open>
  Moving a tablet, \<^verbatim>\<open>tallyowl-cluster/src/movement.rs\<close>: the stage machine that copies the
  segments, catches up the log, and publishes the placement change only after the copy
  is proved. BLAKE3 is the parameter \<open>blake3\<close>; no law of it is used, so what is proved is
  that the digest was recomputed over the bytes that arrived.
\<close>

record segment_copy =
  s_segment_id :: string
  s_total_bytes :: nat
  s_digest :: bytes

datatype stage = Planned | CopyingSegments | CatchingUp | Verified | Published | Finished | Stopped

datatype verification = Expected | Proved | Failed

datatype movement_message =
    NoReason
  | NotIntact string name
  | WrongLength string nat nat
  | StoppedUnexplained
  | NotProvedYet name name nat nat nat nat
  | FinishBeforePublish

record movement =
  v_tablet :: name
  v_away_from :: name
  v_onto :: member
  v_stage :: stage
  v_segments :: "(string, verification) btree"
  v_catch_up_to :: nat
  v_target_applied :: nat
  v_stopped_because :: "movement_message option"

definition plan_move :: "name \<Rightarrow> name \<Rightarrow> member \<Rightarrow> segment_copy list \<Rightarrow> nat \<Rightarrow> movement" where
  "plan_move tab away_from onto segments catch_up_to =
     \<lparr>v_tablet = tab, v_away_from = away_from, v_onto = onto, v_stage = Planned,
      v_segments = foldl (\<lambda>m s. bt_insert (s_segment_id s) Expected m) [] segments,
      v_catch_up_to = catch_up_to, v_target_applied = 0, v_stopped_because = None\<rparr>"

definition start_move :: "movement \<Rightarrow> movement" where
  "start_move v =
     (if v_stage v = Planned
      then v\<lparr>v_stage := (if v_segments v = [] then CatchingUp else CopyingSegments)\<rparr>
      else v)"

definition stop_move :: "movement \<Rightarrow> movement_message \<Rightarrow> movement" where
  "stop_move v because = v\<lparr>v_stage := Stopped, v_stopped_because := Some because\<rparr>"

definition every_segment_proved :: "movement \<Rightarrow> bool" where
  "every_segment_proved v = list_all (\<lambda>x. x = Proved) (bt_values (v_segments v))"

definition proved_segments :: "movement \<Rightarrow> nat" where
  "proved_segments v = length (filter (\<lambda>x. x = Proved) (bt_values (v_segments v)))"

definition segment_count :: "movement \<Rightarrow> nat" where
  "segment_count v = length (v_segments v)"

definition set_verification :: "movement \<Rightarrow> string \<Rightarrow> verification \<Rightarrow> movement" where
  "set_verification v k x = v\<lparr>v_segments := bt_insert k x (v_segments v)\<rparr>"

definition because_or_default :: "movement \<Rightarrow> movement_message" where
  "because_or_default v = (case v_stopped_because v of Some m \<Rightarrow> m | None \<Rightarrow> NoReason)"

definition segment_arrived ::
  "(bytes \<Rightarrow> bytes) \<Rightarrow> movement \<Rightarrow> segment_copy \<Rightarrow> bytes \<Rightarrow> movement \<times> (movement_message tally_error + unit)" where
  "segment_arrived blake3 v segment received =
     (let actual = blake3 received
      in if actual \<noteq> s_digest segment then
           let v = set_verification v (s_segment_id segment) Failed;
               v = stop_move v (NotIntact (s_segment_id segment) (v_away_from v))
           in (v, Inl (new_error Internal (because_or_default v)))
         else if length received \<noteq> s_total_bytes segment then
           let v = set_verification v (s_segment_id segment) Failed;
               v = stop_move v (WrongLength (s_segment_id segment) (length received) (s_total_bytes segment))
           in (v, Inl (new_error Internal (because_or_default v)))
         else
           let v = set_verification v (s_segment_id segment) Proved;
               v = (if every_segment_proved v \<and> v_stage v = CopyingSegments then v\<lparr>v_stage := CatchingUp\<rparr> else v)
           in (v, Inr ()))"

definition caught_up_to :: "movement \<Rightarrow> nat \<Rightarrow> movement" where
  "caught_up_to v applied =
     (let v = v\<lparr>v_target_applied := applied\<rparr>
      in if v_stage v = CatchingUp \<and> v_catch_up_to v \<le> applied then v\<lparr>v_stage := Verified\<rparr> else v)"

definition publish :: "movement \<Rightarrow> movement \<times> (movement_message tally_error + controller_command list)" where
  "publish v =
     (case v_stage v of
        Verified \<Rightarrow>
          (v\<lparr>v_stage := Published\<rparr>,
           Inr [MoveReplica (v_tablet v) (v_away_from v) (v_onto v), SetTabletState (v_tablet v) Active])
      | Stopped \<Rightarrow>
          (v, Inl (new_error FailedPrecondition
             (case v_stopped_because v of Some m \<Rightarrow> m | None \<Rightarrow> StoppedUnexplained)))
      | _ \<Rightarrow>
          (v, Inl (new_error FailedPrecondition
             (NotProvedYet (v_tablet v) (m_node (v_onto v)) (proved_segments v) (segment_count v)
                (v_target_applied v) (v_catch_up_to v)))))"

definition finish_move :: "movement \<Rightarrow> movement \<times> (movement_message tally_error + unit)" where
  "finish_move v =
     (if v_stage v \<noteq> Published then (v, Inl (new_error FailedPrecondition FinishBeforePublish))
      else (v\<lparr>v_stage := Finished\<rparr>, Inr ()))"

section \<open>Runs\<close>

text \<open>Any order of calls on one movement.\<close>

datatype move_op =
    Start
  | Arrived segment_copy bytes
  | CaughtUp nat
  | Publish
  | Finish

fun move_step :: "(bytes \<Rightarrow> bytes) \<Rightarrow> movement \<Rightarrow> move_op \<Rightarrow> movement" where
  "move_step h v Start = start_move v"
| "move_step h v (Arrived s bs) = fst (segment_arrived h v s bs)"
| "move_step h v (CaughtUp n) = caught_up_to v n"
| "move_step h v Publish = fst (publish v)"
| "move_step h v Finish = fst (finish_move v)"

definition proven_by :: "(bytes \<Rightarrow> bytes) \<Rightarrow> move_op list \<Rightarrow> string \<Rightarrow> bool" where
  "proven_by h ops k \<longleftrightarrow> (\<exists>s bs. Arrived s bs \<in> set ops \<and> s_segment_id s = k
     \<and> h bs = s_digest s \<and> length bs = s_total_bytes s)"

definition past_copy :: "stage \<Rightarrow> bool" where
  "past_copy st \<longleftrightarrow> st \<in> {CatchingUp, Verified, Published, Finished}"

definition past_catch_up :: "stage \<Rightarrow> bool" where
  "past_catch_up st \<longleftrightarrow> st \<in> {Verified, Published, Finished}"

text \<open>
  What holds after a sequence of calls: the planned segments are still listed, a proved
  segment was proved by bytes that arrived, and the stages after the copy and after the
  catch-up are reached only with every segment proved and the position reached.
\<close>

definition move_inv :: "(bytes \<Rightarrow> bytes) \<Rightarrow> movement \<Rightarrow> move_op list \<Rightarrow> movement \<Rightarrow> bool" where
  "move_inv h v0 ops v \<longleftrightarrow>
     v_tablet v = v_tablet v0 \<and> v_away_from v = v_away_from v0 \<and> v_onto v = v_onto v0
     \<and> v_catch_up_to v = v_catch_up_to v0
     \<and> dom (bt_get (v_segments v0)) \<subseteq> dom (bt_get (v_segments v)) \<and> bt_ok (v_segments v)
     \<and> (\<forall>k. bt_get (v_segments v) k = Some Proved \<longrightarrow> proven_by h ops k)
     \<and> (past_copy (v_stage v) \<longrightarrow> (\<forall>k x. bt_get (v_segments v) k = Some x \<longrightarrow> x = Proved))
     \<and> (past_catch_up (v_stage v) \<longrightarrow> (\<exists>n \<ge> v_catch_up_to v. CaughtUp n \<in> set ops))"

lemma every_segment_proved_iff:
  "bt_ok (v_segments v) \<Longrightarrow> every_segment_proved v \<longleftrightarrow> (\<forall>k x. bt_get (v_segments v) k = Some x \<longrightarrow> x = Proved)"
  by (auto simp: every_segment_proved_def list_all_iff in_bt_values)

lemma proven_by_mono: "proven_by h ops k \<Longrightarrow> proven_by h (ops @ ops') k"
  by (auto simp: proven_by_def)

lemma move_inv_mono: "move_inv h v0 ops v \<Longrightarrow> move_inv h v0 (ops @ ops') v"
  unfolding move_inv_def using proven_by_mono by fastforce

text \<open>Changes of the stage alone, and of one segment's entry.\<close>

lemma move_inv_stage:
  assumes "move_inv h v0 ops v"
    and "past_copy st \<Longrightarrow> past_copy (v_stage v) \<or> (\<forall>k x. bt_get (v_segments v) k = Some x \<longrightarrow> x = Proved)"
    and "past_catch_up st \<Longrightarrow> past_catch_up (v_stage v) \<or> (\<exists>n \<ge> v_catch_up_to v. CaughtUp n \<in> set ops)"
  shows "move_inv h v0 ops (v\<lparr>v_stage := st\<rparr>)"
proof -
  have "past_copy st \<longrightarrow> (\<forall>k x. bt_get (v_segments v) k = Some x \<longrightarrow> x = Proved)"
    using assms(1,2) unfolding move_inv_def by meson
  moreover have "past_catch_up st \<longrightarrow> (\<exists>n \<ge> v_catch_up_to v. CaughtUp n \<in> set ops)"
    using assms(1,3) unfolding move_inv_def by meson
  ultimately show ?thesis using assms(1) by (simp add: move_inv_def)
qed

lemma move_inv_applied: "move_inv h v0 ops (v\<lparr>v_target_applied := n\<rparr>) = move_inv h v0 ops v"
  by (simp add: move_inv_def)

lemma move_inv_because: "move_inv h v0 ops (v\<lparr>v_stopped_because := b\<rparr>) = move_inv h v0 ops v"
  by (simp add: move_inv_def)

lemma move_inv_proved:
  assumes "move_inv h v0 ops v" "proven_by h ops k"
  shows "move_inv h v0 ops (set_verification v k Proved)"
  using assms unfolding move_inv_def set_verification_def by (auto split: if_splits)

lemma move_inv_failed:
  assumes "move_inv h v0 ops v"
  shows "move_inv h v0 ops (stop_move (set_verification v k Failed) why)"
  using assms unfolding move_inv_def set_verification_def stop_move_def
  by (auto simp: past_copy_def past_catch_up_def split: if_splits)

lemma move_inv_arrived:
  assumes "move_inv h v0 ops v" "Arrived s bs \<in> set ops"
  shows "move_inv h v0 ops (fst (segment_arrived h v s bs))"
proof (cases "h bs = s_digest s \<and> length bs = s_total_bytes s")
  case False
  then show ?thesis
    using move_inv_failed[OF assms(1)] by (auto simp: segment_arrived_def Let_def)
next
  case True
  let ?v = "set_verification v (s_segment_id s) Proved"
  have inv: "move_inv h v0 ops ?v"
    using True assms(2) by (intro move_inv_proved[OF assms(1)]) (auto simp: proven_by_def)
  then have "bt_ok (v_segments ?v)" by (simp add: move_inv_def)
  then have "move_inv h v0 ops (?v\<lparr>v_stage := CatchingUp\<rparr>)" if "every_segment_proved ?v"
    using that by (intro move_inv_stage[OF inv]) (simp_all add: every_segment_proved_iff past_catch_up_def)
  then show ?thesis using inv True by (simp add: segment_arrived_def Let_def)
qed

lemma move_inv_step:
  assumes "move_inv h v0 ops v"
  shows "move_inv h v0 (ops @ [op]) (move_step h v op)"
proof -
  note i = move_inv_mono[OF assms, of "[op]"]
  show ?thesis
  proof (cases op)
    case (Arrived s bs)
    then show ?thesis using move_inv_arrived[OF i, of s bs] by simp
  next
    case (CaughtUp n)
    then have "move_inv h v0 (ops @ [op]) (v\<lparr>v_target_applied := n, v_stage := Verified\<rparr>)"
      if "v_stage v = CatchingUp" "v_catch_up_to v \<le> n"
      using that i by (intro move_inv_stage) (auto simp: move_inv_applied past_copy_def)
    then show ?thesis using CaughtUp i by (simp add: caught_up_to_def move_inv_applied Let_def)
  next
    case Start
    then show ?thesis using i by (auto simp: start_move_def past_copy_def past_catch_up_def intro!: move_inv_stage)
  next
    case Publish
    then show ?thesis
      using i by (auto simp: publish_def past_copy_def past_catch_up_def intro!: move_inv_stage split: stage.splits)
  next
    case Finish
    then show ?thesis using i by (auto simp: finish_move_def past_copy_def past_catch_up_def intro!: move_inv_stage)
  qed
qed

lemma move_inv_run: "move_inv h v0 ops0 v \<Longrightarrow> move_inv h v0 (ops0 @ ops) (foldl (move_step h) v ops)"
proof (induction ops arbitrary: ops0 v)
  case (Cons op ops)
  then show ?case using Cons.IH[OF move_inv_step[OF Cons.prems, of op]] by simp
qed simp

lemma bt_ok_expected: "bt_ok m \<Longrightarrow> bt_ok (foldl (\<lambda>m s. bt_insert (f s) x m) m ss)"
  by (induction ss arbitrary: m) auto

lemma expected_lookup:
  "bt_get (foldl (\<lambda>m s. bt_insert (f s) x m) m ss) k = (if k \<in> f ` set ss then Some x else bt_get m k)"
  by (induction ss arbitrary: m) auto

lemma move_inv_plan: "move_inv h (plan_move tab away onto segments goal) [] (plan_move tab away onto segments goal)"
  by (auto simp: move_inv_def plan_move_def bt_ok_expected expected_lookup past_copy_def past_catch_up_def split: if_splits)

lemma stopped_stays: "v_stage v = Stopped \<Longrightarrow> v_stage (foldl (move_step h) v ops) = Stopped"
proof (induction ops arbitrary: v)
  case (Cons op ops)
  have "v_stage (move_step h v op) = Stopped"
    using Cons.prems
    by (cases op) (auto simp: start_move_def segment_arrived_def set_verification_def stop_move_def caught_up_to_def
        publish_def finish_move_def Let_def)
  then show ?case using Cons.IH by simp
qed simp

section \<open>Properties\<close>



text \<open>A segment that did not arrive as announced ends the movement for good: the move is
  stopped with an internal error, and no later call publishes it.\<close>

theorem damaged_segment_stops_move:
  assumes "blake3 bs \<noteq> s_digest s \<or> length bs \<noteq> s_total_bytes s"
  shows "(\<exists>e. snd (segment_arrived blake3 v s bs) = Inl e \<and> e_code e = Internal)
    \<and> (\<exists>e. snd (publish (foldl (move_step blake3) (fst (segment_arrived blake3 v s bs)) ops)) = Inl e)"
proof -
  have "v_stage (fst (segment_arrived blake3 v s bs)) = Stopped"
    using assms by (auto simp: segment_arrived_def stop_move_def Let_def)
  from stopped_stays[OF this] have "\<exists>e. snd (publish (foldl (move_step blake3) (fst (segment_arrived blake3 v s bs)) ops)) = Inl e"
    by (simp add: publish_def)
  moreover have "\<exists>e. snd (segment_arrived blake3 v s bs) = Inl e \<and> e_code e = Internal"
    using assms by (auto simp: segment_arrived_def new_error_def Let_def)
  ultimately show ?thesis by blast
qed

theorem damaged_segment_stops_move_witness:
  "\<exists>e. snd (publish (foldl (move_step id) (fst (segment_arrived id (plan_move ''t1'' ''n1'' (voter_member ''n2'' ''a2'') [] 5)
       \<lparr>s_segment_id = ''s1'', s_total_bytes = 2, s_digest = [7, 8]\<rparr> [7])) [Start, CaughtUp 9])) = Inl e"
  using damaged_segment_stops_move[of id "[7]" "\<lparr>s_segment_id = ''s1'', s_total_bytes = 2, s_digest = [7, 8]\<rparr>"
    "plan_move ''t1'' ''n1'' (voter_member ''n2'' ''a2'') [] 5" "[Start, CaughtUp 9]"] by simp

end
