(* ===== verification/Cluster_Query.thy ===== *)
theory Cluster_Query
  imports Topology Tally_Error "HOL-Library.Multiset"
begin

text \<open>
  Planning a query over the tablets of a cell and merging their answers,
  \<^verbatim>\<open>tallyowl-cluster/src/query.rs\<close>. The rows an answer carries are only moved, so their
  type is a parameter. Counts, watermarks and byte totals are natural numbers: their
  sums stay far below the 64 bits the code keeps them in.
\<close>

datatype consistency = Committed | BoundedStale int

datatype partial_kind =
    Count
  | Trend int
  | Rows nat
  | Lookup string bytes
  | Aggregate bytes

fun moves_rows :: "partial_kind \<Rightarrow> bool" where
  "moves_rows (Rows _) = True"
| "moves_rows (Lookup _ _) = True"
| "moves_rows _ = False"

fun kind_as_str :: "partial_kind \<Rightarrow> string" where
  "kind_as_str Count = ''count''"
| "kind_as_str (Trend _) = ''trend''"
| "kind_as_str (Rows _) = ''rows''"
| "kind_as_str (Lookup _ _) = ''lookup''"
| "kind_as_str (Aggregate _) = ''aggregate''"

record plan =
  q_project_id :: bytes
  q_range_start :: int
  q_range_end :: int
  q_basis :: time_basis
  q_kind :: partial_kind
  q_event_name :: "string option"
  q_consistency :: consistency
  q_require_watermark :: nat
  q_allow_partial :: bool
  q_tablets :: "name list"
  q_generation :: nat

definition DEFAULT_MAX_FAN_OUT :: nat where
  "DEFAULT_MAX_FAN_OUT = 256"

datatype query_message =
    TooManyTablets nat nat
  | WouldBeSmaller "name list"
  | NotAVoter
  | BehindWatermark nat nat
  | TooStale int int

definition make_plan ::
  "topology \<Rightarrow> bytes \<Rightarrow> int \<Rightarrow> int \<Rightarrow> time_basis \<Rightarrow> partial_kind \<Rightarrow> string option \<Rightarrow> consistency \<Rightarrow> bool \<Rightarrow> nat
    \<Rightarrow> query_message tally_error + plan" where
  "make_plan tp project range_start range_end basis kind event_name cons allow_partial max_fan_out =
     (let tabs = map t_name (readable_tablets tp)
      in if max_fan_out < length tabs
         then Inl (new_error BudgetExceeded (TooManyTablets (length tabs) max_fan_out))
         else Inr \<lparr>q_project_id = project, q_range_start = range_start, q_range_end = range_end,
                q_basis = basis, q_kind = kind, q_event_name = event_name, q_consistency = cons,
                q_require_watermark = 0, q_allow_partial = allow_partial, q_tablets = tabs,
                q_generation = generation tp\<rparr>)"

record missing_range =
  mr_tablet :: name
  mr_range_start :: int
  mr_range_end :: int

record 'r partial =
  a_tablet :: name
  a_commit_watermark :: nat
  a_freshness_ms :: int
  a_complete :: bool
  a_missing :: "missing_range list"
  a_count :: nat
  a_buckets :: "(int, nat) btree"
  a_rows :: "'r list"
  a_aggregate_state :: "bytes option"
  a_scanned_segments :: nat
  a_scanned_bytes :: nat
  a_degraded :: bool

definition for_tablet :: "name \<Rightarrow> 'r partial" where
  "for_tablet tab =
     \<lparr>a_tablet = tab, a_commit_watermark = 0, a_freshness_ms = 0, a_complete = True, a_missing = [],
      a_count = 0, a_buckets = [], a_rows = [], a_aggregate_state = None, a_scanned_segments = 0,
      a_scanned_bytes = 0, a_degraded = False\<rparr>"

definition unavailable :: "name \<Rightarrow> int \<Rightarrow> int \<Rightarrow> 'r partial" where
  "unavailable tab range_start range_end =
     (for_tablet tab)\<lparr>a_complete := False,
       a_missing := [\<lparr>mr_tablet = tab, mr_range_start = range_start, mr_range_end = range_end\<rparr>]\<rparr>"

datatype merge_warning =
    RowsNotUsed name string
  | DegradedRange name
  | PartialAnswer nat nat

record 'r merged =
  g_count :: nat
  g_buckets :: "(int \<times> nat) list"
  g_rows :: "'r list"
  g_aggregate_states :: "bytes list"
  g_commit_watermark :: nat
  g_freshness_ms :: int
  g_complete :: bool
  g_missing :: "missing_range list"
  g_scanned_segments :: nat
  g_scanned_bytes :: nat
  g_degraded :: bool
  g_warnings :: "merge_warning list"

definition merge_start :: "'r merged" where
  "merge_start =
     \<lparr>g_count = 0, g_buckets = [], g_rows = [], g_aggregate_states = [],
      g_commit_watermark = 2 ^ 64 - 1, g_freshness_ms = 0, g_complete = True, g_missing = [],
      g_scanned_segments = 0, g_scanned_bytes = 0, g_degraded = False, g_warnings = []\<rparr>"

definition add_buckets :: "(int, nat) btree \<Rightarrow> (int, nat) btree \<Rightarrow> (int, nat) btree" where
  "add_buckets bs part =
     foldl (\<lambda>m (start, n). bt_insert start ((case bt_get m start of None \<Rightarrow> 0 | Some k \<Rightarrow> k) + n) m) bs part"

definition merge_part :: "plan \<Rightarrow> 'r merged \<times> (int, nat) btree \<Rightarrow> 'r partial \<Rightarrow> 'r merged \<times> (int, nat) btree" where
  "merge_part p = (\<lambda>(g, bs) part.
     let g = g\<lparr>g_complete := g_complete g \<and> a_complete part,
               g_degraded := g_degraded g \<or> a_degraded part,
               g_count := g_count g + a_count part,
               g_scanned_segments := g_scanned_segments g + a_scanned_segments part,
               g_scanned_bytes := g_scanned_bytes g + a_scanned_bytes part,
               g_commit_watermark := min (g_commit_watermark g) (a_commit_watermark part),
               g_freshness_ms := max (g_freshness_ms g) (a_freshness_ms part),
               g_missing := g_missing g @ a_missing part\<rparr>;
         bs = add_buckets bs (a_buckets part);
         g = (if moves_rows (q_kind p) then g\<lparr>g_rows := g_rows g @ a_rows part\<rparr>
              else if a_rows part \<noteq> []
              then g\<lparr>g_warnings := g_warnings g @ [RowsNotUsed (a_tablet part) (kind_as_str (q_kind p))]\<rparr>
              else g);
         g = (case a_aggregate_state part of
                Some st \<Rightarrow> g\<lparr>g_aggregate_states := g_aggregate_states g @ [st]\<rparr>
              | None \<Rightarrow> g);
         g = (if a_degraded part then g\<lparr>g_warnings := g_warnings g @ [DegradedRange (a_tablet part)]\<rparr> else g)
     in (g, bs))"

definition missing_answer :: "plan \<Rightarrow> name list \<Rightarrow> 'r merged \<Rightarrow> name \<Rightarrow> 'r merged" where
  "missing_answer p answered g tab =
     (if tab \<notin> set answered
      then g\<lparr>g_complete := False,
              g_missing := g_missing g @ [\<lparr>mr_tablet = tab, mr_range_start = q_range_start p, mr_range_end = q_range_end p\<rparr>]\<rparr>
      else g)"

definition merge_answers :: "plan \<Rightarrow> 'r partial list \<Rightarrow> query_message tally_error + 'r merged" where
  "merge_answers p parts =
     (let (g, bs) = foldl (merge_part p) (merge_start, []) parts;
          g = (if parts = [] then g\<lparr>g_commit_watermark := 0\<rparr> else g);
          g = g\<lparr>g_buckets := bs\<rparr>;
          answered = map a_tablet parts;
          g = foldl (missing_answer p answered) g (q_tablets p)
      in and_then
           (if \<not> g_complete g then
              if \<not> q_allow_partial p
              then Inl (new_error IncompleteResult (WouldBeSmaller (map mr_tablet (g_missing g))))
              else Inr (g\<lparr>g_warnings := g_warnings g @ [PartialAnswer (length (g_missing g)) (length (q_tablets p))]\<rparr>)
            else Inr g)
           (\<lambda>g. Inr (case q_kind p of Rows max_rows \<Rightarrow> g\<lparr>g_rows := take max_rows (g_rows g)\<rparr> | _ \<Rightarrow> g)))"

definition replica_satisfies :: "plan \<Rightarrow> bool \<Rightarrow> nat \<Rightarrow> int \<Rightarrow> query_message tally_error + unit" where
  "replica_satisfies p votes applied_watermark staleness_ms =
     (case q_consistency p of
        Committed \<Rightarrow>
          if \<not> votes then Inl (new_error FailedPrecondition NotAVoter)
          else if applied_watermark < q_require_watermark p
          then Inl (new_error FailedPrecondition (BehindWatermark applied_watermark (q_require_watermark p)))
          else Inr ()
      | BoundedStale max_staleness_ms \<Rightarrow>
          if max_staleness_ms < staleness_ms
          then Inl (new_error FailedPrecondition (TooStale staleness_ms max_staleness_ms))
          else Inr ())"

section \<open>What a merge adds up\<close>

lemma bucket_get:
  "bt_ok part \<Longrightarrow> bt_get (add_buckets bs part) k =
     (case (bt_get bs k, bt_get part k) of
        (None, None) \<Rightarrow> None
      | (x, y) \<Rightarrow> Some ((case x of None \<Rightarrow> 0 | Some n \<Rightarrow> n) + (case y of None \<Rightarrow> 0 | Some n \<Rightarrow> n)))"
proof (induction part arbitrary: bs)
  case Nil
  then show ?case by (simp add: add_buckets_def split: option.splits)
next
  case (Cons e part)
  obtain s n where e: "e = (s, n)" by fastforce
  let ?bs = "bt_insert s ((case bt_get bs s of None \<Rightarrow> 0 | Some k \<Rightarrow> k) + n) bs"
  have unf: "add_buckets bs (e # part) = add_buckets ?bs part" by (simp add: add_buckets_def e)
  have "bt_get part s = None" using Cons.prems by (fastforce simp: e bt_ok_Cons map_of_eq_None_iff)
  then show ?case using Cons unfolding unf by (auto simp: e bt_ok_Cons split: option.splits)
qed

lemma bt_ok_add_buckets: "bt_ok bs \<Longrightarrow> bt_ok (add_buckets bs part)"
  unfolding add_buckets_def by (induction part arbitrary: bs) (auto split: prod.splits)

lemma add_buckets_commute:
  "bt_ok bs \<Longrightarrow> bt_ok x \<Longrightarrow> bt_ok y \<Longrightarrow> add_buckets (add_buckets bs x) y = add_buckets (add_buckets bs y) x"
  by (intro bt_ext bt_ok_add_buckets) (auto simp: fun_eq_iff bucket_get split: option.splits)

definition bucket_val :: "(int, nat) btree \<Rightarrow> int \<Rightarrow> nat" where
  "bucket_val bs k = (case bt_get bs k of None \<Rightarrow> 0 | Some n \<Rightarrow> n)"

lemma bucket_get_val:
  "bt_ok part \<Longrightarrow> bt_get (add_buckets bs part) k =
     (if bt_get bs k = None \<and> bt_get part k = None then None else Some (bucket_val bs k + bucket_val part k))"
  by (auto simp: bucket_get bucket_val_def split: option.splits)

lemma buckets_fold:
  "\<forall>x \<in> set xs. bt_ok x \<Longrightarrow> bt_get (foldl add_buckets bs xs) k =
     (if bt_get bs k = None \<and> (\<forall>x \<in> set xs. bt_get x k = None) then None
      else Some (bucket_val bs k + (\<Sum>x\<leftarrow>xs. bucket_val x k)))"
proof (induction xs arbitrary: bs)
  case (Cons x xs)
  have "bucket_val (add_buckets bs x) k = bucket_val bs k + bucket_val x k"
    using Cons.prems by (auto simp: bucket_val_def[of "add_buckets bs x"] bucket_get_val) (auto simp: bucket_val_def)
  then show ?case using Cons by (auto simp: bucket_get_val)
qed (simp add: bucket_val_def split: option.splits)

lemma bt_ok_foldl_buckets: "bt_ok bs \<Longrightarrow> bt_ok (foldl add_buckets bs xs)"
  by (induction xs arbitrary: bs) (auto simp: bt_ok_add_buckets)

definition parts_ok :: "'r partial list \<Rightarrow> bool" where
  "parts_ok parts \<longleftrightarrow> (\<forall>part \<in> set parts. bt_ok (a_buckets part))"

lemma merge_part_simps [simp]:
  "snd (merge_part p gb part) = add_buckets (snd gb) (a_buckets part)"
  "g_count (fst (merge_part p gb part)) = g_count (fst gb) + a_count part"
  "g_complete (fst (merge_part p gb part)) \<longleftrightarrow> g_complete (fst gb) \<and> a_complete part"
  "g_degraded (fst (merge_part p gb part)) \<longleftrightarrow> g_degraded (fst gb) \<or> a_degraded part"
  "g_commit_watermark (fst (merge_part p gb part)) = min (g_commit_watermark (fst gb)) (a_commit_watermark part)"
  "g_freshness_ms (fst (merge_part p gb part)) = max (g_freshness_ms (fst gb)) (a_freshness_ms part)"
  "g_missing (fst (merge_part p gb part)) = g_missing (fst gb) @ a_missing part"
  "g_rows (fst (merge_part p gb part)) = g_rows (fst gb) @ (if moves_rows (q_kind p) then a_rows part else [])"
  by (cases gb; auto simp: merge_part_def Let_def split: option.splits)+

abbreviation merged_parts :: "plan \<Rightarrow> 'r partial list \<Rightarrow> 'r merged \<times> (int, nat) btree" where
  "merged_parts p parts \<equiv> foldl (merge_part p) (merge_start, []) parts"

lemma foldl_merge_part:
  "snd (foldl (merge_part p) gb parts) = foldl add_buckets (snd gb) (map a_buckets parts)"
  "g_count (fst (foldl (merge_part p) gb parts)) = g_count (fst gb) + (\<Sum>x\<leftarrow>parts. a_count x)"
  "g_complete (fst (foldl (merge_part p) gb parts)) \<longleftrightarrow> g_complete (fst gb) \<and> (\<forall>x \<in> set parts. a_complete x)"
  "g_degraded (fst (foldl (merge_part p) gb parts)) \<longleftrightarrow> g_degraded (fst gb) \<or> (\<exists>x \<in> set parts. a_degraded x)"
  "g_commit_watermark (fst (foldl (merge_part p) gb parts)) = foldl min (g_commit_watermark (fst gb)) (map a_commit_watermark parts)"
  "g_freshness_ms (fst (foldl (merge_part p) gb parts)) = foldl max (g_freshness_ms (fst gb)) (map a_freshness_ms parts)"
  "g_missing (fst (foldl (merge_part p) gb parts)) = g_missing (fst gb) @ concat (map a_missing parts)"
  "g_rows (fst (foldl (merge_part p) gb parts)) = g_rows (fst gb) @ (if moves_rows (q_kind p) then concat (map a_rows parts) else [])"
  by (induction parts arbitrary: gb) (auto simp: conj_assoc)

lemma foldl_min_Min: "foldl min (w :: 'a::linorder) xs = Min (set (w # xs))"
proof -
  have "(\<lambda>x s. min s x) = (min :: 'a \<Rightarrow> 'a \<Rightarrow> 'a)" by (auto simp: fun_eq_iff min.commute)
  then show ?thesis by (simp only: Min.set_eq_fold foldl_conv_fold)
qed

lemma foldl_max_Max: "foldl max (w :: 'a::linorder) xs = Max (set (w # xs))"
proof -
  have "(\<lambda>x s. max s x) = (max :: 'a \<Rightarrow> 'a \<Rightarrow> 'a)" by (auto simp: fun_eq_iff max.commute)
  then show ?thesis by (simp only: Max.set_eq_fold foldl_conv_fold)
qed

lemma foldl_missing_answer:
  "g_complete (foldl (missing_answer p answered) g tabs) \<longleftrightarrow> g_complete g \<and> set tabs \<subseteq> set answered"
  "mr_tablet ` set (g_missing (foldl (missing_answer p answered) g tabs))
     = mr_tablet ` set (g_missing g) \<union> (set tabs - set answered)"
  "g_count (foldl (missing_answer p answered) g tabs) = g_count g"
  "g_buckets (foldl (missing_answer p answered) g tabs) = g_buckets g"
  "g_degraded (foldl (missing_answer p answered) g tabs) = g_degraded g"
  "g_commit_watermark (foldl (missing_answer p answered) g tabs) = g_commit_watermark g"
  "g_freshness_ms (foldl (missing_answer p answered) g tabs) = g_freshness_ms g"
  "g_rows (foldl (missing_answer p answered) g tabs) = g_rows g"
  by (induction tabs arbitrary: g) (auto simp: missing_answer_def)

text \<open>The answer a merge gives when it gives one, field by field.\<close>

definition complete_answer :: "plan \<Rightarrow> 'r partial list \<Rightarrow> bool" where
  "complete_answer p parts \<longleftrightarrow> (\<forall>x \<in> set parts. a_complete x) \<and> set (q_tablets p) \<subseteq> a_tablet ` set parts"

lemma merge_answers_cases:
  "(if complete_answer p parts \<or> q_allow_partial p then \<exists>g. merge_answers p parts = Inr g
    else \<exists>names. merge_answers p parts = Inl (new_error IncompleteResult (WouldBeSmaller names)))"
  by (auto simp: merge_answers_def Let_def case_prod_beta foldl_missing_answer foldl_merge_part merge_start_def complete_answer_def)

lemma merge_answers_fields:
  assumes "merge_answers p parts = Inr g"
  shows "g_count g = (\<Sum>x\<leftarrow>parts. a_count x)"
    "g_buckets g = foldl add_buckets [] (map a_buckets parts)"
    "g_complete g \<longleftrightarrow> complete_answer p parts"
    "g_degraded g \<longleftrightarrow> (\<exists>x \<in> set parts. a_degraded x)"
    "g_commit_watermark g = (if parts = [] then 0 else Min (insert (2 ^ 64 - 1) (a_commit_watermark ` set parts)))"
    "g_freshness_ms g = Max (insert 0 (a_freshness_ms ` set parts))"
    "set (q_tablets p) - a_tablet ` set parts \<subseteq> mr_tablet ` set (g_missing g)"
  using assms
  by (auto simp: merge_answers_def Let_def case_prod_beta foldl_missing_answer foldl_merge_part merge_start_def
      complete_answer_def foldl_min_Min foldl_max_Max result_convs split: if_splits partial_kind.splits)

section \<open>Properties\<close>


definition toy_plan :: plan where
  "toy_plan = \<lparr>q_project_id = [], q_range_start = 0, q_range_end = 10, q_basis = OccurredAt, q_kind = Count,
     q_event_name = None, q_consistency = Committed, q_require_watermark = 0, q_allow_partial = True,
     q_tablets = [''t1'', ''t2''], q_generation = 1\<rparr>"




text \<open>A plan leaves no data out: it names every tablet that is not retired, so every
  live owner of a shard is asked, and it is refused only when the tablets are more than
  the fan-out limit.\<close>

theorem plan_covers_live_tablets:
  assumes "topology_ok tp"
  shows "(case make_plan tp project s e basis kind event_name cons allow_partial max_fan_out of
      Inr p \<Rightarrow> q_generation p = generation tp \<and> length (q_tablets p) \<le> max_fan_out
        \<and> set (q_tablets p) = {n. \<exists>t. tab_at tp n = Some t \<and> live t}
    | Inl err \<Rightarrow> e_code err = BudgetExceeded \<and> max_fan_out < card {n. \<exists>t. tab_at tp n = Some t \<and> live t})"
proof -
  have names: "t_name ` set (readable_tablets tp) = {n. \<exists>t. tab_at tp n = Some t \<and> live t}"
    using assms in_bt_values[of "tablets tp"] topology_okD[OF assms]
    by (force simp: readable_tablets_def live_def topology_ok_def tablet_ok_def)
  have "distinct (map t_name (readable_tablets tp))"
  proof -
    have "map t_name (bt_values (tablets tp)) = map fst (tablets tp)"
      using assms topology_okD[OF assms] by (auto simp: bt_values_def topology_ok_def bt_get_eq_Some tablet_ok_def)
    then have "distinct (map t_name (bt_values (tablets tp)))"
      using assms by (simp add: topology_ok_def bt_ok_distinct)
    then show ?thesis by (simp add: readable_tablets_def distinct_map_filter)
  qed
  then have "card {n. \<exists>t. tab_at tp n = Some t \<and> live t} = length (readable_tablets tp)"
    using distinct_card[of "map t_name (readable_tablets tp)"] names by simp
  then show ?thesis using names by (simp add: make_plan_def Let_def new_error_def)
qed

theorem plan_covers_live_tablets_witness:
  "(case make_plan one_tablet [] 0 10 OccurredAt Count None Committed False 256 of
      Inr p \<Rightarrow> ''t1'' \<in> set (q_tablets p) | Inl e \<Rightarrow> False)"
proof -
  have "{n. \<exists>t. tab_at one_tablet n = Some t \<and> live t} \<subseteq> {''t1''}"
    by (auto simp: one_tablet_tablets split: if_splits)
  then have "card {n. \<exists>t. tab_at one_tablet n = Some t \<and> live t} \<le> 1"
    using card_mono[of "{''t1''}"] by fastforce
  then show ?thesis
    using plan_covers_live_tablets[OF one_tablet_split(1), where project = "[]" and s = 0 and e = 10 and basis = OccurredAt
      and kind = Count and event_name = None and cons = Committed and allow_partial = False and max_fan_out = 256]
    by (auto simp: one_tablet_tablets live_def split: sum.splits)
qed

end
