(* ===== verification/Numeric_Text.thy ===== *)
theory Numeric_Text
  imports Prelude
begin

text \<open>
  Numbers written as text: what the sources use of the standard library.

  A text is its UTF-8 bytes. \<open>trim\<close> removes the White_Space characters of Unicode at
  both ends, \<open>split_once\<close> splits at the first separator, \<open>digits\<close> is \<open>to_digit(10)\<close>
  of every character (a byte of a longer character is no digit), \<open>parse_i64\<close> and
  \<open>parse_u64\<close> are \<open>str::parse\<close>, and \<open>dec\<close> and \<open>dec_int\<close> are \<open>to_string\<close>. The hex
  form of bytes is that of \<^verbatim>\<open>tallyowl-store/src/row.rs\<close>. A slice that cuts a character in
  two panics, which is the value \<open>Inl Panic\<close>.
\<close>

section \<open>Characters\<close>

text \<open>The bytes of the white space character a text starts with, none as 0.\<close>

fun space_prefix :: "bytes \<Rightarrow> nat" where
  "space_prefix [] = 0"
| "space_prefix (a # bs) =
     (if (9 \<le> a \<and> a \<le> 13) \<or> a = 32 then 1
      else case bs of
        b # cs \<Rightarrow>
          if a = 0xC2 \<and> (b = 0x85 \<or> b = 0xA0) then 2
          else (case cs of
            c # _ \<Rightarrow>
              if (a = 0xE1 \<and> b = 0x9A \<and> c = 0x80)
                \<or> (a = 0xE2 \<and> b = 0x80 \<and> (0x80 \<le> c \<and> c \<le> 0x8A \<or> c = 0xA8 \<or> c = 0xA9 \<or> c = 0xAF))
                \<or> (a = 0xE2 \<and> b = 0x81 \<and> c = 0x9F)
                \<or> (a = 0xE3 \<and> b = 0x80 \<and> c = 0x80) then 3 else 0
          | [] \<Rightarrow> 0)
      | [] \<Rightarrow> 0)"

text \<open>The bytes of the white space character a text ends with, on the reversed text.\<close>

definition space_suffix :: "bytes \<Rightarrow> nat" where
  "space_suffix rs =
     (if space_prefix (rev (take 1 rs)) = 1 then 1
      else if space_prefix (rev (take 2 rs)) = 2 then 2
      else if space_prefix (rev (take 3 rs)) = 3 then 3 else 0)"

function trim_with :: "(bytes \<Rightarrow> nat) \<Rightarrow> bytes \<Rightarrow> bytes" where
  "trim_with f bs = (if bs = [] \<or> f bs = 0 then bs else trim_with f (drop (f bs) bs))"
  by auto
termination by (relation "measure (length \<circ> snd)") auto

declare trim_with.simps [simp del]

definition trim :: "bytes \<Rightarrow> bytes" where
  "trim bs = rev (trim_with space_suffix (rev (trim_with space_prefix bs)))"

fun split_once :: "u8 \<Rightarrow> bytes \<Rightarrow> (bytes \<times> bytes) option" where
  "split_once s [] = None"
| "split_once s (b # bs) =
     (if b = s then Some ([], bs)
      else map_option (\<lambda>(x, y). (b # x, y)) (split_once s bs))"

definition strip_prefix :: "u8 \<Rightarrow> bytes \<Rightarrow> bytes option" where
  "strip_prefix p bs = (case bs of [] \<Rightarrow> None | b # r \<Rightarrow> if b = p then Some r else None)"

definition to_digit :: "u8 \<Rightarrow> nat option" where
  "to_digit b = (if 48 \<le> b \<and> b \<le> 57 then Some (unat b - 48) else None)"

fun digits :: "bytes \<Rightarrow> nat list option" where
  "digits [] = Some []"
| "digits (b # bs) =
     (case to_digit b of None \<Rightarrow> None | Some d \<Rightarrow> map_option ((#) d) (digits bs))"

definition dec_value :: "nat list \<Rightarrow> nat" where
  "dec_value ds = foldl (\<lambda>v d. v * 10 + d) 0 ds"

section \<open>Whole numbers\<close>

definition dec :: "nat \<Rightarrow> bytes" where
  "dec n = lit (show_nat n)"

definition dec_int :: "int \<Rightarrow> bytes" where
  "dec_int i = lit (show_int i)"

definition in_i64 :: "int \<Rightarrow> bool" where
  "in_i64 i = (- (2 ^ 63) \<le> i \<and> i < 2 ^ 63)"

definition in_i128 :: "int \<Rightarrow> bool" where
  "in_i128 i = (- (2 ^ 127) \<le> i \<and> i < 2 ^ 127)"

definition parse_digits :: "bytes \<Rightarrow> nat option" where
  "parse_digits bs = (if bs = [] then None else map_option dec_value (digits bs))"

definition parse_i64 :: "bytes \<Rightarrow> i64 option" where
  "parse_i64 bs =
     (let (negative, rest) =
        (case bs of
           b # r \<Rightarrow> if b = 45 then (True, r) else if b = 43 then (False, r) else (False, bs)
         | [] \<Rightarrow> (False, bs))
      in case parse_digits rest of
           None \<Rightarrow> None
         | Some n \<Rightarrow> let v = (if negative then - int n else int n)
                     in if in_i64 v then Some (word_of_int v) else None)"

definition parse_u64 :: "bytes \<Rightarrow> u64 option" where
  "parse_u64 bs =
     (let rest = (case bs of b # r \<Rightarrow> if b = 43 then r else bs | [] \<Rightarrow> bs)
      in case parse_digits rest of
           None \<Rightarrow> None
         | Some n \<Rightarrow> if n < 2 ^ 64 then Some (word_of_nat n) else None)"

text \<open>\<^verbatim>\<open>acc.checked_mul(10)?.checked_add(digit)?\<close> on \<open>i128\<close>, over the digits of a text.\<close>

definition checked :: "int \<Rightarrow> int option" where
  "checked i = (if in_i128 i then Some i else None)"

definition push_digit :: "int \<Rightarrow> nat \<Rightarrow> int option" where
  "push_digit acc d = Option.bind (checked (acc * 10)) (\<lambda>v. checked (v + int d))"

fun push_digits :: "int \<Rightarrow> nat list \<Rightarrow> int option" where
  "push_digits acc [] = Some acc"
| "push_digits acc (d # ds) = Option.bind (push_digit acc d) (\<lambda>v. push_digits v ds)"

section \<open>Hexadecimal\<close>

datatype panic = Panic

definition nibble :: "nat \<Rightarrow> u8" where
  "nibble d = word_of_nat (if d < 10 then 48 + d else 87 + d)"

definition hex_byte :: "u8 \<Rightarrow> bytes" where
  "hex_byte b = [nibble (unat b div 16), nibble (unat b mod 16)]"

definition hex :: "bytes \<Rightarrow> bytes" where
  "hex bs = concat (map hex_byte bs)"

definition hex_digit :: "u8 \<Rightarrow> nat option" where
  "hex_digit b =
     (if 48 \<le> b \<and> b \<le> 57 then Some (unat b - 48)
      else if 97 \<le> b \<and> b \<le> 102 then Some (unat b - 87)
      else if 65 \<le> b \<and> b \<le> 70 then Some (unat b - 55) else None)"

text \<open>\<^verbatim>\<open>u8::from_str_radix(&text[i..i + 2], 16)\<close>, which takes a leading plus.\<close>

definition parse_pair :: "u8 \<Rightarrow> u8 \<Rightarrow> u8 option" where
  "parse_pair a b =
     (if a = 43 then map_option word_of_nat (hex_digit b)
      else case (hex_digit a, hex_digit b) of
        (Some x, Some y) \<Rightarrow> Some (word_of_nat (x * 16 + y))
      | _ \<Rightarrow> None)"

text \<open>
  A slice of two bytes panics when it starts or ends inside a character, that is
  when its first byte or the byte after it continues one. The pairs are read in
  order and the first that is no number ends the loop.
\<close>

fun hex_pairs :: "bytes \<Rightarrow> panic + bytes option" where
  "hex_pairs (a # b # bs) =
     (if utf8_tail a \<or> (case bs of c # _ \<Rightarrow> utf8_tail c | [] \<Rightarrow> False) then Inl Panic
      else case parse_pair a b of
        None \<Rightarrow> Inr None
      | Some v \<Rightarrow> and_then (hex_pairs bs) (\<lambda>r. Inr (map_option ((#) v) r)))"
| "hex_pairs _ = Inr (Some [])"

definition from_hex :: "bytes \<Rightarrow> panic + bytes option" where
  "from_hex t = (if length t mod 2 \<noteq> 0 then Inr None else hex_pairs t)"

definition id_from_hex :: "bytes \<Rightarrow> panic + bytes option" where
  "id_from_hex t = and_then (from_hex t) (\<lambda>r. Inr (Option.bind r (\<lambda>bs. if length bs = 16 then Some bs else None)))"

section \<open>Facts about written numbers\<close>

lemma to_digit_dec: "d < 10 \<Longrightarrow> to_digit (word_of_nat (48 + d)) = Some d"
  by (auto simp: to_digit_def word_le_nat_alt unat_of_nat simp del: of_nat_add of_nat_numeral)

lemma digits_append: "digits (xs @ ys) = (case (digits xs, digits ys) of (Some a, Some b) \<Rightarrow> Some (a @ b) | _ \<Rightarrow> None)"
  by (induction xs) (auto split: option.splits)

lemma dec_value_snoc: "dec_value (ds @ [d]) = dec_value ds * 10 + d"
  by (simp add: dec_value_def)

lemma foldl_dec: "foldl (\<lambda>v d. v * 10 + d) a ds = a * 10 ^ length ds + dec_value ds" for a :: nat
  by (induction ds arbitrary: a rule: rev_induct) (simp_all add: dec_value_def algebra_simps)

lemma dec_value_Nil [simp]: "dec_value [] = 0"
  by (simp add: dec_value_def)

lemma dec_value_Cons: "dec_value (d # ds) = d * 10 ^ length ds + dec_value ds"
  using foldl_dec[of d ds] by (simp add: dec_value_def)

lemma dec_value_append: "dec_value (xs @ ys) = dec_value xs * 10 ^ length ys + dec_value ys"
  using foldl_dec[of "foldl (\<lambda>v d. v * 10 + d) 0 xs" ys] by (simp add: dec_value_def)

lemma dec_simps: "dec n = (if n < 10 then [word_of_nat (48 + n)] else dec (n div 10) @ [word_of_nat (48 + n mod 10)])"
proof -
  have "of_char (char_of (48 + d) :: char) = (48 + d :: nat)" if "d < 10" for d
    using that by (simp add: of_char_of)
  then show ?thesis
    by (subst dec_def, subst show_nat.simps) (auto simp: dec_def lit_def)
qed

lemma digits_dec: "\<exists>ds. digits (dec n) = Some ds \<and> dec_value ds = n \<and> length ds = length (dec n) \<and> list_all (\<lambda>d. d < 10) ds"
proof (induction n rule: less_induct)
  case (less n)
  show ?case
  proof (cases "n < 10")
    case True
    then show ?thesis using to_digit_dec[OF True] by (simp add: dec_simps[of n] dec_value_def del: of_nat_add of_nat_numeral)
  next
    case False
    then obtain ds where ds: "digits (dec (n div 10)) = Some ds" "dec_value ds = n div 10"
        "length ds = length (dec (n div 10))" "list_all (\<lambda>d. d < 10) ds"
      using less[of "n div 10"] by auto
    have "to_digit (word_of_nat (48 + n mod 10)) = Some (n mod 10)" by (rule to_digit_dec) simp
    then have "digits (dec n) = Some (ds @ [n mod 10])"
      using False ds by (simp add: dec_simps[of n] digits_append del: of_nat_add of_nat_numeral)
    then show ?thesis using ds False
      by (simp add: dec_value_snoc dec_simps[of n])
  qed
qed

definition digit_byte :: "u8 \<Rightarrow> bool" where
  "digit_byte b = (48 \<le> b \<and> b \<le> 57)"

lemma digits_all: "digits bs = Some ds \<Longrightarrow> list_all digit_byte bs \<and> length ds = length bs \<and> list_all (\<lambda>d. d < 10) ds"
proof (induction bs arbitrary: ds)
  case (Cons b bs)
  have "unat b - 48 < 10" if "b \<le> 57" using that by (simp add: word_le_nat_alt)
  with Cons show ?case by (auto simp: to_digit_def digit_byte_def split: option.splits if_splits)
qed simp

lemma digits_exist: "list_all digit_byte bs \<Longrightarrow> \<exists>ds. digits bs = Some ds"
  by (induction bs) (auto simp: digit_byte_def to_digit_def)

lemma dec_digit_bytes: "list_all digit_byte (dec n)"
  using digits_dec[of n] digits_all by blast

lemma dec_nonempty [simp]: "dec n \<noteq> []"
  by (subst dec_simps) simp

lemma dec_int_cases: "dec_int i = (if i < 0 then 45 # dec (nat (- i)) else dec (nat i))"
  by (simp add: dec_int_def show_int_def dec_def lit_def)

lemma parse_digits_dec [simp]: "parse_digits (dec n) = Some n"
  using digits_dec[of n] by (auto simp: parse_digits_def)

lemma dec_first: "\<exists>b r. dec n = b # r \<and> digit_byte b"
  using dec_digit_bytes[of n] by (cases "dec n") auto

lemma digit_byte_not: "digit_byte b \<Longrightarrow> b \<noteq> 45 \<and> b \<noteq> 43 \<and> b \<noteq> 46"
  by (auto simp: digit_byte_def)

lemma parse_i64_dec: "in_i64 i \<Longrightarrow> parse_i64 (dec_int i) = Some (word_of_int i)"
proof (cases "i < 0")
  case False
  obtain b r where b: "dec (nat i) = b # r" "b \<noteq> 45" "b \<noteq> 43" using dec_first[of "nat i"] digit_byte_not by blast
  assume "in_i64 i"
  then show ?thesis using False parse_digits_dec[of "nat i"] by (simp add: parse_i64_def dec_int_cases b)
qed (simp add: parse_i64_def dec_int_cases)

lemma sint_in_i64: "in_i64 (sint (v :: i64))"
  using sint_range_size[of v] by (simp add: in_i64_def word_size)

lemma parse_i64_sint: "parse_i64 (dec_int (sint v)) = Some v"
  by (simp add: parse_i64_dec sint_in_i64)

lemma parse_u64_unat: "parse_u64 (dec (unat v)) = Some v"
proof -
  have "unat v < 2 ^ 64" using unsigned_less[of v] by simp
  moreover obtain b r where "dec (unat v) = b # r" "b \<noteq> 43" using dec_first[of "unat v"] digit_byte_not by blast
  ultimately show ?thesis using parse_digits_dec[of "unat v"] by (simp add: parse_u64_def)
qed

text \<open>White space is never a digit, a sign or a point, so written numbers are not trimmed.\<close>

definition plain_byte :: "u8 \<Rightarrow> bool" where
  "plain_byte b = (33 \<le> b \<and> b \<le> 0x7F)"

lemma space_prefix_plain: "plain_byte b \<Longrightarrow> space_prefix (b # bs) = 0"
  by (auto simp: plain_byte_def word_le_nat_alt word_unat_eq_iff split: list.splits)

lemma space_suffix_plain: "plain_byte b \<Longrightarrow> space_suffix (b # bs) = 0"
proof -
  assume b: "plain_byte b"
  then have ne: "b \<noteq> 0x85" "b \<noteq> 0xA0" "b \<noteq> 0x80" "b \<noteq> 0x9F" "\<not> 0x80 \<le> b" "b \<noteq> 0xA8" "b \<noteq> 0xA9" "b \<noteq> 0xAF"
    by (auto simp: plain_byte_def word_le_nat_alt)
  have "space_prefix (rev (take 2 (b # bs))) \<noteq> 2" "space_prefix (rev (take 3 (b # bs))) \<noteq> 3"
    using ne by (cases bs; cases "tl bs"; auto split: list.splits)+
  then show ?thesis using space_prefix_plain[OF b, of "[]"] by (simp add: space_suffix_def)
qed

lemma trim_with_stop: "f bs = 0 \<Longrightarrow> trim_with f bs = bs"
  by (simp add: trim_with.simps)

lemma trim_plain:
  assumes "list_all plain_byte bs"
  shows "trim bs = bs"
proof (cases "bs = []")
  case False
  obtain b r where 1: "bs = b # r" "plain_byte b" using assms False by (cases bs) auto
  obtain c q where 2: "rev bs = c # q" "plain_byte c" using assms False by (cases "rev bs") (auto simp: list_all_iff)
  have "trim_with space_prefix bs = bs" using 1 by (simp add: trim_with_stop space_prefix_plain del: space_prefix.simps)
  moreover have "trim_with space_suffix (rev bs) = rev bs" using 2 by (simp add: trim_with_stop space_suffix_plain)
  ultimately show ?thesis by (simp add: trim_def)
qed (simp add: trim_def trim_with.simps)

lemma digit_plain: "digit_byte b \<Longrightarrow> plain_byte b"
  by (auto simp: digit_byte_def plain_byte_def word_le_nat_alt)

lemma split_once_absent: "s \<notin> set bs \<Longrightarrow> split_once s bs = None"
  by (induction bs) auto

lemma split_once_at: "s \<notin> set xs \<Longrightarrow> split_once s (xs @ s # ys) = Some (xs, ys)"
  by (induction xs) auto

text \<open>The checked accumulation returns the number exactly when it is in range.\<close>

lemma push_digits_exact:
  "0 \<le> acc \<Longrightarrow> in_i128 acc \<Longrightarrow> list_all (\<lambda>d. d < 10) ds \<Longrightarrow>
   push_digits acc ds = checked (acc * 10 ^ length ds + int (dec_value ds))"
proof (induction ds arbitrary: acc)
  case Nil
  then show ?case by (simp add: checked_def)
next
  case (Cons d ds)
  let ?v = "acc * 10 + int d"
  have v: "0 \<le> ?v" "acc * 10 \<le> ?v" using Cons.prems by auto
  have le: "acc * 10 \<le> ?v" "?v \<le> ?v * 10 ^ length ds" using v mult_left_mono[of 1 "10 ^ length ds" ?v] by auto
  have eq: "acc * 10 ^ length (d # ds) + int (dec_value (d # ds)) = ?v * 10 ^ length ds + int (dec_value ds)"
    by (simp add: dec_value_Cons algebra_simps)
  show ?case
  proof (cases "in_i128 ?v")
    case True
    then have "in_i128 (acc * 10)" using Cons.prems le by (auto simp: in_i128_def)
    then show ?thesis using Cons.IH[of ?v] Cons.prems True
      unfolding eq by (simp add: push_digit_def checked_def)
  next
    case False
    then have "2 ^ 127 \<le> ?v" using Cons.prems by (auto simp: in_i128_def)
    then have "2 ^ 127 \<le> ?v * 10 ^ length ds + int (dec_value ds)" using le(2) by linarith
    then have "\<not> in_i128 (?v * 10 ^ length ds + int (dec_value ds))" by (simp add: in_i128_def)
    then show ?thesis using False unfolding eq by (auto simp: push_digit_def checked_def Option.bind_eq_None_conv)
  qed
qed

lemma digits_replicate: "digits (replicate n 48 @ bs) = map_option ((@) (replicate n 0)) (digits bs)"
  by (induction n) (simp_all add: option.map_id0[unfolded id_def] to_digit_def option.map_comp comp_def)

lemma dec_value_zeros: "dec_value (replicate n 0 @ ds) = dec_value ds"
  by (induction n) (simp_all add: dec_value_Cons)

lemma digits_zeros: "digits (replicate n 48) = Some (replicate n 0)"
  by (induction n) (simp_all add: to_digit_def)

lemma dec_value_replicate_0: "dec_value (replicate n 0) = 0"
  by (induction n) (simp_all add: dec_value_Cons)

section \<open>Facts about hexadecimal text\<close>

lemma hex_digit_nibble: "d < 16 \<Longrightarrow> hex_digit (nibble d) = Some d"
  by (auto simp: hex_digit_def nibble_def word_le_nat_alt unat_of_nat simp del: of_nat_add of_nat_numeral)

lemma nibble_ascii: "d < 16 \<Longrightarrow> \<not> utf8_tail (nibble d) \<and> nibble d \<noteq> 43"
  by (auto simp: utf8_tail_def nibble_def word_le_nat_alt unat_of_nat word_unat_eq_iff simp del: of_nat_add of_nat_numeral)

lemma parse_pair_hex: "parse_pair (nibble (unat b div 16)) (nibble (unat b mod 16)) = Some b"
proof -
  have d: "unat b div 16 < 16" using unat_u8_bound[of b] by (simp add: less_mult_imp_div_less)
  have "word_of_nat (unat b div 16 * 16 + unat b mod 16) = b" unfolding div_mult_mod_eq by simp
  then show ?thesis using nibble_ascii[OF d] hex_digit_nibble[OF d] hex_digit_nibble[of "unat b mod 16"]
    by (simp add: parse_pair_def del: of_nat_add of_nat_mult)
qed

lemma length_hex: "length (hex bs) = 2 * length bs"
  by (induction bs) (auto simp: hex_def hex_byte_def)

lemma hex_pairs_hex: "hex_pairs (hex bs) = Inr (Some bs)"
proof (induction bs)
  case (Cons b bs)
  have d: "unat b div 16 < 16" using unat_u8_bound[of b] by (simp add: less_mult_imp_div_less)
  have "\<not> (case hex bs of c # _ \<Rightarrow> utf8_tail c | [] \<Rightarrow> False)"
  proof (cases bs)
    case (Cons c cs)
    have "unat c div 16 < 16" using unat_u8_bound[of c] by (simp add: less_mult_imp_div_less)
    then show ?thesis by (simp add: Cons hex_def hex_byte_def nibble_ascii)
  qed (simp add: hex_def)
  then show ?case using Cons nibble_ascii[OF d] parse_pair_hex[of b] by (simp add: hex_def hex_byte_def)
qed (simp add: hex_def)

lemma from_hex_hex: "from_hex (hex bs) = Inr (Some bs)"
  by (simp add: from_hex_def length_hex hex_pairs_hex)

end
