(* ===== verification/Float64.thy ===== *)
theory Float64
  imports Numeric_Text
begin

text \<open>
  The \<open>f64\<close> of the language, as far as the sources use it: IEEE 754 double precision,
  on the 64 bits of a value.

  \<open>magnitude\<close> is the value without its sign bit; magnitudes order like the numbers
  they stand for, so the order \<open>partial_cmp\<close> is the order of the signed magnitudes.
  \<open>round_ratio\<close> rounds a positive ratio to the nearest double, ties to even; the
  casts, the four operations and \<open>str::parse\<close> are exact results rounded by it. A
  result that is not a number is the canonical quiet NaN: the payload is not
  specified by the language and nothing in the sources looks at it.
\<close>

type_synonym f64 = u64

datatype ordering = Less | Equal | Greater

definition cmp :: "'a::linorder \<Rightarrow> 'a \<Rightarrow> ordering" where
  "cmp a b = (if a < b then Less else if a = b then Equal else Greater)"

fun reverse :: "ordering \<Rightarrow> ordering" where
  "reverse Less = Greater"
| "reverse Equal = Equal"
| "reverse Greater = Less"

lemma cmp_convs [simp]:
  "cmp a b = Less \<longleftrightarrow> a < b" "cmp a b = Equal \<longleftrightarrow> a = b" "cmp a b = Greater \<longleftrightarrow> b < a"
  by (auto simp: cmp_def)

lemma reverse_cmp: "reverse (cmp a b) = cmp b a"
  by (auto simp: cmp_def)

section \<open>Bits\<close>

definition f64_inf :: nat where
  "f64_inf = 0x7ff * 2 ^ 52"

definition f64_nan :: f64 where
  "f64_nan = 0x7ff8000000000000"

definition negative :: "f64 \<Rightarrow> bool" where
  "negative x = (2 ^ 63 \<le> unat x)"

definition magnitude :: "f64 \<Rightarrow> nat" where
  "magnitude x = unat x mod 2 ^ 63"

definition pack :: "bool \<Rightarrow> nat \<Rightarrow> f64" where
  "pack neg m = word_of_nat ((if neg then 2 ^ 63 else 0) + m)"

definition is_nan :: "f64 \<Rightarrow> bool" where
  "is_nan x = (f64_inf < magnitude x)"

definition is_finite :: "f64 \<Rightarrow> bool" where
  "is_finite x = (magnitude x < f64_inf)"

definition order_key :: "f64 \<Rightarrow> int" where
  "order_key x = (if negative x then - int (magnitude x) else int (magnitude x))"

definition f64_cmp :: "f64 \<Rightarrow> f64 \<Rightarrow> ordering option" where
  "f64_cmp x y = (if is_nan x \<or> is_nan y then None else Some (cmp (order_key x) (order_key y)))"

text \<open>A finite value is \<open>fst * 2 ^ snd\<close>, here as a ratio of natural numbers.\<close>

definition f64_parts :: "f64 \<Rightarrow> nat \<times> int" where
  "f64_parts x = (let e = magnitude x div 2 ^ 52; f = magnitude x mod 2 ^ 52
              in if e = 0 then (f, - 1074) else (f + 2 ^ 52, int e - 1075))"

definition scale2 :: "nat \<Rightarrow> int \<Rightarrow> nat \<times> nat" where
  "scale2 m e = (if 0 \<le> e then (m * 2 ^ nat e, 1) else (m, 2 ^ nat (- e)))"

definition ratio :: "f64 \<Rightarrow> nat \<times> nat" where
  "ratio x = scale2 (fst (f64_parts x)) (snd (f64_parts x))"

section \<open>Rounding\<close>

fun log2 :: "nat \<Rightarrow> nat" where
  "log2 n = (if n \<le> 1 then 0 else Suc (log2 (n div 2)))"

declare log2.simps [simp del]

definition exponent_of :: "nat \<Rightarrow> nat \<Rightarrow> int" where
  "exponent_of num den =
     (let e = int (log2 num) - int (log2 den)
      in max (- 1022) (if den * 2 ^ nat e \<le> num * 2 ^ nat (- e) then e else e - 1))"

definition nearest_even :: "nat \<Rightarrow> nat \<Rightarrow> nat" where
  "nearest_even a b =
     (let q = a div b; r = a mod b
      in if b < 2 * r \<or> (2 * r = b \<and> odd q) then q + 1 else q)"

definition round_ratio :: "nat \<Rightarrow> nat \<Rightarrow> nat" where
  "round_ratio num den =
     (let e = exponent_of num den
      in min f64_inf (nat (e + 1022) * 2 ^ 52 + nearest_even (num * 2 ^ nat (52 - e)) (den * 2 ^ nat (e - 52))))"

definition f64_of_int :: "int \<Rightarrow> f64" where
  "f64_of_int i = (if i = 0 then 0 else pack (i < 0) (round_ratio (nat \<bar>i\<bar>) 1))"

text \<open>The casts to integers truncate or, after \<open>round\<close>, go to the nearest, halves
  away from zero; both saturate and take a NaN to zero.\<close>

definition f64_to_i64 :: "f64 \<Rightarrow> i64" where
  "f64_to_i64 x =
     (if is_nan x then 0
      else let (num, den) = ratio x;
               v = (if negative x then - int (num div den) else int (num div den))
           in word_of_int (max (- (2 ^ 63)) (min (2 ^ 63 - 1) v)))"

definition f64_round_u128 :: "f64 \<Rightarrow> nat" where
  "f64_round_u128 x =
     (if is_nan x \<or> negative x then 0
      else let (num, den) = ratio x in min (2 ^ 128 - 1) ((2 * num + den) div (2 * den)))"

definition f64_to_u64 :: "f64 \<Rightarrow> nat" where
  "f64_to_u64 x =
     (if is_nan x \<or> negative x then 0
      else let (num, den) = ratio x in min (2 ^ 64 - 1) (num div den))"

definition f64_max :: "f64 \<Rightarrow> f64 \<Rightarrow> f64" where
  "f64_max x y = (if is_nan x then y else if is_nan y then x else if f64_cmp x y = Some Less then y else x)"

section \<open>Arithmetic\<close>

definition f64_neg :: "f64 \<Rightarrow> f64" where
  "f64_neg x = pack (\<not> negative x) (magnitude x)"

definition f64_add :: "f64 \<Rightarrow> f64 \<Rightarrow> f64" where
  "f64_add x y =
     (if is_nan x \<or> is_nan y then f64_nan
      else if \<not> is_finite x then (if is_finite y \<or> negative x = negative y then x else f64_nan)
      else if \<not> is_finite y then y
      else let (a, b) = ratio x; (c, d) = ratio y;
               s = (if negative x then - int (a * d) else int (a * d)) + (if negative y then - int (c * b) else int (c * b))
           in if s = 0 then pack (negative x \<and> negative y) 0
              else pack (s < 0) (round_ratio (nat \<bar>s\<bar>) (b * d)))"

definition f64_sub :: "f64 \<Rightarrow> f64 \<Rightarrow> f64" where
  "f64_sub x y = (if is_nan y then f64_nan else f64_add x (f64_neg y))"

definition f64_mul :: "f64 \<Rightarrow> f64 \<Rightarrow> f64" where
  "f64_mul x y =
     (let neg = (negative x \<noteq> negative y)
      in if is_nan x \<or> is_nan y then f64_nan
         else if \<not> is_finite x \<or> \<not> is_finite y
         then (if magnitude x = 0 \<or> magnitude y = 0 then f64_nan else pack neg f64_inf)
         else let (a, b) = ratio x; (c, d) = ratio y
              in if a * c = 0 then pack neg 0 else pack neg (round_ratio (a * c) (b * d)))"

definition f64_div :: "f64 \<Rightarrow> f64 \<Rightarrow> f64" where
  "f64_div x y =
     (let neg = (negative x \<noteq> negative y)
      in if is_nan x \<or> is_nan y then f64_nan
         else if \<not> is_finite x then (if is_finite y then pack neg f64_inf else f64_nan)
         else if \<not> is_finite y then pack neg 0
         else if magnitude y = 0 then (if magnitude x = 0 then f64_nan else pack neg f64_inf)
         else let (a, b) = ratio x; (c, d) = ratio y
              in if a = 0 then pack neg 0 else pack neg (round_ratio (a * d) (b * c)))"

section \<open>Text\<close>

definition lower :: "u8 \<Rightarrow> u8" where
  "lower b = (if 65 \<le> b \<and> b \<le> 90 then b + 32 else b)"

text \<open>The exponent of a number: nothing, or \<open>e\<close> with an optional sign and digits.\<close>

definition parse_exponent :: "bytes \<Rightarrow> int option" where
  "parse_exponent bs =
     (case bs of
        [] \<Rightarrow> Some 0
      | b # r \<Rightarrow>
          if lower b \<noteq> 101 then None
          else (case r of
              c # q \<Rightarrow> if c = 45 then map_option (\<lambda>n. - int n) (parse_digits q)
                       else if c = 43 then map_option int (parse_digits q)
                       else map_option int (parse_digits r)
            | [] \<Rightarrow> None))"

definition takeWhile_digits :: "bytes \<Rightarrow> nat list \<times> bytes" where
  "takeWhile_digits bs =
     (map (\<lambda>b. unat b - 48) (takeWhile (\<lambda>b. to_digit b \<noteq> None) bs), dropWhile (\<lambda>b. to_digit b \<noteq> None) bs)"

definition parse_number :: "bytes \<Rightarrow> (nat \<times> nat) option" where
  "parse_number bs =
     (let (whole, r) = takeWhile_digits bs;
          (fraction, r) = (case r of b # q \<Rightarrow> if b = 46 then takeWhile_digits q else ([], r) | [] \<Rightarrow> ([], r))
      in if whole = [] \<and> fraction = [] then None
         else map_option (\<lambda>e. let n = dec_value (whole @ fraction); e = e - int (length fraction)
                              in (n * 10 ^ nat e, 10 ^ nat (- e)))
              (parse_exponent r))"

definition f64_parse :: "bytes \<Rightarrow> f64 option" where
  "f64_parse bs =
     (let (neg, r) =
        (case bs of
           b # r \<Rightarrow> if b = 45 then (True, r) else if b = 43 then (False, r) else (False, bs)
         | [] \<Rightarrow> (False, bs));
          word = map lower r
      in if word = lit ''inf'' \<or> word = lit ''infinity'' then Some (pack neg f64_inf)
         else if word = lit ''nan'' then Some (if neg then f64_neg f64_nan else f64_nan)
         else map_option (\<lambda>(num, den). if num = 0 then pack neg 0 else pack neg (round_ratio num den)) (parse_number r))"

section \<open>Order and casts\<close>

lemma log2_bounds: "0 < n \<Longrightarrow> 2 ^ log2 n \<le> n \<and> n < 2 ^ Suc (log2 n)"
proof (induction n rule: log2.induct)
  case (1 n)
  show ?case
  proof (cases "n \<le> 1")
    case False
    then have "2 ^ log2 (n div 2) \<le> n div 2 \<and> n div 2 < 2 ^ Suc (log2 (n div 2))" using 1 by simp
    then have "2 ^ log2 n \<le> 2 * (n div 2) \<and> 2 * (n div 2) + 1 < 2 ^ Suc (log2 n)"
      using False by (simp add: log2.simps[of n])
    then show ?thesis by linarith
  qed (use 1 in \<open>simp add: log2.simps\<close>)
qed

lemma log2_mono: "0 < m \<Longrightarrow> m \<le> n \<Longrightarrow> log2 m \<le> log2 n"
proof (rule ccontr)
  assume "0 < m" "m \<le> n" "\<not> log2 m \<le> log2 n"
  then have "2 ^ Suc (log2 n) \<le> (2::nat) ^ log2 m" by (intro power_increasing) auto
  then show False using log2_bounds[of m] log2_bounds[of n] \<open>0 < m\<close> \<open>m \<le> n\<close> by simp
qed

lemma exponent_of_nat: "0 < n \<Longrightarrow> exponent_of n (Suc 0) = int (log2 n)"
  using log2_bounds[of n] log2.simps[of "Suc 0"] by (simp add: exponent_of_def Let_def)

definition nat_bits :: "nat \<Rightarrow> nat" where
  "nat_bits n = round_ratio n 1"

lemma nearest_even_bounds: "a div b \<le> nearest_even a b \<and> nearest_even a b \<le> a div b + 1"
  by (simp add: nearest_even_def Let_def)

lemma nearest_even_one [simp]: "nearest_even a (Suc 0) = a"
  by (simp add: nearest_even_def)

lemma nearest_even_mono: "a \<le> a' \<Longrightarrow> nearest_even a b \<le> nearest_even a' b"
proof (cases "a div b = a' div b")
  case True
  assume "a \<le> a'"
  with True have "a mod b \<le> a' mod b"
    by (metis add_le_cancel_left div_mult_mod_eq)
  with True show ?thesis by (auto simp: nearest_even_def Let_def)
next
  case False
  assume "a \<le> a'"
  then have "a div b < a' div b" using False div_le_mono[of a a' b] by simp
  then show ?thesis using nearest_even_bounds[of a b] nearest_even_bounds[of a' b] by simp
qed

text \<open>The scaled significand of a whole number, between \<open>2 ^ 52\<close> and \<open>2 ^ 53\<close>.\<close>

definition significand :: "nat \<Rightarrow> nat" where
  "significand n = nearest_even (n * 2 ^ (52 - log2 n)) (2 ^ (log2 n - 52))"

lemma round_nat: "0 < n \<Longrightarrow> nat_bits n = min f64_inf ((log2 n + 1022) * 2 ^ 52 + significand n)"
proof -
  assume "0 < n"
  moreover have "nat (int (log2 n) + 1022) = log2 n + 1022" "nat (52 - int (log2 n)) = 52 - log2 n" "nat (int (log2 n) - 52) = log2 n - 52"
    by simp_all
  ultimately show ?thesis by (simp add: nat_bits_def round_ratio_def exponent_of_nat significand_def Let_def)
qed

lemma significand_small:
  assumes "0 < n" "n < 2 ^ 53"
  shows "significand n = n * 2 ^ (52 - log2 n) \<and> 2 ^ 52 \<le> significand n \<and> significand n < 2 ^ 53"
proof -
  have L: "log2 n \<le> 52"
  proof (rule ccontr)
    assume "\<not> log2 n \<le> 52"
    then have "(2::nat) ^ 53 \<le> 2 ^ log2 n" by (intro power_increasing) auto
    then show False using log2_bounds[of n] assms by simp
  qed
  have "2 ^ log2 n * 2 ^ (52 - log2 n) \<le> n * 2 ^ (52 - log2 n)" "n * 2 ^ (52 - log2 n) < 2 ^ Suc (log2 n) * 2 ^ (52 - log2 n)"
    using log2_bounds[OF assms(1)] by auto
  moreover have "(2::nat) ^ log2 n * 2 ^ (52 - log2 n) = 2 ^ 52" "(2::nat) ^ Suc (log2 n) * 2 ^ (52 - log2 n) = 2 ^ 53"
    using L by (simp_all flip: power_add power_Suc)
  ultimately have "2 ^ 52 \<le> n * 2 ^ (52 - log2 n) \<and> n * 2 ^ (52 - log2 n) < 2 ^ 53" by metis
  then show ?thesis using L by (simp add: significand_def)
qed

lemma significand_bounds:
  assumes "0 < n"
  shows "2 ^ 52 \<le> significand n \<and> significand n \<le> 2 ^ 53"
proof (cases "n < 2 ^ 53")
  case False
  have "log2 n \<ge> 53"
  proof (rule ccontr)
    assume "\<not> 53 \<le> log2 n"
    then have "(2::nat) ^ Suc (log2 n) \<le> 2 ^ 53" by (intro power_increasing) auto
    then show False using log2_bounds[of n] assms False by simp
  qed
  then obtain k where k: "log2 n = 52 + k" using nat_le_iff_add[of 52 "log2 n"] by auto
  have "2 ^ 52 * 2 ^ k \<le> n" "n < 2 ^ 53 * 2 ^ k" using log2_bounds[OF assms] by (simp_all add: k power_add mult.commute)
  then have "2 ^ 52 \<le> n div 2 ^ k" "n div 2 ^ k < 2 ^ 53"
    using div_le_mono[of "2 ^ 52 * 2 ^ k" n "2 ^ k"] by (simp_all add: less_mult_imp_div_less)
  then show ?thesis using nearest_even_bounds[of n "2 ^ k"] by (simp add: significand_def k)
qed (use significand_small[OF assms] in simp)

lemma round_nat_mono:
  assumes "0 < m" "m \<le> n"
  shows "nat_bits m \<le> nat_bits n"
proof -
  have "(log2 m + 1022) * 2 ^ 52 + significand m \<le> (log2 n + 1022) * 2 ^ 52 + significand n"
  proof (cases "log2 m = log2 n")
    case True
    then show ?thesis using assms(2) by (simp add: significand_def nearest_even_mono)
  next
    case False
    then have "log2 m < log2 n" using log2_mono[OF assms] by simp
    then have "(log2 m + 1022 + 1) * 2 ^ 52 \<le> (log2 n + 1022) * (2::nat) ^ 52" by (intro mult_right_mono) auto
    then show ?thesis using significand_bounds[OF assms(1)] significand_bounds[of n] assms by simp
  qed
  then show ?thesis using assms by (simp add: round_nat)
qed

lemma round_nat_finite:
  assumes "0 < n" "n < 2 ^ 65"
  shows "nat_bits n < f64_inf" "0 < nat_bits n" "nat_bits n = (log2 n + 1022) * 2 ^ 52 + significand n"
proof -
  have "log2 n < 65"
  proof (rule ccontr)
    assume "\<not> log2 n < 65"
    then have "(2::nat) ^ 65 \<le> 2 ^ log2 n" by (intro power_increasing) auto
    then show False using log2_bounds[of n] assms by simp
  qed
  then have "(log2 n + 1022) * 2 ^ 52 \<le> 1086 * (2::nat) ^ 52" by (intro mult_right_mono) auto
  then have "(log2 n + 1022) * 2 ^ 52 + significand n < f64_inf"
    using significand_bounds[OF assms(1)] by (simp add: f64_inf_def)
  then show "nat_bits n < f64_inf" "0 < nat_bits n" "nat_bits n = (log2 n + 1022) * 2 ^ 52 + significand n"
    using significand_bounds[OF assms(1)] by (simp_all add: round_nat[OF assms(1)])
qed

lemma round_nat_strict:
  assumes "0 < m" "m < n" "n \<le> 2 ^ 53"
  shows "nat_bits m < nat_bits n"
proof -
  have fin: "m < 2 ^ 53" "m < 2 ^ 65" "n < 2 ^ 65" "0 < n" using assms by simp_all
  have "(log2 m + 1022) * 2 ^ 52 + significand m < (log2 n + 1022) * 2 ^ 52 + significand n"
  proof (cases "log2 m = log2 n")
    case True
    have "n < 2 ^ Suc (log2 m)" using log2_bounds[of n] True fin by simp
    moreover have "2 ^ log2 m \<le> m" using log2_bounds[of m] assms by simp
    ultimately have "n \<noteq> 2 ^ 53" using fin(1) power_less_imp_less_exp[of "2::nat" "log2 m" 53] power_less_imp_less_exp[of "2::nat" 53 "Suc (log2 m)"]
      by auto
    then have "n < 2 ^ 53" using assms by simp
    then show ?thesis using True assms significand_small[of n] significand_small[of m] fin by simp
  next
    case False
    then have "log2 m < log2 n" using log2_mono[of m n] assms by simp
    then have "(log2 m + 1022 + 1) * 2 ^ 52 \<le> (log2 n + 1022) * (2::nat) ^ 52" by (intro mult_right_mono) auto
    then show ?thesis using significand_small[OF assms(1) fin(1)] significand_bounds[of n] fin by simp
  qed
  then show ?thesis using round_nat_finite(3)[of m] round_nat_finite(3)[of n] fin assms by simp
qed

lemma pack_parts:
  assumes "m < 2 ^ 63"
  shows "magnitude (pack neg m) = m" "negative (pack neg m) = neg"
proof -
  have "unat (pack neg m) = (if neg then 2 ^ 63 else 0) + m"
    using assms by (auto simp: pack_def unat_of_nat simp del: of_nat_add)
  then show "magnitude (pack neg m) = m" "negative (pack neg m) = neg"
    using assms by (auto simp: magnitude_def negative_def)
qed

definition int_key :: "int \<Rightarrow> int" where
  "int_key i = sgn i * (if i = 0 then 0 else int (nat_bits (nat \<bar>i\<bar>)))"

lemma f64_of_int_key:
  assumes "\<bar>i\<bar> < 2 ^ 65"
  shows "order_key (f64_of_int i) = int_key i" "\<not> is_nan (f64_of_int i)"
proof -
  have "order_key (f64_of_int i) = int_key i \<and> \<not> is_nan (f64_of_int i)"
  proof (cases "i = 0")
    case False
    then have r: "nat_bits (nat \<bar>i\<bar>) < f64_inf" using assms by (intro round_nat_finite(1)) auto
    then have "nat_bits (nat \<bar>i\<bar>) < 2 ^ 63" by (simp add: f64_inf_def)
    then have p: "magnitude (f64_of_int i) = nat_bits (nat \<bar>i\<bar>)" "negative (f64_of_int i) = (i < 0)"
      using False pack_parts[of "nat_bits (nat \<bar>i\<bar>)" "i < 0"] by (simp_all only: f64_of_int_def nat_bits_def if_False)
    show ?thesis unfolding order_key_def is_nan_def p int_key_def using r False by (simp add: sgn_if)
  qed (simp add: order_key_def f64_of_int_def magnitude_def negative_def is_nan_def int_key_def)
  then show "order_key (f64_of_int i) = int_key i" "\<not> is_nan (f64_of_int i)" by simp_all
qed

lemma int_key_mono: "i \<le> j \<Longrightarrow> int_key i \<le> int_key j"
  using round_nat_mono[of "nat i" "nat j"] round_nat_mono[of "nat (- j)" "nat (- i)"]
  by (auto simp: int_key_def sgn_if)

lemma int_key_strict:
  assumes "i < j" "\<bar>i\<bar> \<le> 2 ^ 53" "\<bar>j\<bar> \<le> 2 ^ 53"
  shows "int_key i < int_key j"
proof -
  have pos: "0 < nat_bits n" if "0 < n" "n \<le> 2 ^ 53" for n using that by (intro round_nat_finite(2)) auto
  show ?thesis
    using assms round_nat_strict[of "nat i" "nat j"] round_nat_strict[of "nat (- j)" "nat (- i)"] pos[of "nat j"] pos[of "nat (- i)"]
    by (auto simp: int_key_def sgn_if nat_le_iff)
qed

text \<open>Whole numbers keep their order, and up to \<open>2 ^ 53\<close> they keep their difference.\<close>

lemma f64_cmp_ints:
  assumes "\<bar>i\<bar> < 2 ^ 65" "\<bar>j\<bar> < 2 ^ 65"
  shows "f64_cmp (f64_of_int i) (f64_of_int j) = Some (cmp (int_key i) (int_key j))"
  using f64_of_int_key[OF assms(1)] f64_of_int_key[OF assms(2)] by (simp add: f64_cmp_def)

lemma cmp_int_key:
  assumes "\<bar>i\<bar> \<le> 2 ^ 53" "\<bar>j\<bar> \<le> 2 ^ 53"
  shows "cmp (int_key i) (int_key j) = cmp i j"
  using int_key_strict[of i j] int_key_strict[of j i] assms by (cases i j rule: linorder_cases) (auto simp: cmp_def)

end
