(* ===== verification/Money.thy ===== *)
theory Money
  imports Float64 Complex_Main
begin

text \<open>
  Exact money, \<^verbatim>\<open>tallyowl-head/src/money.rs\<close>: an amount is a whole number of units at a
  decimal scale. An \<open>i128\<close> is an integer whose checked operations return \<open>None\<close> out of
  range, a \<open>u128\<close> a natural number whose saturating operations stop at the largest
  one, and the weights of a division are doubles.
\<close>

section \<open>Amounts\<close>

definition GUARD_DIGITS :: nat where
  "GUARD_DIGITS = 6"

definition MAX_SCALE :: nat where
  "MAX_SCALE = 18"

record amount =
  units :: int
  scale :: nat

definition amount_ok :: "amount \<Rightarrow> bool" where
  "amount_ok a = (in_i128 (units a) \<and> scale a < 2 ^ 32)"

text \<open>The digits are read and accumulated in one loop; either failure returns \<open>None\<close>.\<close>

definition amount_parse :: "bytes \<Rightarrow> amount option" where
  "amount_parse t =
     (let t = trim t in
      if t = [] then None
      else let (negative, rest) =
             (case strip_prefix 45 t of
                Some rest \<Rightarrow> (True, rest)
              | None \<Rightarrow> (False, case strip_prefix 43 t of Some rest \<Rightarrow> rest | None \<Rightarrow> t));
               (whole, fraction) = (case split_once 46 rest of Some p \<Rightarrow> p | None \<Rightarrow> (rest, []))
           in if whole = [] \<and> fraction = [] then None
              else if MAX_SCALE < length fraction mod 2 ^ 32 then None
              else case digits (whole @ fraction) of
                     None \<Rightarrow> None
                   | Some ds \<Rightarrow>
                       map_option (\<lambda>u. \<lparr>units = if negative then - u else u, scale = length fraction mod 2 ^ 32\<rparr>)
                         (push_digits 0 ds))"

definition at_scale :: "amount \<Rightarrow> nat \<Rightarrow> amount option" where
  "at_scale a s =
     (if s < scale a then None
      else Option.bind (checked (10 ^ (s - scale a))) (\<lambda>factor.
           map_option (\<lambda>u. \<lparr>units = u, scale = s\<rparr>) (checked (units a * factor))))"

definition amount_add :: "amount \<Rightarrow> amount \<Rightarrow> amount option" where
  "amount_add a b =
     (let s = max (scale a) (scale b) in
      Option.bind (at_scale a s) (\<lambda>l.
      Option.bind (at_scale b s) (\<lambda>r.
      map_option (\<lambda>u. \<lparr>units = u, scale = s\<rparr>) (checked (units l + units r)))))"

definition is_zero :: "amount \<Rightarrow> bool" where
  "is_zero a = (units a = 0)"

definition drop_trailing_zeros :: "bytes \<Rightarrow> bytes" where
  "drop_trailing_zeros bs = rev (dropWhile (\<lambda>b. b = 48) (rev bs))"

definition pad_digits :: "nat \<Rightarrow> bytes \<Rightarrow> bytes" where
  "pad_digits s ds = (if length ds \<le> s then replicate (s + 1 - length ds) 48 @ ds else ds)"

definition to_text :: "amount \<Rightarrow> bytes" where
  "to_text a =
     (if scale a = 0 then dec_int (units a)
      else let padded = pad_digits (scale a) (dec (nat \<bar>units a\<bar>));
               split = length padded - scale a;
               fraction = drop_trailing_zeros (drop split padded);
               whole = take split padded;
               body = (if fraction = [] then whole else whole @ 46 # fraction)
           in if units a < 0 \<and> units a \<noteq> 0 then 45 # body else body)"

section \<open>Division\<close>

definition sat :: "nat \<Rightarrow> nat" where
  "sat n = min (2 ^ 128 - 1) n"

definition WEIGHT_PARTS :: f64 where
  "WEIGHT_PARTS = f64_of_int (10 ^ 15)"

definition clean_weight :: "f64 \<Rightarrow> f64" where
  "clean_weight w = (if is_finite w \<and> f64_cmp w 0 = Some Greater then w else 0)"

text \<open>The weights as whole numbers of parts; equal ones when none of them counts.\<close>

definition scaled_weights :: "f64 list \<Rightarrow> nat list" where
  "scaled_weights cleaned =
     (let total = foldl f64_add (f64_neg 0) cleaned
      in if f64_cmp total 0 = Some Greater \<and> is_finite total
         then map (\<lambda>w. f64_round_u128 (f64_mul (f64_div w total) WEIGHT_PARTS)) cleaned
         else replicate (length cleaned) 1)"

definition weight_units :: "f64 list \<Rightarrow> nat list" where
  "weight_units weights =
     (let whole = scaled_weights (map clean_weight weights)
      in if list_all (\<lambda>w. w = 0) whole then replicate (length weights) 1 else whole)"

definition first_parts :: "nat \<Rightarrow> nat list \<Rightarrow> (nat \<times> nat) list" where
  "first_parts mag whole =
     (let total = sum_list whole mod 2 ^ 128; quotient = mag div total; rest = mag mod total
      in map (\<lambda>w. let fine = sat (rest * w)
                  in (sat (sat (quotient * w) + fine div total), fine mod total)) whole)"

definition remainder_order :: "nat list \<Rightarrow> f64 list \<Rightarrow> nat list" where
  "remainder_order remainders cleaned =
     sort_key (\<lambda>i. (- int (remainders ! i), - order_key (cleaned ! i), i)) [0..<length remainders]"

definition hand_out :: "nat \<Rightarrow> nat \<Rightarrow> nat list \<Rightarrow> nat list \<Rightarrow> nat list" where
  "hand_out each extra order ps =
     foldl (\<lambda>ps (rank, i). ps[i := sat (sat (ps ! i + each) + (if rank < extra then 1 else 0))])
       ps (enumerate 0 order)"

definition split_of :: "amount \<Rightarrow> f64 list \<Rightarrow> amount list" where
  "split_of working weights =
     (if weights = [] then []
      else let mag = nat \<bar>units working\<bar>;
               sign = (if units working < 0 then - 1 else 1 :: int);
               parts = first_parts mag (weight_units weights);
               handed_out = foldl (\<lambda>s p. sat (s + p)) 0 (map fst parts);
               left = mag - handed_out;
               order = remainder_order (map snd parts) (map clean_weight weights);
               count = length order
           in map (\<lambda>u. \<lparr>units = (if int u < 2 ^ 127 then int u else 2 ^ 127 - 1) * sign, scale = scale working\<rparr>)
                (hand_out (left div count) (left mod count) order (map fst parts)))"

definition split_working :: "amount \<Rightarrow> amount" where
  "split_working a =
     (case at_scale a (min ((scale a + GUARD_DIGITS) mod 2 ^ 32) MAX_SCALE) of Some w \<Rightarrow> w | None \<Rightarrow> a)"

definition split_amount :: "amount \<Rightarrow> f64 list \<Rightarrow> amount list" where
  "split_amount a weights = (if weights = [] then [] else split_of (split_working a) weights)"

section \<open>The value of an amount\<close>

definition amount_value :: "amount \<Rightarrow> rat" where
  "amount_value a = of_int (units a) / 10 ^ scale a"

lemma at_scale_value: "at_scale a s = Some b \<Longrightarrow> amount_value b = amount_value a \<and> scale b = s"
  by (auto simp: at_scale_def amount_value_def checked_def field_simps simp flip: power_add
      split: if_splits Option.bind_splits)

lemma at_scale_eq:
  "at_scale a s = (if scale a \<le> s \<and> in_i128 (10 ^ (s - scale a)) \<and> in_i128 (units a * 10 ^ (s - scale a))
     then Some \<lparr>units = units a * 10 ^ (s - scale a), scale = s\<rparr> else None)"
  by (simp add: at_scale_def checked_def)

section \<open>Text\<close>

lemma pad_digits_value:
  "\<exists>ds. digits (pad_digits s (dec n)) = Some ds \<and> dec_value ds = n \<and> s < length (pad_digits s (dec n))"
  using digits_dec[of n] by (auto simp: pad_digits_def digits_replicate dec_value_zeros)

lemma drop_trailing_zeros_parts:
  "\<exists>k. bs = drop_trailing_zeros bs @ replicate k 48"
proof -
  define zs where "zs = takeWhile (\<lambda>b. b = 48) (rev bs)"
  have "rev bs = zs @ dropWhile (\<lambda>b. b = 48) (rev bs)" by (simp add: zs_def)
  moreover have "zs = replicate (length zs) 48"
    unfolding zs_def by (rule replicate_eqI) (auto dest: set_takeWhileD)
  ultimately have "rev bs = replicate (length zs) 48 @ dropWhile (\<lambda>b. b = 48) (rev bs)" by simp
  then have "rev (rev bs) = rev (dropWhile (\<lambda>b. b = 48) (rev bs)) @ rev (replicate (length zs) 48)"
    unfolding rev_append[symmetric] by (rule arg_cong)
  then have "bs = rev (dropWhile (\<lambda>b. b = 48) (rev bs)) @ rev (replicate (length zs) 48)" by simp
  then show ?thesis unfolding drop_trailing_zeros_def rev_replicate by blast
qed

text \<open>What the reader returns on a sign, digits and a fraction.\<close>

lemma amount_parse_written:
  assumes "digits (w @ f) = Some ds" "w \<noteq> []" "length f \<le> MAX_SCALE" "int (dec_value ds) < 2 ^ 127"
    and body: "body = (if f = [] then w else w @ 46 # f)"
  shows "amount_parse (if neg then 45 # body else body)
    = Some \<lparr>units = (if neg then - int (dec_value ds) else int (dec_value ds)), scale = length f\<rparr>"
proof -
  have dg: "list_all digit_byte (w @ f)" "list_all (\<lambda>d. d < 10) ds" using digits_all[OF assms(1)] by auto
  then have no46: "46 \<notin> set w" using digit_byte_not by (auto simp: list_all_iff)
  have plain: "list_all plain_byte body"
    using dg digit_plain by (auto simp: body list_all_iff plain_byte_def)
  have m: "plain_byte 45" by (simp add: plain_byte_def)
  have t: "trim (if neg then 45 # body else body) = (if neg then 45 # body else body)"
    using plain m by (intro trim_plain) auto
  obtain b r where w: "w = b # r" "b \<noteq> 45" "b \<noteq> 43" using assms(2) dg digit_byte_not by (cases w) auto
  have sp: "(case split_once 46 body of Some p \<Rightarrow> p | None \<Rightarrow> (body, [])) = (w, f)"
    using no46 by (auto simp: body split_once_absent split_once_at)
  have b: "body \<noteq> []" "strip_prefix 45 body = None" "strip_prefix 43 body = None"
    using w by (auto simp: body strip_prefix_def)
  have u: "push_digits 0 ds = Some (int (dec_value ds))"
    using push_digits_exact[of 0 ds] dg assms(4) by (simp add: checked_def in_i128_def)
  have len: "length f mod 2 ^ 32 = length f" "\<not> MAX_SCALE < length f mod 2 ^ 32" using assms(3) by (auto simp: MAX_SCALE_def)
  show ?thesis
    unfolding amount_parse_def t using sp b u len assms(1,2)
    by (cases neg) (auto simp: Let_def strip_prefix_def)
qed

lemma amount_round_trip:
  assumes "scale a \<le> MAX_SCALE" "\<bar>units a\<bar> < 2 ^ 127"
  shows "\<exists>b. amount_parse (to_text a) = Some b \<and> amount_value b = amount_value a \<and> scale b \<le> scale a"
proof (cases "scale a = 0")
  case True
  obtain ds where ds: "digits (dec (nat \<bar>units a\<bar>)) = Some ds" "dec_value ds = nat \<bar>units a\<bar>" using digits_dec by blast
  show ?thesis
    using amount_parse_written[of "dec (nat \<bar>units a\<bar>)" "[]" ds "dec (nat \<bar>units a\<bar>)" "units a < 0"] ds assms True
    by (auto simp: to_text_def dec_int_cases amount_value_def split: if_splits)
next
  case False
  define p where "p = pad_digits (scale a) (dec (nat \<bar>units a\<bar>))"
  define w where "w = take (length p - scale a) p"
  define f where "f = drop_trailing_zeros (drop (length p - scale a) p)"
  obtain ds where ds: "digits p = Some ds" "dec_value ds = nat \<bar>units a\<bar>" "scale a < length p"
    using pad_digits_value[of "scale a" "nat \<bar>units a\<bar>"] by (auto simp: p_def)
  obtain k where k: "drop (length p - scale a) p = f @ replicate k 48" using drop_trailing_zeros_parts f_def by metis
  have p: "p = (w @ f) @ replicate k 48" using k by (simp add: w_def) (metis append_take_drop_id)
  then obtain es where es: "digits (w @ f) = Some es" "ds = es @ replicate k 0"
    using ds(1) digits_append[of "w @ f" "replicate k 48"] digits_replicate[of k "[]"] by (auto split: option.splits)
  have len: "length f + k = scale a" using arg_cong[OF k, of length] ds(3) by simp
  have v: "dec_value ds = dec_value es * 10 ^ k" using dec_value_zeros[of k "[]"] by (simp add: es dec_value_append)
  have "dec_value es \<le> dec_value ds" by (simp add: v)
  then have bound: "int (dec_value es) < 2 ^ 127" using ds(2) assms(2) by simp
  have "w \<noteq> []" using ds(3) by (auto simp: w_def)
  then have "amount_parse (if units a < 0 then 45 # (if f = [] then w else w @ 46 # f) else (if f = [] then w else w @ 46 # f))
      = Some \<lparr>units = (if units a < 0 then - int (dec_value es) else int (dec_value es)), scale = length f\<rparr>" (is "_ = Some ?b")
    using es bound len assms(1) by (intro amount_parse_written) auto
  moreover have "to_text a = (if units a < 0 then 45 # (if f = [] then w else w @ 46 # f) else (if f = [] then w else w @ 46 # f))"
    using False by (simp add: to_text_def Let_def p_def w_def f_def)
  moreover have "units a = units ?b * 10 ^ k"
    using v ds(2) by (cases "units a < 0") (auto simp: nat_eq_iff)
  then have "amount_value ?b = amount_value a"
    using len by (auto simp: amount_value_def power_add[symmetric] field_simps simp flip: len)
  ultimately show ?thesis using len by auto
qed

section \<open>Division\<close>

lemma int_sum_list: "int (sum_list xs) = sum_list (map int xs)"
  by (induction xs) simp_all

lemma sat_id: "n < 2 ^ 128 \<Longrightarrow> sat n = n"
  by (simp add: sat_def)

lemma sat_le: "sat n \<le> n"
  by (simp add: sat_def)

lemma foldl_sat: "s + sum_list ps < 2 ^ 128 \<Longrightarrow> foldl (\<lambda>s p. sat (s + p)) s ps = s + sum_list ps"
  by (induction ps arbitrary: s) (simp_all add: sat_id)

lemma weight_units_ok: "ws \<noteq> [] \<Longrightarrow> length (weight_units ws) = length ws \<and> 0 < sum_list (weight_units ws)"
proof -
  assume ws: "ws \<noteq> []"
  have l: "length (scaled_weights (map clean_weight ws)) = length ws" by (simp add: scaled_weights_def Let_def)
  show ?thesis
  proof (cases "list_all (\<lambda>w. w = 0) (scaled_weights (map clean_weight ws))")
    case True
    then show ?thesis using ws by (simp add: weight_units_def sum_list_replicate)
  next
    case False
    then have "sum_list (scaled_weights (map clean_weight ws)) \<noteq> 0" by (simp add: sum_list_eq_0_iff list_all_iff)
    then have "0 < sum_list (scaled_weights (map clean_weight ws))" by (rule neq0_conv[THEN iffD1])
    then show ?thesis using False l by (simp add: weight_units_def)
  qed
qed

text \<open>When no weight counts, every part has the same weight.\<close>

lemma f64_add_zeros: "magnitude x = 0 \<Longrightarrow> magnitude y = 0 \<Longrightarrow> magnitude (f64_add x y) = 0"
  by (auto simp: f64_add_def is_nan_def is_finite_def f64_inf_def ratio_def f64_parts_def scale2_def pack_parts)

lemma f64_cmp_zero: "magnitude x = 0 \<Longrightarrow> f64_cmp x 0 = Some Equal"
  by (simp add: f64_cmp_def is_nan_def f64_inf_def order_key_def magnitude_def)

lemma no_weight_counts:
  assumes "\<forall>w \<in> set ws. clean_weight w = 0"
  shows "weight_units ws = replicate (length ws) 1"
proof -
  have z: "magnitude 0 = 0" by (simp add: magnitude_def)
  then have z: "magnitude 0 = 0" "magnitude (f64_neg 0) = 0" by (simp_all add: f64_neg_def pack_parts)
  have "magnitude (foldl f64_add a (map clean_weight ws)) = 0" if "magnitude a = 0" for a
    using that assms by (induction ws arbitrary: a) (simp_all add: f64_add_zeros z)
  then have "scaled_weights (map clean_weight ws) = replicate (length ws) 1"
    using z(2) by (simp add: scaled_weights_def f64_cmp_zero)
  then show ?thesis by (simp add: weight_units_def Let_def)
qed

lemma sum_list_div_le: "sum_list (map (\<lambda>w. f w div d) ws) \<le> sum_list (map f ws) div (d::nat)"
proof (induction ws)
  case (Cons w ws)
  have "f w div d + sum_list (map f ws) div d \<le> (f w + sum_list (map f ws)) div d"
    by (cases "d = 0") (simp_all add: div_add1_eq[of "f w"])
  then show ?case using Cons by simp
qed simp

text \<open>The whole parts never come to more than the amount.\<close>

lemma first_parts_sum:
  assumes "mag \<le> 2 ^ 127" "0 < sum_list whole" "sum_list whole < 2 ^ 128"
  shows "sum_list (map fst (first_parts mag whole)) \<le> mag"
    and "p \<in> set (map fst (first_parts mag whole)) \<Longrightarrow> p \<le> mag"
proof -
  define t where "t = sum_list whole"
  define q r where "q = mag div t" and "r = mag mod t"
  have t: "0 < t" "sum_list whole mod 2 ^ 128 = t" using assms by (simp_all add: t_def)
  have mag: "mag = q * t + r" by (simp add: q_def r_def)
  have "map fst (first_parts mag whole) = map (\<lambda>w. sat (sat (q * w) + sat (r * w) div t)) whole"
    unfolding first_parts_def Let_def t(2) q_def r_def map_map comp_def fst_conv ..
  also have "sum_list \<dots> \<le> sum_list (map (\<lambda>w. q * w + (r * w) div t) whole)"
    by (intro sum_list_mono) (meson add_mono div_le_mono le_trans sat_le)
  also have "\<dots> = q * t + sum_list (map (\<lambda>w. (r * w) div t) whole)"
    by (simp add: sum_list_addf sum_list_const_mult t_def)
  also have "\<dots> \<le> q * t + (r * t) div t"
    using sum_list_div_le[of "\<lambda>w. r * w" t whole] by (simp add: sum_list_const_mult t_def)
  also have "\<dots> = mag" using t mag by simp
  finally show *: "sum_list (map fst (first_parts mag whole)) \<le> mag" .
  show "p \<in> set (map fst (first_parts mag whole)) \<Longrightarrow> p \<le> mag"
    using member_le_sum_list[of p "map fst (first_parts mag whole)"] * by simp
qed

lemma length_first_parts [simp]: "length (first_parts mag whole) = length whole"
  by (simp add: first_parts_def Let_def)

lemma remainder_order_perm: "set (remainder_order rs cs) = {..<length rs}" "distinct (remainder_order rs cs)" "length (remainder_order rs cs) = length rs"
  by (auto simp: remainder_order_def)

text \<open>Each place of the order is updated once.\<close>

lemma updates_once:
  assumes "distinct order" "set order \<subseteq> {..<length ps}"
  shows "length (foldl (\<lambda>ps (rank, i). ps[i := g rank (ps ! i)]) ps (enumerate k order)) = length ps"
    and "(\<forall>r < length order.
      foldl (\<lambda>ps (rank, i). ps[i := g rank (ps ! i)]) ps (enumerate k order) ! (order ! r) = g (k + r) (ps ! (order ! r)))
      \<and> (\<forall>i. i \<notin> set order \<longrightarrow> foldl (\<lambda>ps (rank, i). ps[i := g rank (ps ! i)]) ps (enumerate k order) ! i = ps ! i)"
  using assms
proof (induction order arbitrary: ps k)
  case (Cons j order)
  {
    case 1
    then show ?case using Cons.IH(1)[of "ps[j := g k (ps ! j)]" "Suc k"] by simp
  next
    case 2
    then show ?case
      using Cons.IH(2)[of "ps[j := g k (ps ! j)]" "Suc k"] by (auto simp: nth_Cons split: nat.splits) (metis nth_list_update_neq nth_mem)
  }
qed simp_all

lemma sum_list_perm:
  fixes ps :: "nat list"
  assumes "distinct order" "set order = {..<length ps}"
  shows "sum_list ps = (\<Sum>r < length order. ps ! (order ! r))"
proof -
  have "bij_betw ((!) order) {..<length order} {..<length ps}"
    using bij_betw_nth[OF assms(1), of "{..<length order}" "set order"] assms(2) by simp
  then have "(\<Sum>r < length order. ps ! (order ! r)) = (\<Sum>i < length ps. ps ! i)"
    by (rule sum.reindex_bij_betw)
  then show ?thesis by (simp add: sum_list_sum_nth atLeast0LessThan)
qed

lemma hand_out_sum:
  fixes ps :: "nat list"
  assumes order: "distinct order" "set order = {..<length ps}"
    and mag: "sum_list ps + (each * length ps + extra) = mag" "mag < 2 ^ 128" "extra < length ps"
  shows "length (hand_out each extra order ps) = length ps"
    and "sum_list (hand_out each extra order ps) = mag"
    and "i < length ps \<Longrightarrow> ps ! i + each \<le> hand_out each extra order ps ! i
      \<and> hand_out each extra order ps ! i \<le> ps ! i + each + (if extra = 0 then 0 else 1)"
proof -
  define g where "g rank p = sat (sat (p + each) + (if rank < extra then 1 else 0))" for rank p
  let ?out = "hand_out each extra order ps"
  have out: "?out = foldl (\<lambda>ps (rank, i). ps[i := g rank (ps ! i)]) ps (enumerate 0 order)"
    by (simp add: hand_out_def g_def)
  have n: "length order = length ps" using order distinct_card[of order] by auto
  have sub: "set order \<subseteq> {..<length ps}" using order by simp
  show l: "length ?out = length ps" unfolding out by (rule updates_once(1)[OF order(1) sub])
  have "each \<le> each * length ps" using mag(3) by (cases ps) auto
  then have bump: "each + (if rank < extra then 1 else 0) \<le> each * length ps + extra" for rank
    by (split if_split) linarith
  have at: "?out ! (order ! r) = ps ! (order ! r) + each + (if r < extra then 1 else 0)" if "r < length ps" for r
  proof -
    have "order ! r < length ps" using that order n by (metis lessThan_iff nth_mem)
    then have "ps ! (order ! r) \<le> sum_list ps" by (simp add: elem_le_sum_list)
    then have b: "ps ! (order ! r) + each + (if r < extra then 1 else 0) \<le> mag" using bump[of r] mag(1) by linarith
    then have "ps ! (order ! r) + each \<le> mag" by linarith
    then have "g r (ps ! (order ! r)) = ps ! (order ! r) + each + (if r < extra then 1 else 0)"
      using b mag(2) unfolding g_def by (metis le_less_trans sat_id)
    then show ?thesis using updates_once(2)[OF order(1) sub, of g 0] that n unfolding out by simp
  qed
  have "(\<Sum>r < length ps. if r < extra then 1 else 0) = extra"
  proof -
    have "{..<length ps} \<inter> {r. r < extra} = {..<extra}" using mag(3) by auto
    then show ?thesis by (simp add: sum.If_cases)
  qed
  then have "(\<Sum>r < length ps. ?out ! (order ! r)) = (\<Sum>r < length ps. ps ! (order ! r)) + (each * length ps + extra)"
    by (simp add: at sum.distrib)
  then show "sum_list ?out = mag"
    using sum_list_perm[of order ?out] sum_list_perm[OF order] order l n mag(1) by simp
  show "ps ! i + each \<le> ?out ! i \<and> ?out ! i \<le> ps ! i + each + (if extra = 0 then 0 else 1)" if i: "i < length ps"
  proof -
    obtain r where "r < length ps" "order ! r = i" using i order n by (metis in_set_conv_nth lessThan_iff)
    then show ?thesis using at[of r] by simp
  qed
qed

lemma first_parts_near:
  assumes "0 < sum_list whole" "sum_list whole * sum_list whole < 2 ^ 128" "mag \<le> 2 ^ 127" "i < length whole"
  shows "fst (first_parts mag whole ! i) = mag * whole ! i div sum_list whole"
proof -
  define t where "t = sum_list whole"
  have w: "whole ! i \<le> t" using assms(4) by (simp add: elem_le_sum_list t_def)
  have "t \<le> t * t" by (rule le_square)
  then have "t < 2 ^ 128" using assms(2) unfolding t_def by linarith
  then have t: "0 < t" "t < 2 ^ 128" "sum_list whole mod 2 ^ 128 = t" using assms(1) by (simp_all add: t_def)
  have "mag mod t * whole ! i \<le> t * t" using w t(1) by (intro mult_mono) auto
  then have f: "sat (mag mod t * whole ! i) = mag mod t * whole ! i" using assms(2) by (intro sat_id) (simp add: t_def)
  have eq: "mag div t * whole ! i + mag mod t * whole ! i div t = mag * whole ! i div t"
  proof -
    have "mag * whole ! i = (mag div t * whole ! i) * t + mag mod t * whole ! i"
      by (metis add_mult_distrib div_mult_mod_eq mult.commute mult.left_commute)
    then show ?thesis using t(1) by simp
  qed
  have "mag * whole ! i div t \<le> mag * t div t" using w by (intro div_le_mono mult_left_mono) auto
  then have b: "mag * whole ! i div t < 2 ^ 128" using t(1) assms(3) by simp
  then have "mag div t * whole ! i < 2 ^ 128" using eq by linarith
  then have "sat (sat (mag div t * whole ! i) + sat (mag mod t * whole ! i) div t) = mag * whole ! i div t"
    using b by (simp add: sat_id f eq)
  then show ?thesis using assms(4) unfolding first_parts_def Let_def t(3) by (simp add: t_def)
qed

text \<open>How the pieces of a division fit together.\<close>

lemma split_of_parts:
  assumes "ws \<noteq> []" "sum_list (weight_units ws) < 2 ^ 128" "\<bar>units w\<bar> < 2 ^ 127"
  obtains ps e x where "ps = map fst (first_parts (nat \<bar>units w\<bar>) (weight_units ws))" "x < length ws"
    "sum_list ps + (e * length ws + x) = nat \<bar>units w\<bar>"
    "length (split_of w ws) = length ws"
    "sum_list (map units (split_of w ws)) = units w"
    "\<forall>p \<in> set (split_of w ws). scale p = scale w"
    "\<forall>i < length ws. ps ! i + e \<le> nat \<bar>units (split_of w ws ! i)\<bar>
        \<and> nat \<bar>units (split_of w ws ! i)\<bar> \<le> ps ! i + e + (if x = 0 then 0 else 1)
        \<and> (if units w < 0 then units (split_of w ws ! i) \<le> 0 else 0 \<le> units (split_of w ws ! i))"
proof -
  define mag where "mag = nat \<bar>units w\<bar>"
  define fp where "fp = first_parts mag (weight_units ws)"
  define ps where "ps = map fst fp"
  define order where "order = remainder_order (map snd fp) (map clean_weight ws)"
  define e x where "e = (mag - sum_list ps) div length ws" and "x = (mag - sum_list ps) mod length ws"
  define out where "out = hand_out e x order ps"
  note wu = weight_units_ok[OF assms(1)]
  have l: "length ps = length ws" "length fp = length ws" by (simp_all add: ps_def fp_def wu)
  have m: "mag < 2 ^ 127" using assms(3) by (simp add: mag_def nat_less_iff)
  have le: "sum_list ps \<le> mag" using first_parts_sum(1)[of mag "weight_units ws"] assms(2) wu m by (simp add: ps_def fp_def)
  have ord: "distinct order" "set order = {..<length ps}" "length order = length ws"
    by (simp_all add: order_def remainder_order_perm l)
  have x: "x < length ws" using assms(1) by (simp add: x_def)
  have sum: "sum_list ps + (e * length ws + x) = mag" using le by (simp add: e_def x_def)
  note ho = hand_out_sum[OF ord(1,2), of e x mag]
  have out: "length out = length ws" "sum_list out = mag"
    using ho(1,2) sum x m by (simp_all add: l out_def)
  have near: "ps ! i + e \<le> out ! i \<and> out ! i \<le> ps ! i + e + (if x = 0 then 0 else 1)" if "i < length ws" for i
    using ho(3)[of i] that sum x m by (simp add: l out_def)
  have "foldl (\<lambda>s p. sat (s + p)) 0 ps = sum_list ps" using foldl_sat[of 0 ps] le m by simp
  then have s: "split_of w ws = map (\<lambda>u. \<lparr>units = (if int u < 2 ^ 127 then int u else 2 ^ 127 - 1) * (if units w < 0 then - 1 else 1), scale = scale w\<rparr>) out"
    using assms(1) ord(3) unfolding split_of_def Let_def mag_def[symmetric] fp_def[symmetric] ps_def[symmetric] order_def[symmetric] out_def e_def x_def
    by simp
  have small: "int u < 2 ^ 127" if "u \<in> set out" for u
  proof -
    have "u \<le> mag" using member_le_sum_list[OF that] out(2) by simp
    then have "u < 2 ^ 127" using m by linarith
    then show ?thesis by simp
  qed
  then have s': "map units (split_of w ws) = map (\<lambda>u. int u * (if units w < 0 then - 1 else 1)) out" by (simp add: s)
  have "sum_list (map units (split_of w ws)) = int (sum_list out) * (if units w < 0 then - 1 else 1)"
    unfolding s' sum_list_mult_const by (simp add: int_sum_list)
  then have su: "sum_list (map units (split_of w ws)) = units w" using out(2) by (simp add: mag_def)
  have at: "units (split_of w ws ! i) = int (out ! i) * (if units w < 0 then - 1 else 1)" if "i < length ws" for i
    using arg_cong[OF s', of "\<lambda>xs. xs ! i"] that out(1) by (simp add: s)
  show ?thesis
  proof (rule that[of ps x e])
    show "ps = map fst (first_parts (nat \<bar>units w\<bar>) (weight_units ws))" by (simp add: ps_def fp_def mag_def)
    show "sum_list ps + (e * length ws + x) = nat \<bar>units w\<bar>" using sum by (simp add: mag_def)
    show "\<forall>i < length ws. ps ! i + e \<le> nat \<bar>units (split_of w ws ! i)\<bar>
        \<and> nat \<bar>units (split_of w ws ! i)\<bar> \<le> ps ! i + e + (if x = 0 then 0 else 1)
        \<and> (if units w < 0 then units (split_of w ws ! i) \<le> 0 else 0 \<le> units (split_of w ws ! i))"
      using near at by auto
  qed (use su x s out in auto)
qed


section \<open>Properties\<close>

text \<open>C13: The parts of a divided amount add up to the amount exactly, whatever the weights,
  negative, infinite and missing ones included: there is one part for each weight, the
  parts have one scale and the sign of the amount, and their values sum to its value.
  The sum of the scaled weights must fit in 128 bits and the amount must not be the
  smallest 128-bit number.\<close>

theorem split_conserves_money:
  assumes "ws \<noteq> []" and "sum_list (weight_units ws) < 2 ^ 128" and "\<bar>units (split_working a)\<bar> < 2 ^ 127"
  shows "length (split_amount a ws) = length ws
    \<and> sum_list (map units (split_amount a ws)) = units (split_working a)
    \<and> (\<forall>p \<in> set (split_amount a ws). scale p = scale (split_working a))
    \<and> amount_value (split_working a) = amount_value a
    \<and> (\<forall>i < length ws. if units (split_working a) < 0 then units (split_amount a ws ! i) \<le> 0 else 0 \<le> units (split_amount a ws ! i))"
proof -
  have "amount_value (split_working a) = amount_value a"
    using at_scale_value[of a] by (auto simp: split_working_def split: option.splits)
  moreover have "split_amount a ws = split_of (split_working a) ws" using assms(1) by (simp add: split_amount_def)
  moreover obtain ps e x where
      "length (split_of (split_working a) ws) = length ws"
      "sum_list (map units (split_of (split_working a) ws)) = units (split_working a)"
      "\<forall>p \<in> set (split_of (split_working a) ws). scale p = scale (split_working a)"
      "\<forall>i < length ws. if units (split_working a) < 0 then units (split_of (split_working a) ws ! i) \<le> 0 else 0 \<le> units (split_of (split_working a) ws ! i)"
    by (rule split_of_parts[OF assms]) blast
  ultimately show ?thesis by (simp only: simp_thms)
qed

theorem split_conserves_money_witness:
  "sum_list (map units (split_amount \<lparr>units = 1999, scale = 2\<rparr> [0, 0, f64_nan])) = 1999000000"
proof -
  have w: "split_working \<lparr>units = 1999, scale = 2\<rparr> = \<lparr>units = 1999000000, scale = 8\<rparr>"
    by (simp add: split_working_def at_scale_eq GUARD_DIGITS_def MAX_SCALE_def in_i128_def)
  have c: "clean_weight 0 = 0" "clean_weight f64_nan = 0"
    by (simp_all add: clean_weight_def f64_cmp_def is_finite_def f64_nan_def magnitude_def f64_inf_def order_key_def)
  have "weight_units [0, 0, f64_nan] = [1, 1, 1]" by (subst no_weight_counts) (auto simp: c)
  then have "sum_list (weight_units [0, 0, f64_nan]) < 2 ^ 128" by simp
  then show ?thesis using split_conserves_money[of "[0, 0, f64_nan]" "\<lparr>units = 1999, scale = 2\<rparr>"] by (simp add: w)
qed

text \<open>A division is fair to the unit: when the weights are not too many for exact
  arithmetic, each part is its exact share of the units rounded down, or one unit more.\<close>

theorem split_is_fair:
  assumes "sum_list (weight_units ws) * sum_list (weight_units ws) < 2 ^ 128"
    and "\<bar>units (split_working a)\<bar> < 2 ^ 127" and "i < length ws"
  shows "nat \<bar>units (split_amount a ws ! i)\<bar>
    \<in> {nat \<bar>units (split_working a)\<bar> * weight_units ws ! i div sum_list (weight_units ws),
       nat \<bar>units (split_working a)\<bar> * weight_units ws ! i div sum_list (weight_units ws) + 1}"
proof -
  define mag whole t where "mag = nat \<bar>units (split_working a)\<bar>" and "whole = weight_units ws" and "t = sum_list whole"
  have ws: "ws \<noteq> []" using assms(3) by auto
  have w: "length whole = length ws" "0 < t" using weight_units_ok[OF ws] by (auto simp: whole_def t_def)
  have "t \<le> t * t" by (rule le_square)
  then have t: "t < 2 ^ 128" "mag \<le> 2 ^ 127" using assms(1,2) unfolding t_def whole_def mag_def by (linarith, simp)
  have sp: "split_amount a ws = split_of (split_working a) ws" using ws by (simp add: split_amount_def)
  obtain ps e x where p: "ps = map fst (first_parts mag whole)" "x < length ws" "sum_list ps + (e * length ws + x) = mag"
      "ps ! i + e \<le> nat \<bar>units (split_amount a ws ! i)\<bar> \<and> nat \<bar>units (split_amount a ws ! i)\<bar> \<le> ps ! i + e + (if x = 0 then 0 else 1)"
    unfolding sp mag_def whole_def
    by (rule split_of_parts[OF ws t(1)[unfolded t_def whole_def] assms(2)]) (use assms(3) in blast)
  have near: "ps ! j = mag * whole ! j div t" if "j < length ws" for j
    using first_parts_near[of whole mag j] w that t assms(1) by (simp add: p(1) t_def whole_def)
  have "mag * t < t * (sum_list ps + length ws)"
  proof -
    have "mag * t = (\<Sum>j < length ws. mag * whole ! j)"
      by (simp add: t_def sum_list_sum_nth atLeast0LessThan w sum_distrib_left)
    also have "\<dots> < (\<Sum>j < length ws. t * (ps ! j + 1))"
      using ws w(2) near by (intro sum_strict_mono) (auto simp: dividend_less_times_div)
    also have "\<dots> = t * (sum_list ps + length ws)"
      using p(1) w by (simp add: sum_distrib_left[symmetric] sum.distrib sum_list_sum_nth atLeast0LessThan sum_Suc del: mult_Suc_right)
    finally show ?thesis .
  qed
  then have "e * length ws + x < length ws" using p(3) w(2) by (simp add: mult.commute)
  then have "e = 0" by (cases e) auto
  then show ?thesis using p(4) near[OF assms(3)] by (auto simp: mag_def whole_def t_def split: if_splits)
qed

theorem split_is_fair_witness:
  "nat \<bar>units (split_amount \<lparr>units = - 1, scale = 0\<rparr> [0, 0, f64_nan] ! 2)\<bar> \<in> {333333, 333334}"
proof -
  have w: "split_working \<lparr>units = - 1, scale = 0\<rparr> = \<lparr>units = - 1000000, scale = 6\<rparr>"
    by (simp add: split_working_def at_scale_eq GUARD_DIGITS_def MAX_SCALE_def in_i128_def)
  have "clean_weight 0 = 0" "clean_weight f64_nan = 0"
    by (simp_all add: clean_weight_def f64_cmp_def is_finite_def f64_nan_def magnitude_def f64_inf_def order_key_def)
  then have u: "weight_units [0, 0, f64_nan] = [1, 1, 1]" by (subst no_weight_counts) auto
  show ?thesis using split_is_fair[of "[0, 0, f64_nan]" "\<lparr>units = - 1, scale = 0\<rparr>" 2] by (simp add: w u)
qed

text \<open>C37: The text of an amount reads back as the same value, at the same scale or the
  shorter one that the dropped zeros leave.\<close>

theorem money_round_trip:
  assumes "scale a \<le> MAX_SCALE" and "\<bar>units a\<bar> < 2 ^ 127"
  shows "\<exists>b. amount_parse (to_text a) = Some b \<and> amount_value b = amount_value a \<and> scale b \<le> scale a"
  using assms by (rule amount_round_trip)

theorem money_round_trip_witness:
  "\<exists>b. amount_parse (to_text \<lparr>units = - 1990, scale = 2\<rparr>) = Some b
     \<and> amount_value b = amount_value \<lparr>units = - 1990, scale = 2\<rparr> \<and> scale b \<le> 2"
  using money_round_trip[of "\<lparr>units = - 1990, scale = 2\<rparr>"] by (simp add: MAX_SCALE_def)

end
