(* ===== verification/Row.thy ===== *)
theory Row
  imports Cbor Float64
begin

text \<open>
  Stored events, \<^verbatim>\<open>tallyowl-store/src/row.rs\<close> and \<^verbatim>\<open>row_codec.rs\<close>: the typed property
  value, the row, and the canonical bytes of a batch of rows.

  Text is its UTF-8 bytes, a float is its bits and the properties are an ordered map.
  \<open>show_f64\<close>, the decimal form the language gives a double, is a parameter; what the
  stored form relies on is that a double reads back from it. \<open>from_hex\<close> slices a text
  by bytes, so a stored value can make the reader panic, which is \<open>RowPanicked\<close>.
\<close>

section \<open>Rows\<close>

datatype property_value =
    PNull
  | PBoolean bool
  | PInteger i64
  | PUnsigned u64
  | PFloat f64
  | PDecimal bytes
  | PText bytes
  | PBytes bytes

fun type_name :: "property_value \<Rightarrow> bytes" where
  "type_name PNull = lit ''null''"
| "type_name (PBoolean _) = lit ''boolean''"
| "type_name (PInteger _) = lit ''integer''"
| "type_name (PUnsigned _) = lit ''unsigned''"
| "type_name (PFloat _) = lit ''float''"
| "type_name (PDecimal _) = lit ''decimal''"
| "type_name (PText _) = lit ''text''"
| "type_name (PBytes _) = lit ''bytes''"

fun to_display :: "(f64 \<Rightarrow> bytes) \<Rightarrow> property_value \<Rightarrow> bytes" where
  "to_display show_f64 PNull = []"
| "to_display show_f64 (PBoolean v) = (if v then lit ''true'' else lit ''false'')"
| "to_display show_f64 (PInteger v) = dec_int (sint v)"
| "to_display show_f64 (PUnsigned v) = dec (unat v)"
| "to_display show_f64 (PFloat v) = show_f64 v"
| "to_display show_f64 (PDecimal v) = v"
| "to_display show_f64 (PText v) = v"
| "to_display show_f64 (PBytes v) = hex v"

record event_row =
  event_id :: bytes
  batch_id :: bytes
  workspace_id :: bytes
  ev_project_id :: bytes
  source_id :: bytes
  ev_kind :: bytes
  ev_name :: bytes
  occurred_at :: i64
  received_at :: i64
  committed_at :: i64
  session_id :: "bytes option"
  request_id :: "bytes option"
  trace_id :: "bytes option"
  service_name :: "bytes option"
  release :: "bytes option"
  properties :: "(bytes, property_value \<times> bytes) btree"

definition row_new :: "bytes \<Rightarrow> bytes \<Rightarrow> bytes \<Rightarrow> i64 \<Rightarrow> event_row" where
  "row_new event k n at =
     \<lparr>event_id = event, batch_id = replicate 16 0, workspace_id = replicate 16 0, ev_project_id = replicate 16 0,
      source_id = replicate 16 0, ev_kind = k, ev_name = n, occurred_at = at, received_at = at,
      committed_at = 0, session_id = None, request_id = None, trace_id = None, service_name = None,
      release = None, properties = []\<rparr>"

definition with_property :: "event_row \<Rightarrow> bytes \<Rightarrow> property_value \<Rightarrow> bytes \<Rightarrow> event_row" where
  "with_property row key v origin = row\<lparr>properties := bt_insert key (v, origin) (properties row)\<rparr>"

definition event_id_text :: "event_row \<Rightarrow> bytes" where
  "event_id_text row = hex (event_id row)"

definition batch_id_text :: "event_row \<Rightarrow> bytes" where
  "batch_id_text row = hex (batch_id row)"

section \<open>The stored form\<close>

definition ROW_FORMAT_VERSION :: u64 where
  "ROW_FORMAT_VERSION = 1"

datatype row_codec_error =
    BatchUnreadable decode_error
  | OtherVersion u64
  | NoItems
  | MissingIdentifier
  | PropertyUnreadable
  | NumberUnreadable
  | ValueUnreadable
  | RowPanicked

definition property_to_cbor :: "(f64 \<Rightarrow> bytes) \<Rightarrow> property_value \<times> bytes \<Rightarrow> cbor_value" where
  "property_to_cbor show_f64 = (\<lambda>(v, origin). Array [Text (type_name v), Text (to_display show_f64 v), Text origin])"

definition row_to_cbor :: "(f64 \<Rightarrow> bytes) \<Rightarrow> event_row \<Rightarrow> cbor_value" where
  "row_to_cbor show_f64 row =
     build
       (put (lit ''p'') (Map (map (\<lambda>(k, v). (k, property_to_cbor show_f64 v)) (properties row)))
       (put_some (lit ''re'') (map_option Text (release row))
       (put_some (lit ''sv'') (map_option Text (service_name row))
       (put_some (lit ''tr'') (map_option Bytes (trace_id row))
       (put_some (lit ''rq'') (map_option Text (request_id row))
       (put_some (lit ''se'') (map_option Text (session_id row))
       (put (lit ''com'') (integer (committed_at row))
       (put (lit ''rec'') (integer (received_at row))
       (put (lit ''occ'') (integer (occurred_at row))
       (put (lit ''n'') (Text (ev_name row))
       (put (lit ''k'') (Text (ev_kind row))
       (put (lit ''so'') (Bytes (source_id row))
       (put (lit ''pr'') (Bytes (ev_project_id row))
       (put (lit ''ws'') (Bytes (workspace_id row))
       (put (lit ''ba'') (Bytes (batch_id row))
       (put (lit ''ev'') (Bytes (event_id row)) []))))))))))))))))"

definition encode_rows :: "(f64 \<Rightarrow> bytes) \<Rightarrow> event_row list \<Rightarrow> bytes" where
  "encode_rows show_f64 rows =
     encode (build (put (lit ''rows'') (Array (map (row_to_cbor show_f64) rows))
       (put (lit ''v'') (Unsigned ROW_FORMAT_VERSION) [])))"

definition parse_value :: "bytes \<Rightarrow> bytes \<Rightarrow> row_codec_error + property_value" where
  "parse_value t rendered =
     (if t = lit ''null'' then Inr PNull
      else if t = lit ''boolean'' then Inr (PBoolean (rendered = lit ''true''))
      else if t = lit ''integer'' then and_then (ok_or (parse_i64 rendered) NumberUnreadable) (Inr \<circ> PInteger)
      else if t = lit ''unsigned'' then and_then (ok_or (parse_u64 rendered) NumberUnreadable) (Inr \<circ> PUnsigned)
      else if t = lit ''float'' then and_then (ok_or (f64_parse rendered) NumberUnreadable) (Inr \<circ> PFloat)
      else if t = lit ''decimal'' then Inr (PDecimal rendered)
      else if t = lit ''bytes'' then
        (case from_hex rendered of
           Inl Panic \<Rightarrow> Inl RowPanicked
         | Inr r \<Rightarrow> and_then (ok_or r ValueUnreadable) (Inr \<circ> PBytes))
      else Inr (PText rendered))"

definition id_field :: "cbor_value \<Rightarrow> bytes \<Rightarrow> bytes option" where
  "id_field v n = Option.bind (field v n) (\<lambda>f. Option.bind (as_bytes f) (\<lambda>b. if length b = 16 then Some b else None))"

definition text_field :: "cbor_value \<Rightarrow> bytes \<Rightarrow> bytes option" where
  "text_field v n = Option.bind (field v n) as_text"

definition at_field :: "cbor_value \<Rightarrow> bytes \<Rightarrow> i64" where
  "at_field v n = (case Option.bind (field v n) as_integer of Some t \<Rightarrow> t | None \<Rightarrow> 0)"

definition text_or :: "bytes option \<Rightarrow> bytes \<Rightarrow> bytes" where
  "text_or t other = (case t of Some t \<Rightarrow> t | None \<Rightarrow> other)"

definition text_part :: "cbor_value list \<Rightarrow> nat \<Rightarrow> bytes \<Rightarrow> bytes" where
  "text_part parts i other = text_or (if i < length parts then as_text (parts ! i) else None) other"

definition read_property :: "event_row \<Rightarrow> bytes \<times> cbor_value \<Rightarrow> row_codec_error + event_row" where
  "read_property row = (\<lambda>(key, entry).
     and_then (ok_or (as_array entry) PropertyUnreadable) (\<lambda>parts.
     and_then (parse_value (text_part parts 0 (lit ''text'')) (text_part parts 1 [])) (\<lambda>v.
       Inr (row\<lparr>properties := bt_insert key (v, text_part parts 2 (lit ''client'')) (properties row)\<rparr>))))"

fun read_properties :: "event_row \<Rightarrow> (bytes, cbor_value) btree \<Rightarrow> row_codec_error + event_row" where
  "read_properties row [] = Inr row"
| "read_properties row (p # ps) = and_then (read_property row p) (\<lambda>row. read_properties row ps)"

definition row_from_cbor :: "cbor_value \<Rightarrow> row_codec_error + event_row" where
  "row_from_cbor v =
     and_then (ok_or (id_field v (lit ''ev'')) MissingIdentifier) (\<lambda>ev.
     and_then (ok_or (id_field v (lit ''ba'')) MissingIdentifier) (\<lambda>ba.
     and_then (ok_or (id_field v (lit ''ws'')) MissingIdentifier) (\<lambda>ws.
     and_then (ok_or (id_field v (lit ''pr'')) MissingIdentifier) (\<lambda>pr.
     and_then (ok_or (id_field v (lit ''so'')) MissingIdentifier) (\<lambda>so.
       let row = (row_new ev (text_or (text_field v (lit ''k'')) []) (text_or (text_field v (lit ''n'')) []) (at_field v (lit ''occ'')))
             \<lparr>batch_id := ba, workspace_id := ws, ev_project_id := pr, source_id := so,
              received_at := at_field v (lit ''rec''), committed_at := at_field v (lit ''com''),
              session_id := text_field v (lit ''se''), request_id := text_field v (lit ''rq''),
              trace_id := id_field v (lit ''tr''),
              service_name := text_field v (lit ''sv''), release := text_field v (lit ''re'')\<rparr>
       in case Option.bind (field v (lit ''p'')) as_map of
            Some ps \<Rightarrow> read_properties row ps
          | None \<Rightarrow> Inr row)))))"

fun rows_from_cbor :: "cbor_value list \<Rightarrow> row_codec_error + event_row list" where
  "rows_from_cbor [] = Inr []"
| "rows_from_cbor (v # vs) =
     and_then (row_from_cbor v) (\<lambda>row. and_then (rows_from_cbor vs) (\<lambda>rows. Inr (row # rows)))"

definition decode_rows :: "bytes \<Rightarrow> row_codec_error + event_row list" where
  "decode_rows bs =
     (case decode bs of
        Inl e \<Rightarrow> Inl (BatchUnreadable e)
      | Inr v \<Rightarrow>
          let version = (case Option.bind (field v (lit ''v'')) as_unsigned of Some n \<Rightarrow> n | None \<Rightarrow> 0)
          in if version \<noteq> ROW_FORMAT_VERSION then Inl (OtherVersion version)
             else and_then (ok_or (Option.bind (field v (lit ''rows'')) as_array) NoItems) rows_from_cbor)"

section \<open>Reading back\<close>

text \<open>
  What the Rust types promise of a row, with the lengths that fit in memory. The last
  conjunct of \<open>value_ok\<close> is what the stored form relies on for floats.
\<close>

definition text_ok :: "bytes \<Rightarrow> bool" where
  "text_ok t = (utf8_valid t \<and> length t < 2 ^ 64)"

fun value_ok :: "(f64 \<Rightarrow> bytes) \<Rightarrow> property_value \<Rightarrow> bool" where
  "value_ok show_f64 (PFloat v) = (text_ok (show_f64 v) \<and> f64_parse (show_f64 v) = Some v)"
| "value_ok show_f64 (PDecimal v) = text_ok v"
| "value_ok show_f64 (PText v) = text_ok v"
| "value_ok show_f64 (PBytes v) = (length v < 2 ^ 63)"
| "value_ok show_f64 _ = True"

definition row_ok :: "(f64 \<Rightarrow> bytes) \<Rightarrow> event_row \<Rightarrow> bool" where
  "row_ok show_f64 row =
     (length (event_id row) = 16 \<and> length (batch_id row) = 16 \<and> length (workspace_id row) = 16
      \<and> length (ev_project_id row) = 16 \<and> length (source_id row) = 16
      \<and> text_ok (ev_kind row) \<and> text_ok (ev_name row)
      \<and> pred_option text_ok (session_id row) \<and> pred_option text_ok (request_id row)
      \<and> pred_option (\<lambda>t. length t = 16) (trace_id row)
      \<and> pred_option text_ok (service_name row) \<and> pred_option text_ok (release row)
      \<and> bt_ok (properties row) \<and> length (properties row) < 2 ^ 64
      \<and> list_all (\<lambda>(k, v, origin). text_ok k \<and> value_ok show_f64 v \<and> text_ok origin) (properties row))"

lemma utf8_ascii: "list_all (\<lambda>b. b \<le> 0x7F) t \<Longrightarrow> utf8_valid t"
  by (induction t) (simp_all add: utf8_valid.simps)

lemma utf8_plain: "list_all plain_byte t \<Longrightarrow> utf8_valid t"
  by (rule utf8_ascii) (auto simp: list_all_iff plain_byte_def)

lemma dec_length: "length (dec n) \<le> n + 1"
proof (induction n rule: less_induct)
  case (less n)
  show ?case using less[of "n div 10"] by (cases "n < 10") (simp_all add: dec_simps[of n])
qed

lemma dec_length_power: "n < 10 ^ Suc k \<Longrightarrow> length (dec n) \<le> Suc k"
proof (induction k arbitrary: n)
  case (Suc k)
  then have "length (dec (n div 10)) \<le> Suc k" using less_mult_imp_div_less[of n "10 ^ Suc k" 10] by (intro Suc.IH) (simp add: mult.commute)
  then show ?case by (simp add: dec_simps[of n])
qed (simp add: dec_simps)

lemma dec_text_ok: "n < 2 ^ 64 \<Longrightarrow> text_ok (dec n) \<and> text_ok (45 # dec n)"
proof -
  assume "n < 2 ^ 64"
  then have "length (dec n) \<le> Suc 19" by (intro dec_length_power) simp
  moreover have "list_all plain_byte (45 # dec n)" using dec_digit_bytes[of n] digit_plain by (auto simp: list_all_iff plain_byte_def)
  ultimately show ?thesis using utf8_plain[of "45 # dec n"] utf8_plain[of "dec n"] by (simp add: text_ok_def)
qed

lemma hex_text_ok: "length v < 2 ^ 63 \<Longrightarrow> text_ok (hex v)"
proof -
  assume l: "length v < 2 ^ 63"
  have "d < 16 \<Longrightarrow> nibble d \<le> 0x7F" for d
    by (auto simp: nibble_def word_le_nat_alt unat_of_nat simp del: of_nat_add of_nat_numeral)
  then have "list_all (\<lambda>b. b \<le> 0x7F) (hex v)"
    using unat_u8_bound by (auto simp: hex_def hex_byte_def list_all_iff less_mult_imp_div_less)
  then show ?thesis using utf8_ascii l by (simp add: text_ok_def length_hex)
qed

lemma display_text_ok: "value_ok show_f64 v \<Longrightarrow> text_ok (to_display show_f64 v)"
proof (cases v)
  case (PInteger i)
  have "\<bar>sint i\<bar> < 2 ^ 64" using sint_in_i64[of i] by (simp add: in_i64_def abs_less_iff)
  then have "nat \<bar>sint i\<bar> < 2 ^ 64" by (simp add: nat_less_iff)
  then show ?thesis using dec_text_ok[of "nat \<bar>sint i\<bar>"] by (cases "sint i < 0") (simp_all add: PInteger dec_int_cases)
next
  case (PUnsigned u)
  have "unat u < 2 ^ 64" using unsigned_less[of u] by simp
  then show ?thesis using dec_text_ok[of "unat u"] by (simp add: PUnsigned)
qed (auto simp: text_ok_def lit_def utf8_valid.simps hex_text_ok[unfolded text_ok_def] length_hex)

lemma type_name_text_ok: "text_ok (type_name v)"
  by (cases v) (simp_all add: text_ok_def lit_def utf8_valid.simps)

lemma parse_value_display: "value_ok show_f64 v \<Longrightarrow> parse_value (type_name v) (to_display show_f64 v) = Inr v"
  by (cases v) (simp_all add: parse_value_def lit_def parse_i64_sint parse_u64_unat from_hex_hex)

text \<open>Reading the entries of the properties inserts them in order.\<close>

lemma read_properties_written:
  "list_all (\<lambda>(k, v, origin). value_ok show_f64 v) ps \<Longrightarrow>
   read_properties row (map (\<lambda>(k, v). (k, property_to_cbor show_f64 v)) ps)
     = Inr (row\<lparr>properties := foldl (\<lambda>m (k, v). bt_insert k v m) (properties row) ps\<rparr>)"
proof (induction ps arbitrary: row)
  case (Cons p ps)
  obtain k v origin where p: "p = (k, v, origin)" by (cases p) auto
  then have "parse_value (type_name v) (to_display show_f64 v) = Inr v" using Cons.prems by (simp add: parse_value_display)
  then have "read_property row (k, property_to_cbor show_f64 (v, origin)) = Inr (row\<lparr>properties := bt_insert k (v, origin) (properties row)\<rparr>)"
    by (simp add: read_property_def property_to_cbor_def text_part_def text_or_def)
  then show ?case using Cons by (simp add: p)
qed simp

lemma as_integer_integer: "as_integer (integer v) = Some v"
proof (cases "sint v < 0")
  case False
  then have "\<not> bit v 63" using bit_last_iff[of v] by simp
  then have "take_bit 63 v = v"
    by (intro bit_word_eqI) (auto simp: bit_take_bit_iff less_Suc_eq[of _ 63, simplified])
  then have "unat v = take_bit 63 (unat v)" by (metis unsigned_take_bit_eq)
  then have "unat v < 2 ^ 63" by (metis take_bit_nat_less_exp)
  then show ?thesis using False by (simp add: integer_def)
qed (simp add: integer_def)


text \<open>The fields of an encoded row, key by key.\<close>

lemma map_field [simp]: "field (build m) k = bt_get m k"
  by (simp add: field_def build_def)

lemma bt_get_put [simp]: "bt_get (put k v m) k' = (if k' = k then Some v else bt_get m k')"
  by (simp add: put_def)

lemma bt_get_put_some [simp]: "bt_get (put_some k v m) k' = (if k' = k \<and> v \<noteq> None then v else bt_get m k')"
  by (auto simp: put_some_def put_def split: option.splits)

lemma bt_ok_put [simp]: "bt_ok m \<Longrightarrow> bt_ok (put k v m)" "bt_ok m \<Longrightarrow> bt_ok (put_some k w m)"
  by (auto simp: put_def put_some_def split: option.splits)

lemma bt_get_empty [simp]: "bt_get [] k = None"
  by simp

lemmas row_keys = lit_def

lemma row_round_trip:
  assumes "row_ok show_f64 row"
  shows "row_from_cbor (row_to_cbor show_f64 row) = Inr row"
proof -
  note ok = assms[unfolded row_ok_def]
  have p: "foldl (\<lambda>m (k, v). bt_insert k v m) [] (properties row) = properties row"
    using ok bt_ok_distinct by (intro bt_rebuild_from_permutation) auto
  have v: "list_all (\<lambda>(k, v, origin). value_ok show_f64 v) (properties row)"
    using ok by (auto simp: list_all_iff)
  have t: "Option.bind (map_option Text t) as_text = t" for t by (cases t) auto
  have i: "Option.bind (map_option Bytes t) (\<lambda>f. Option.bind (as_bytes f) (\<lambda>b. if length b = 16 then Some b else None)) = t"
    if "pred_option (\<lambda>t. length t = 16) t" for t :: "bytes option" using that by (cases t) auto
  show ?thesis
    using ok read_properties_written[OF v] p i[of "trace_id row"]
    unfolding row_from_cbor_def row_to_cbor_def id_field_def text_field_def at_field_def
    by (simp add: row_keys as_integer_integer text_or_def t row_new_def)
qed


text \<open>An encoded row is a well-formed value of small depth.\<close>

definition entry_ok :: "nat \<Rightarrow> bytes \<times> cbor_value \<Rightarrow> bool" where
  "entry_ok n = (\<lambda>(k, v). text_ok k \<and> wf_value v \<and> depth v < n)"

lemma length_bt_insert: "length (bt_insert k v m) \<le> Suc (length m)"
  by (induction k v m rule: bt_insert.induct) auto

lemma entries_put: "entry_ok n (k, v) \<Longrightarrow> list_all (entry_ok n) m \<Longrightarrow> list_all (entry_ok n) (put k v m)"
  using set_bt_insert[of k v m] by (auto simp: put_def list_all_iff)

lemma entries_put_some: "pred_option (\<lambda>v. entry_ok n (k, v)) w \<Longrightarrow> list_all (entry_ok n) m \<Longrightarrow> list_all (entry_ok n) (put_some k w m)"
  using entries_put by (cases w) (auto simp: put_some_def)

lemma length_put_entries: "length m \<le> n \<Longrightarrow> length (put k v m) \<le> Suc n" "length m \<le> n \<Longrightarrow> length (put_some k w m) \<le> Suc n"
proof -
  show "length m \<le> n \<Longrightarrow> length (put k v m) \<le> Suc n" for v
    using length_bt_insert[of k v m] by (simp add: put_def)
  then show "length m \<le> n \<Longrightarrow> length (put_some k w m) \<le> Suc n"
    by (cases w) (auto simp: put_some_def)
qed

lemma wf_build:
  assumes "list_all (entry_ok n) m" "bt_ok m" "length m < 2 ^ 64" "0 < n"
  shows "wf_value (build m) \<and> depth (build m) \<le> n"
proof -
  have "foldr max (map (\<lambda>(k, v). Suc (depth v)) m) 0 < Suc n"
    using assms(1) by (intro foldr_max_less) (auto simp: list_all_iff entry_ok_def)
  then show ?thesis using assms by (auto simp: build_def list_all_iff entry_ok_def text_ok_def)
qed

lemma integer_wf: "wf_value (integer v) \<and> depth (integer v) = 0"
  by (simp add: integer_def)

lemmas row_entries = length_put_entries(1)[OF length_put_entries(2)[OF length_put_entries(2)[OF length_put_entries(2)[OF length_put_entries(2)[OF length_put_entries(2)[OF
  length_put_entries(1)[OF length_put_entries(1)[OF length_put_entries(1)[OF length_put_entries(1)[OF length_put_entries(1)[OF length_put_entries(1)[OF length_put_entries(1)[OF
  length_put_entries(1)[OF length_put_entries(1)[OF length_put_entries(1)[OF order_refl]]]]]]]]]]]]]]]]

lemma row_wf:
  assumes "row_ok show_f64 row"
  shows "wf_value (row_to_cbor show_f64 row) \<and> depth (row_to_cbor show_f64 row) \<le> 3"
proof -
  note ok = assms[unfolded row_ok_def]
  let ?ps = "map (\<lambda>(k, v). (k, property_to_cbor show_f64 v)) (properties row)"
  have "list_all (entry_ok 2) ?ps"
    using ok display_text_ok type_name_text_ok
    by (fastforce simp: list_all_iff entry_ok_def property_to_cbor_def text_ok_def)
  then have ps: "wf_value (Map ?ps) \<and> depth (Map ?ps) \<le> 2"
    using wf_build[of 2 ?ps] ok by (simp add: build_def)
  have keys: "text_ok (lit k)" if "k \<in> {''p'', ''re'', ''sv'', ''tr'', ''rq'', ''se'', ''com'', ''rec'', ''occ'', ''n'', ''k'', ''so'', ''pr'', ''ws'', ''ba'', ''ev''}" for k
    using that by (auto simp: text_ok_def lit_def utf8_valid.simps)
  have o: "pred_option (\<lambda>v. entry_ok 3 (k, v)) (map_option Text t)" if "text_ok k" "pred_option text_ok t" for k t
    using that by (cases t) (auto simp: entry_ok_def text_ok_def)
  have b: "pred_option (\<lambda>v. entry_ok 3 (k, v)) (map_option Bytes t)" if "text_ok k" "pred_option (\<lambda>t. length t = 16) t" for k t
    using that by (cases t) (auto simp: entry_ok_def)
  have e: "entry_ok 3 (k, Text t)" if "text_ok k" "text_ok t" for k t using that by (simp add: entry_ok_def text_ok_def)
  have n: "entry_ok 3 (k, integer i)" if "text_ok k" for k i using that integer_wf[of i] by (simp add: entry_ok_def)
  have i: "entry_ok 3 (k, Bytes x)" if "text_ok k" "length x = 16" for k x using that by (simp add: entry_ok_def)
  have m: "entry_ok 3 (lit ''p'', Map ?ps)" using ps keys by (simp add: entry_ok_def)
  show ?thesis unfolding row_to_cbor_def
    using ok keys by (intro wf_build le_less_trans[OF row_entries]) (simp_all add: entries_put entries_put_some o b e n i m)
qed

lemma rows_round_trip_cbor:
  "list_all (row_ok show_f64) rows \<Longrightarrow> rows_from_cbor (map (row_to_cbor show_f64) rows) = Inr rows"
  by (induction rows) (simp_all add: row_round_trip)


section \<open>Properties\<close>

text \<open>C14: A stored batch of rows reads back exactly: every identifier, time, optional
  field and typed property with its origin, provided the text the language gives each
  stored float reads back as that float.\<close>

theorem rows_round_trip:
  assumes "list_all (row_ok show_f64) rows" and "length rows < 2 ^ 64"
  shows "decode_rows (encode_rows show_f64 rows) = Inr rows"
proof -
  let ?m = "put (lit ''rows'') (Array (map (row_to_cbor show_f64) rows)) (put (lit ''v'') (Unsigned ROW_FORMAT_VERSION) [])"
  have "foldr max (map (\<lambda>v. Suc (depth v)) (map (row_to_cbor show_f64) rows)) 0 < 5"
    using assms(1) row_wf by (intro foldr_max_less) (fastforce simp: list_all_iff)+
  then have a: "entry_ok 5 (lit ''rows'', Array (map (row_to_cbor show_f64) rows))"
    using assms row_wf by (auto simp: entry_ok_def list_all_iff text_ok_def lit_def utf8_valid.simps)
  have b: "entry_ok 5 (lit ''v'', Unsigned ROW_FORMAT_VERSION)"
    by (simp add: entry_ok_def text_ok_def lit_def utf8_valid.simps)
  have "wf_value (build ?m) \<and> depth (build ?m) \<le> 5"
    using a b by (intro wf_build le_less_trans[OF length_put_entries(1)[OF length_put_entries(1)[OF order_refl]]]) (simp_all add: entries_put)
  then have "decode (encode (build ?m)) = Inr (build ?m)" by (intro decode_encode) (simp_all add: MAX_DEPTH_def)
  moreover have "lit ''rows'' \<noteq> lit ''v''" by (simp add: lit_def)
  ultimately show ?thesis
    using rows_round_trip_cbor[OF assms(1)] by (simp add: decode_rows_def encode_rows_def ROW_FORMAT_VERSION_def)
qed

definition stored_example :: event_row where
  "stored_example =
     with_property (with_property (with_property ((row_new (replicate 16 7) (lit ''track'') (lit ''signup'') (- 5))
       \<lparr>session_id := Some (lit ''s1''), trace_id := Some (replicate 16 1)\<rparr>)
       (lit ''amount'') (PDecimal (lit ''19.99'')) (lit ''client''))
       (lit ''attempts'') (PInteger (- 3)) (lit ''driver''))
       (lit ''ratio'') (PFloat 0) (lit ''client'')"

theorem rows_round_trip_witness:
  "decode_rows (encode_rows (\<lambda>_. lit ''0'') [stored_example]) = Inr [stored_example]"
proof (rule rows_round_trip)
  have "f64_parse (lit ''0'') = Some 0"
    by (simp add: f64_parse_def lit_def lower_def parse_number_def takeWhile_digits_def to_digit_def parse_exponent_def dec_value_def pack_def)
  then have "value_ok (\<lambda>_. lit ''0'') (PFloat 0)" by (simp add: text_ok_def lit_def utf8_valid.simps)
  then show "list_all (row_ok (\<lambda>_. lit ''0'')) [stored_example]"
    by (simp add: row_ok_def stored_example_def with_property_def row_new_def text_ok_def lit_def utf8_valid.simps bt_ok_def)
qed simp

lemma hex_pairs_ascii: "list_all (\<lambda>b. b \<le> 0x7F) t \<Longrightarrow> hex_pairs t \<noteq> Inl Panic"
proof (induction t rule: hex_pairs.induct)
  case (1 a b bs)
  have "\<not> utf8_tail c" if "c \<le> 0x7F" for c using that by (auto simp: utf8_tail_def word_le_nat_alt)
  with 1 show ?case by (auto simp: result_convs split: option.splits list.splits)
qed simp_all

text \<open>Hexadecimal text: the form of every byte string reads back, ASCII text of any kind
  never makes the reader panic, and text that is not ASCII can: a stored property or a
  query value made of \<^verbatim>\<open>a\<close>, a two-byte character and \<^verbatim>\<open>b\<close> is cut inside the character.\<close>

theorem hex_text_reads_back:
  "from_hex (hex bs) = Inr (Some bs)
   \<and> (list_all (\<lambda>b. b \<le> 0x7F) t \<longrightarrow> from_hex t \<noteq> Inl Panic)
   \<and> (\<exists>t. utf8_valid t \<and> from_hex t = Inl Panic \<and> parse_value (lit ''bytes'') t = Inl RowPanicked)"
proof -
  let ?t = "[0x61, 0xC3, 0xA9, 0x62] :: bytes"
  have p: "from_hex ?t = Inl Panic" by (simp add: from_hex_def utf8_tail_def)
  have "utf8_valid ?t" by (simp add: utf8_valid.simps utf8_tail_def)
  moreover have "parse_value (lit ''bytes'') ?t = Inl RowPanicked" using p by (simp add: parse_value_def lit_def)
  moreover have "list_all (\<lambda>b. b \<le> 0x7F) t \<longrightarrow> from_hex t \<noteq> Inl Panic" using hex_pairs_ascii[of t] by (simp add: from_hex_def)
  ultimately show ?thesis using p from_hex_hex[of bs] by blast
qed

theorem hex_text_reads_back_witness:
  "from_hex (lit ''zz'') \<noteq> Inl Panic"
  using hex_text_reads_back[of "[]" "lit ''zz''"] by (simp add: lit_def)

end
