(* ===== verification/Wire.thy ===== *)
theory Wire
  imports Float64 Complex_Main
begin

text \<open>
  Values on the wire, \<^verbatim>\<open>tallyowl-wire/src/lib.rs\<close>: the typed value of every package and
  its bridge to the generated \<open>TypedValue\<close> and \<open>Measurement\<close>, whose fields are those of
  \<^verbatim>\<open>generated/rust/tallyowl-control-api/src/types.rs\<close>. An exact number is a mantissa, an
  \<open>i128\<close>, times a power of ten; both are integers here. The decimal form of a float is
  the parameter \<open>show_f64\<close>.
\<close>

section \<open>Values\<close>

datatype wire_value =
    WNull
  | WBoolean bool
  | WInteger i64
  | WUnsigned u64
  | WFloat f64
  | WDecimal int int
  | WText bytes
  | WBytes bytes

fun wire_kind_name :: "wire_value \<Rightarrow> string" where
  "wire_kind_name WNull = ''null''"
| "wire_kind_name (WBoolean _) = ''bool''"
| "wire_kind_name (WInteger _) = ''int''"
| "wire_kind_name (WUnsigned _) = ''uint''"
| "wire_kind_name (WFloat _) = ''float''"
| "wire_kind_name (WDecimal _ _) = ''decimal''"
| "wire_kind_name (WText _) = ''text''"
| "wire_kind_name (WBytes _) = ''bytes''"

definition sign_of :: "bytes \<Rightarrow> bool \<times> bytes" where
  "sign_of t =
     (case strip_prefix 45 t of
        Some rest \<Rightarrow> (True, rest)
      | None \<Rightarrow> (False, case strip_prefix 43 t of Some rest \<Rightarrow> rest | None \<Rightarrow> t))"

definition split_point :: "bytes \<Rightarrow> bytes \<times> bytes" where
  "split_point t = (case split_once 46 t of Some p \<Rightarrow> p | None \<Rightarrow> (t, []))"

definition decimal_from_text :: "bytes \<Rightarrow> wire_value option" where
  "decimal_from_text t =
     (let (negative, ds) = sign_of (trim t);
          (whole, fraction) = split_point ds
      in if whole = [] \<and> fraction = [] then None
         else case (digits whole, digits fraction) of
           (Some w, Some f) \<Rightarrow>
             map_option (\<lambda>m. WDecimal (- int (length fraction)) (if negative then - m else m)) (push_digits 0 (w @ f))
         | _ \<Rightarrow> None)"

datatype wire_error =
    ExponentLimit int
  | Missing string
  | MeasurementMissing
  | NotANumber bytes string

definition MAX_DECIMAL_EXPONENT :: int where
  "MAX_DECIMAL_EXPONENT = 38"

definition check_decimal :: "int \<Rightarrow> wire_error + unit" where
  "check_decimal e =
     (if - MAX_DECIMAL_EXPONENT \<le> e \<and> e \<le> MAX_DECIMAL_EXPONENT then Inr () else Inl (ExponentLimit e))"

definition decimal_text :: "int \<Rightarrow> int \<Rightarrow> bytes" where
  "decimal_text e m =
     (if e = 0 then dec_int m
      else if check_decimal e \<noteq> Inr () then dec_int m @ 101 # dec_int e
      else let ds = dec (nat \<bar>m\<bar>);
               sign = (if m < 0 then [45] else [])
           in if 0 < e then sign @ ds @ replicate (nat e) 48
              else let s = nat (- e)
                   in if length ds \<le> s then sign @ [48, 46] @ replicate (s - length ds) 48 @ ds
                      else sign @ take (length ds - s) ds @ 46 # drop (length ds - s) ds)"

fun wire_display :: "(f64 \<Rightarrow> bytes) \<Rightarrow> wire_value \<Rightarrow> bytes" where
  "wire_display show_f64 WNull = []"
| "wire_display show_f64 (WBoolean v) = (if v then lit ''true'' else lit ''false'')"
| "wire_display show_f64 (WInteger v) = dec_int (sint v)"
| "wire_display show_f64 (WUnsigned v) = dec (unat v)"
| "wire_display show_f64 (WFloat v) = show_f64 v"
| "wire_display show_f64 (WDecimal e m) = decimal_text e m"
| "wire_display show_f64 (WText v) = v"
| "wire_display show_f64 (WBytes v) = hex v"

section \<open>The bridge to the generated types\<close>

datatype typed_value_kind = KNull | KBool | KInt | KUint | KFloat | KDecimal | KText | KBytes

record csil_decimal =
  exponent :: int
  mantissa :: int

record typed_value =
  tv_kind :: typed_value_kind
  bool_value :: "bool option"
  int_value :: "i64 option"
  uint_value :: "u64 option"
  float_value :: "f64 option"
  decimal_value :: "csil_decimal option"
  text_value :: "bytes option"
  bytes_value :: "bytes option"

definition blank :: "typed_value_kind \<Rightarrow> typed_value" where
  "blank k = \<lparr>tv_kind = k, bool_value = None, int_value = None, uint_value = None, float_value = None,
     decimal_value = None, text_value = None, bytes_value = None\<rparr>"

fun write_typed :: "wire_value \<Rightarrow> typed_value" where
  "write_typed WNull = blank KNull"
| "write_typed (WBoolean v) = (blank KBool)\<lparr>bool_value := Some v\<rparr>"
| "write_typed (WInteger v) = (blank KInt)\<lparr>int_value := Some v\<rparr>"
| "write_typed (WUnsigned v) = (blank KUint)\<lparr>uint_value := Some v\<rparr>"
| "write_typed (WFloat v) = (blank KFloat)\<lparr>float_value := Some v\<rparr>"
| "write_typed (WDecimal e m) = (blank KDecimal)\<lparr>decimal_value := Some \<lparr>exponent = e, mantissa = m\<rparr>\<rparr>"
| "write_typed (WText v) = (blank KText)\<lparr>text_value := Some v\<rparr>"
| "write_typed (WBytes v) = (blank KBytes)\<lparr>bytes_value := Some v\<rparr>"

definition read_typed :: "typed_value \<Rightarrow> wire_error + wire_value" where
  "read_typed v =
     (case tv_kind v of
        KNull \<Rightarrow> Inr WNull
      | KBool \<Rightarrow> ok_or (map_option WBoolean (bool_value v)) (Missing ''a true or false'')
      | KInt \<Rightarrow> ok_or (map_option WInteger (int_value v)) (Missing ''a whole number'')
      | KUint \<Rightarrow> ok_or (map_option WUnsigned (uint_value v)) (Missing ''a whole number that is not negative'')
      | KFloat \<Rightarrow> ok_or (map_option WFloat (float_value v)) (Missing ''a number'')
      | KDecimal \<Rightarrow>
          and_then (ok_or (decimal_value v) (Missing ''an exact number'')) (\<lambda>d.
          and_then (check_decimal (exponent d)) (\<lambda>_. Inr (WDecimal (exponent d) (mantissa d))))
      | KText \<Rightarrow> ok_or (map_option WText (text_value v)) (Missing ''text'')
      | KBytes \<Rightarrow> ok_or (map_option WBytes (bytes_value v)) (Missing ''data''))"

datatype property_origin = Client | Driver | Collector

fun origin_name :: "property_origin \<Rightarrow> bytes" where
  "origin_name Client = lit ''client''"
| "origin_name Driver = lit ''driver''"
| "origin_name Collector = lit ''collector''"

record wire_property =
  wp_key :: bytes
  wp_value :: typed_value
  wp_origin :: property_origin

definition wire_property_of :: "bytes \<Rightarrow> wire_value \<Rightarrow> property_origin \<Rightarrow> wire_property" where
  "wire_property_of key v origin = \<lparr>wp_key = key, wp_value = write_typed v, wp_origin = origin\<rparr>"

datatype measurement_kind = MFloat | MDecimal | MInt

record measurement =
  me_key :: bytes
  me_kind :: measurement_kind
  me_float :: "f64 option"
  me_decimal :: "csil_decimal option"
  me_int :: "i64 option"
  me_unit :: "bytes option"

definition read_measurement :: "measurement \<Rightarrow> wire_error + wire_value" where
  "read_measurement me =
     (case me_kind me of
        MFloat \<Rightarrow> ok_or (map_option WFloat (me_float me)) MeasurementMissing
      | MInt \<Rightarrow> ok_or (map_option WInteger (me_int me)) MeasurementMissing
      | MDecimal \<Rightarrow>
          and_then (ok_or (me_decimal me) MeasurementMissing) (\<lambda>d.
          and_then (check_decimal (exponent d)) (\<lambda>_. Inr (WDecimal (exponent d) (mantissa d)))))"

definition write_measurement :: "bytes \<Rightarrow> wire_value \<Rightarrow> bytes option \<Rightarrow> wire_error + measurement" where
  "write_measurement key v unit =
     (let blank = (\<lambda>k. \<lparr>me_key = key, me_kind = k, me_float = None, me_decimal = None, me_int = None, me_unit = unit\<rparr>)
      in case v of
           WFloat x \<Rightarrow> Inr ((blank MFloat)\<lparr>me_float := Some x\<rparr>)
         | WInteger x \<Rightarrow> Inr ((blank MInt)\<lparr>me_int := Some x\<rparr>)
         | WDecimal e m \<Rightarrow> Inr ((blank MDecimal)\<lparr>me_decimal := Some \<lparr>exponent = e, mantissa = m\<rparr>\<rparr>)
         | WNull \<Rightarrow> Inl (NotANumber key ''nothing'')
         | WBoolean _ \<Rightarrow> Inl (NotANumber key ''a true or false'')
         | WText _ \<Rightarrow> Inl (NotANumber key ''text'')
         | WBytes _ \<Rightarrow> Inl (NotANumber key ''data'')
         | WUnsigned _ \<Rightarrow> Inl (NotANumber key ''a whole number that is not negative''))"

section \<open>Properties\<close>

lemma read_write_typed:
  "read_typed (write_typed v) = (case v of WDecimal e m \<Rightarrow> and_then (check_decimal e) (\<lambda>_. Inr v) | _ \<Rightarrow> Inr v)"
  by (cases v) (simp_all add: read_typed_def blank_def)

text \<open>Signs, points and zeros around the digits of a number.\<close>

lemma decimal_from_digits:
  assumes "digits w = Some a" "digits f = Some b" "w \<noteq> []" "int (dec_value (a @ b)) < 2 ^ 127"
  shows "decimal_from_text ((if neg then [45] else []) @ w @ (if point then 46 # f else []))
    = (if point then Some (WDecimal (- int (length f)) (if neg then - int (dec_value (a @ b)) else int (dec_value (a @ b))))
       else if int (dec_value a) < 2 ^ 127 then Some (WDecimal 0 (if neg then - int (dec_value a) else int (dec_value a))) else None)"
proof -
  let ?body = "w @ (if point then 46 # f else [])"
  have dg: "list_all digit_byte w" "list_all digit_byte f" "list_all (\<lambda>d. d < 10) a" "list_all (\<lambda>d. d < 10) b"
    using digits_all assms by auto
  have "list_all plain_byte ((if neg then [45] else []) @ ?body)"
    using dg digit_plain by (auto simp: list_all_iff plain_byte_def)
  then have t: "trim ((if neg then [45] else []) @ ?body) = (if neg then [45] else []) @ ?body" by (rule trim_plain)
  obtain c r where w: "w = c # r" "c \<noteq> 45" "c \<noteq> 43" using assms(3) dg(1) digit_byte_not by (cases w) auto
  have s: "sign_of ((if neg then [45] else []) @ ?body) = (neg, ?body)"
    using w by (auto simp: sign_of_def strip_prefix_def)
  have "46 \<notin> set w" using dg(1) digit_byte_not by (auto simp: list_all_iff)
  then have p: "split_point ?body = (w, if point then f else [])"
    by (auto simp: split_point_def split_once_absent split_once_at)
  have u: "push_digits 0 ds = checked (int (dec_value ds))" if "list_all (\<lambda>d. d < 10) ds" for ds
    using push_digits_exact[of 0 ds] that by (simp add: in_i128_def)
  show ?thesis
    unfolding decimal_from_text_def t s Let_def prod.case p
    using assms dg(3,4) by (auto simp: u checked_def in_i128_def)
qed

definition decimal_value_of :: "int \<Rightarrow> int \<Rightarrow> rat" where
  "decimal_value_of e m = of_int m * (if 0 \<le> e then 10 ^ nat e else 1 / 10 ^ nat (- e))"

lemma decimal_text_reads_back:
  assumes "- MAX_DECIMAL_EXPONENT \<le> e" "e \<le> MAX_DECIMAL_EXPONENT" "\<bar>m\<bar> * 10 ^ nat e < 2 ^ 127"
  shows "decimal_from_text (decimal_text e m) = Some (WDecimal (min 0 e) (m * 10 ^ nat e))"
proof -
  define n where "n = nat \<bar>m\<bar>"
  obtain ds where ds: "digits (dec n) = Some ds" "dec_value ds = n" using digits_dec by blast
  have m: "m < 0 \<Longrightarrow> - int n = m" "\<not> m < 0 \<Longrightarrow> int n = m" by (simp_all add: n_def)
  have ok: "check_decimal e = Inr ()" using assms by (simp add: check_decimal_def)
  have bound: "int (n * 10 ^ nat e) < 2 ^ 127" using assms(3) by (simp add: n_def)
  have nb: "int n < 2 ^ 127"
  proof -
    have "n * 1 \<le> n * 10 ^ nat e" by (intro mult_left_mono) auto
    then show ?thesis using bound by linarith
  qed
  consider "e = 0" | "0 < e" | "e < 0" "length (dec n) \<le> nat (- e)" | "e < 0" "nat (- e) < length (dec n)" by linarith
  then show ?thesis
  proof cases
    case 1
    have "decimal_text e m = (if m < 0 then [45] else []) @ dec n @ (if False then 46 # [] else [])"
      using 1 by (simp add: decimal_text_def dec_int_cases n_def)
    then show ?thesis using decimal_from_digits[of "dec n" ds "[]" "[]" "m < 0" False] ds nb m 1 by auto
  next
    case 2
    have "decimal_text e m = (if m < 0 then [45] else []) @ (dec n @ replicate (nat e) 48) @ (if False then 46 # [] else [])"
      using 2 ok by (simp add: decimal_text_def n_def Let_def)
    moreover have "digits (dec n @ replicate (nat e) 48) = Some (ds @ replicate (nat e) 0)"
      using ds by (simp add: digits_append digits_zeros)
    moreover have "dec_value (ds @ replicate (nat e) 0) = n * 10 ^ nat e"
      using ds by (simp add: dec_value_append dec_value_replicate_0)
    ultimately show ?thesis
      using decimal_from_digits[of "dec n @ replicate (nat e) 48" "ds @ replicate (nat e) 0" "[]" "[]" "m < 0" False] bound m 2 by auto
  next
    case 3
    let ?z = "replicate (nat (- e) - length (dec n)) 48"
    have "decimal_text e m = (if m < 0 then [45] else []) @ [48] @ (if True then 46 # (?z @ dec n) else [])"
      using 3 ok by (simp add: decimal_text_def n_def Let_def)
    moreover have "digits (?z @ dec n) = Some (replicate (nat (- e) - length (dec n)) 0 @ ds)"
      using ds by (simp add: digits_append digits_zeros)
    moreover have "digits [48] = Some [0]" by (simp add: to_digit_def)
    ultimately show ?thesis
      using decimal_from_digits[of "[48]" "[0]" "?z @ dec n" _ "m < 0" True] ds nb m 3
      by (auto simp: dec_value_Cons dec_value_append dec_value_replicate_0)
  next
    case 4
    define k where "k = length (dec n) - nat (- e)"
    have "decimal_text e m = (if m < 0 then [45] else []) @ take k (dec n) @ (if True then 46 # drop k (dec n) else [])"
      using 4 ok by (simp add: decimal_text_def n_def Let_def k_def)
    moreover obtain a b where "digits (take k (dec n)) = Some a" "digits (drop k (dec n)) = Some b" "ds = a @ b"
      using ds(1) digits_append[of "take k (dec n)" "drop k (dec n)"] by (auto split: option.splits)
    moreover have "take k (dec n) \<noteq> []" using 4 by (auto simp: k_def)
    ultimately show ?thesis
      using decimal_from_digits[of "take k (dec n)" a "drop k (dec n)" b "m < 0" True] ds nb m 4 by (auto simp: k_def)
  qed
qed



end
