(* ===== verification/Expr_Values.thy ===== *)
theory Expr_Values
  imports Row Wire
begin

text \<open>
  What the expression language does to values, \<^verbatim>\<open>tallyowl-head/src/expr.rs\<close>: the order of
  two values, exact decimals, arithmetic, the parts of a timestamp and conversions.

  Three-valued results are \<open>outcome\<close>. An \<open>i64\<close> is its 64-bit word; the checked operations
  compute on the signed value and return nothing when the result is out of range. An
  \<open>i128\<close> is an integer with checked operations, and a length cast to \<open>u32\<close> is taken
  modulo \<open>2 ^ 32\<close>.
\<close>

datatype outcome = Known property_value | Unknown

fun truth :: "outcome \<Rightarrow> bool option" where
  "truth (Known (PBoolean v)) = Some v"
| "truth (Known PNull) = None"
| "truth Unknown = None"
| "truth (Known _) = None"

fun outcome_value :: "outcome \<Rightarrow> property_value option" where
  "outcome_value (Known v) = Some v"
| "outcome_value Unknown = None"

definition boolean :: "bool \<Rightarrow> outcome" where
  "boolean v = Known (PBoolean v)"

definition outcome_text :: "bytes \<Rightarrow> outcome" where
  "outcome_text t = Known (PText t)"

section \<open>Decimals\<close>

definition split_decimal :: "bytes \<Rightarrow> (bool \<times> nat list \<times> nat list) option" where
  "split_decimal t =
     (let (negative, rest) = sign_of (trim t)
      in if rest = [] then None
         else let (whole, fraction) = split_point rest
              in Option.bind (if whole = [] then Some [] else digits whole) (\<lambda>w.
                 Option.bind (if fraction = [] then Some [] else digits fraction) (\<lambda>f.
                 if w = [] \<and> f = [] then None else Some (negative, w, f))))"

definition trim_leading :: "nat list \<Rightarrow> nat list" where
  "trim_leading ds = dropWhile (\<lambda>d. d = 0) ds"

text \<open>The loop over the digits after the point, a missing digit counting as zero.\<close>

fun compare_fractions :: "nat list \<Rightarrow> nat list \<Rightarrow> ordering" where
  "compare_fractions [] [] = Equal"
| "compare_fractions (a # as) [] = (case cmp a 0 of Equal \<Rightarrow> compare_fractions as [] | other \<Rightarrow> other)"
| "compare_fractions [] (b # bs) = (case cmp 0 b of Equal \<Rightarrow> compare_fractions [] bs | other \<Rightarrow> other)"
| "compare_fractions (a # as) (b # bs) = (case cmp a b of Equal \<Rightarrow> compare_fractions as bs | other \<Rightarrow> other)"

definition compare_digits :: "nat list \<Rightarrow> nat list \<Rightarrow> nat list \<Rightarrow> nat list \<Rightarrow> ordering" where
  "compare_digits lw lf rw rf =
     (let l = trim_leading lw; r = trim_leading rw
      in case cmp (length l) (length r) of
           Equal \<Rightarrow> (case cmp l r of Equal \<Rightarrow> compare_fractions lf rf | other \<Rightarrow> other)
         | other \<Rightarrow> other)"

definition all_zero :: "nat list \<Rightarrow> bool" where
  "all_zero ds = list_all (\<lambda>d. d = 0) ds"

definition decimal_compare :: "bytes \<Rightarrow> bytes \<Rightarrow> ordering option" where
  "decimal_compare left right =
     (case split_decimal left of
        None \<Rightarrow> None
      | Some (lneg, lw, lf) \<Rightarrow>
          (case split_decimal right of
             None \<Rightarrow> None
           | Some (rneg, rw, rf) \<Rightarrow>
               if lneg \<noteq> rneg then
                 (if (all_zero lw \<and> all_zero lf) \<and> (all_zero rw \<and> all_zero rf) then Some Equal
                  else Some (if lneg then Less else Greater))
               else let magnitude = compare_digits lw lf rw rf
                    in Some (if lneg then reverse magnitude else magnitude)))"

section \<open>Order\<close>

fun as_float :: "property_value \<Rightarrow> f64 option" where
  "as_float (PInteger v) = Some (f64_of_int (sint v))"
| "as_float (PUnsigned v) = Some (f64_of_int (uint v))"
| "as_float (PFloat v) = Some v"
| "as_float (PDecimal t) = f64_parse t"
| "as_float _ = None"

fun value_integer :: "property_value \<Rightarrow> i64 option" where
  "value_integer (PInteger v) = Some v"
| "value_integer (PUnsigned v) = (if unat v < 2 ^ 63 then Some v else None)"
| "value_integer _ = None"

fun pipe_decimal :: "property_value \<Rightarrow> bytes option" where
  "pipe_decimal (PInteger v) = Some (dec_int (sint v))"
| "pipe_decimal (PUnsigned v) = Some (dec (unat v))"
| "pipe_decimal _ = None"

definition compare_floats :: "property_value \<Rightarrow> property_value \<Rightarrow> ordering option" where
  "compare_floats left right =
     Option.bind (as_float left) (\<lambda>a. Option.bind (as_float right) (\<lambda>b. f64_cmp a b))"

definition compare_values :: "property_value \<Rightarrow> property_value \<Rightarrow> ordering option" where
  "compare_values left right =
     (case (left, right) of
        (PNull, PNull) \<Rightarrow> Some Equal
      | (PBoolean a, PBoolean b) \<Rightarrow> Some (cmp a b)
      | (PText a, PText b) \<Rightarrow> Some (cmp a b)
      | (PBytes a, PBytes b) \<Rightarrow> Some (cmp a b)
      | (PDecimal a, PDecimal b) \<Rightarrow> decimal_compare a b
      | (PDecimal a, other) \<Rightarrow> Option.bind (pipe_decimal other) (\<lambda>b. decimal_compare a b)
      | (other, PDecimal b) \<Rightarrow> Option.bind (pipe_decimal other) (\<lambda>a. decimal_compare a b)
      | _ \<Rightarrow> compare_floats left right)"

section \<open>Arithmetic\<close>

datatype arith_op = Add | Sub | Mul | Div

definition checked_i64 :: "int \<Rightarrow> i64 option" where
  "checked_i64 i = (if in_i64 i then Some (word_of_int i) else None)"

text \<open>Rust's remainder and quotient truncate towards zero.\<close>

definition trunc_div :: "int \<Rightarrow> int \<Rightarrow> int" where
  "trunc_div a b = sgn a * sgn b * (\<bar>a\<bar> div \<bar>b\<bar>)"

definition trunc_rem :: "int \<Rightarrow> int \<Rightarrow> int" where
  "trunc_rem a b = a - trunc_div a b * b"

definition integer_arithmetic :: "arith_op \<Rightarrow> i64 \<Rightarrow> i64 \<Rightarrow> i64 option" where
  "integer_arithmetic op a b =
     (case op of
        Add \<Rightarrow> checked_i64 (sint a + sint b)
      | Sub \<Rightarrow> checked_i64 (sint a - sint b)
      | Mul \<Rightarrow> checked_i64 (sint a * sint b)
      | Div \<Rightarrow>
          if sint b = 0 \<or> \<not> in_i64 (trunc_div (sint a) (sint b)) then None
          else if trunc_rem (sint a) (sint b) = 0 then checked_i64 (trunc_div (sint a) (sint b)) else None)"

fun scaled :: "property_value \<Rightarrow> (int \<times> nat) option" where
  "scaled (PInteger v) = Some (sint v, 0)"
| "scaled (PUnsigned v) = Some (uint v, 0)"
| "scaled (PDecimal t) =
     (case split_decimal t of
        None \<Rightarrow> None
      | Some (neg, whole, fraction) \<Rightarrow>
          map_option (\<lambda>m. (if neg then - m else m, length fraction mod 2 ^ 32)) (push_digits 0 (whole @ fraction)))"
| "scaled _ = None"

definition render :: "int \<Rightarrow> nat \<Rightarrow> bytes" where
  "render m s =
     (if s = 0 then dec_int m
      else let ds = dec (nat \<bar>m\<bar>);
               padded = (if length ds \<le> s then replicate (s + 1 - length ds) 48 @ ds else ds);
               split = length padded - s;
               t = take split padded @ 46 # drop split padded
           in if m < 0 then 45 # t else t)"

definition lift :: "nat \<Rightarrow> int \<times> nat \<Rightarrow> int option" where
  "lift s v = Option.bind (checked (10 ^ (s - snd v))) (\<lambda>factor. checked (fst v * factor))"

definition decimal_arithmetic :: "arith_op \<Rightarrow> property_value \<Rightarrow> property_value \<Rightarrow> outcome" where
  "decimal_arithmetic op left right =
     (case (scaled left, scaled right) of
        (Some a, Some b) \<Rightarrow>
          let s = max (snd a) (snd b)
          in (case (lift s a, lift s b) of
                (Some x, Some y) \<Rightarrow>
                  let (m, result_scale) =
                    (case op of
                       Add \<Rightarrow> (checked (x + y), s)
                     | Sub \<Rightarrow> (checked (x - y), s)
                     | Mul \<Rightarrow> (checked (fst a * fst b), (snd a + snd b) mod 2 ^ 32)
                     | Div \<Rightarrow> (None, 0))
                  in (case m of Some m \<Rightarrow> Known (PDecimal (render m result_scale)) | None \<Rightarrow> Unknown)
              | _ \<Rightarrow> Unknown)
      | _ \<Rightarrow> Unknown)"

fun is_decimal :: "property_value \<Rightarrow> bool" where
  "is_decimal (PDecimal _) = True"
| "is_decimal _ = False"

definition float_arithmetic :: "arith_op \<Rightarrow> f64 \<Rightarrow> f64 \<Rightarrow> outcome" where
  "float_arithmetic op a b =
     (if op = Div \<and> f64_cmp b 0 = Some Equal then Unknown
      else Known (PFloat (case op of
          Add \<Rightarrow> f64_add a b | Sub \<Rightarrow> f64_sub a b | Mul \<Rightarrow> f64_mul a b | Div \<Rightarrow> f64_div a b)))"

definition arithmetic :: "arith_op \<Rightarrow> property_value \<Rightarrow> property_value \<Rightarrow> outcome" where
  "arithmetic op left right =
     (if is_decimal left \<or> is_decimal right then decimal_arithmetic op left right
      else case (as_float left, as_float right) of
        (Some a, Some b) \<Rightarrow>
          (case (value_integer left, value_integer right) of
             (Some x, Some y) \<Rightarrow>
               (case integer_arithmetic op x y of
                  Some v \<Rightarrow> Known (PInteger v)
                | None \<Rightarrow> if op \<noteq> Div then Unknown else float_arithmetic op a b)
           | _ \<Rightarrow> float_arithmetic op a b)
      | _ \<Rightarrow> Unknown)"

section \<open>Timestamps\<close>

definition civil_from_days :: "int \<Rightarrow> int \<times> int \<times> int" where
  "civil_from_days days =
     (let z = days + 719468;
          era = z div 146097;
          day_of_era = z - era * 146097;
          year_of_era = (day_of_era - day_of_era div 1460 + day_of_era div 36524 - day_of_era div 146096) div 365;
          year = year_of_era + era * 400;
          day_of_year = day_of_era - (365 * year_of_era + year_of_era div 4 - year_of_era div 100);
          month_prime = (5 * day_of_year + 2) div 153;
          day = day_of_year - (153 * month_prime + 2) div 5 + 1;
          month = (if month_prime < 10 then month_prime + 3 else month_prime - 9)
      in (if month \<le> 2 then year + 1 else year, month, day))"

definition extract_part :: "i64 \<Rightarrow> bytes \<Rightarrow> outcome" where
  "extract_part t part =
     (let days = sint t div 86400000; in_day = sint t mod 86400000;
          known = (\<lambda>i. Known (PInteger (word_of_int i)))
      in if part = lit ''millisecond'' then known (in_day mod 1000)
         else if part = lit ''second'' then known (in_day div 1000 mod 60)
         else if part = lit ''minute'' then known (in_day div 60000 mod 60)
         else if part = lit ''hour'' then known (in_day div 3600000)
         else if part = lit ''weekday'' then known ((days + 4) mod 7)
         else if part = lit ''year'' then known (fst (civil_from_days days))
         else if part = lit ''month'' then known (fst (snd (civil_from_days days)))
         else if part = lit ''day'' then known (snd (snd (civil_from_days days)))
         else Unknown)"

section \<open>Conversion\<close>

definition known_or :: "('a \<Rightarrow> property_value) \<Rightarrow> 'a option \<Rightarrow> outcome" where
  "known_or f v = (case v of Some x \<Rightarrow> Known (f x) | None \<Rightarrow> Unknown)"

definition convert :: "(f64 \<Rightarrow> bytes) \<Rightarrow> property_value \<Rightarrow> bytes \<Rightarrow> outcome" where
  "convert show_f64 v to =
     (if to = lit ''text'' then outcome_text (to_display show_f64 v)
      else if to = lit ''int'' then
        (case v of
           PText t \<Rightarrow> known_or PInteger (parse_i64 t)
         | PFloat x \<Rightarrow> Known (PInteger (f64_to_i64 x))
         | other \<Rightarrow> known_or PInteger (value_integer other))
      else if to = lit ''float'' then known_or PFloat (as_float v)
      else if to = lit ''decimal'' then
        (case v of
           PDecimal t \<Rightarrow> Known (PDecimal t)
         | PText t \<Rightarrow> if split_decimal t \<noteq> None then Known (PDecimal t) else Unknown
         | PInteger x \<Rightarrow> Known (PDecimal (dec_int (sint x)))
         | PUnsigned x \<Rightarrow> Known (PDecimal (dec (unat x)))
         | _ \<Rightarrow> Unknown)
      else if to = lit ''bool'' then
        (case v of
           PBoolean b \<Rightarrow> boolean b
         | PText t \<Rightarrow> if t = lit ''true'' then boolean True else if t = lit ''false'' then boolean False else Unknown
         | _ \<Rightarrow> Unknown)
      else Unknown)"

section \<open>The value of a number\<close>

definition fraction_value :: "nat list \<Rightarrow> rat" where
  "fraction_value f = of_nat (dec_value f) / 10 ^ length f"

definition digits_value :: "bool \<times> nat list \<times> nat list \<Rightarrow> rat" where
  "digits_value = (\<lambda>(neg, w, f). (if neg then - 1 else 1) * (of_nat (dec_value w) + fraction_value f))"

fun number_value :: "property_value \<Rightarrow> rat option" where
  "number_value (PInteger v) = Some (of_int (sint v))"
| "number_value (PUnsigned v) = Some (of_int (uint v))"
| "number_value (PDecimal t) = map_option digits_value (split_decimal t)"
| "number_value _ = None"

lemma dec_value_bound: "list_all (\<lambda>d. d < 10) ds \<Longrightarrow> dec_value ds < 10 ^ length ds"
proof (induction ds)
  case (Cons d ds)
  then have "dec_value (d # ds) < Suc d * 10 ^ length ds" by (simp add: dec_value_Cons)
  also have "\<dots> \<le> 10 * 10 ^ length ds" using Cons.prems by (intro mult_right_mono) auto
  finally show ?case by simp
qed simp

lemma fraction_value_bounds:
  assumes "list_all (\<lambda>d. d < 10) f"
  shows "0 \<le> fraction_value f" "fraction_value f < 1"
proof -
  have "(of_nat (dec_value f) :: rat) < of_nat (10 ^ length f)" using dec_value_bound[OF assms] of_nat_less_iff by blast
  then show "0 \<le> fraction_value f" "fraction_value f < 1" by (simp_all add: fraction_value_def)
qed

lemma fraction_value_simps:
  "fraction_value [] = 0" "fraction_value (d # ds) = (of_nat d + fraction_value ds) / 10"
  by (simp_all add: fraction_value_def dec_value_Cons field_simps)

text \<open>A digit and a rest below one order like pairs.\<close>

lemma cmp_digit_rest:
  fixes x y :: rat
  assumes "0 \<le> x" "x < 1" "0 \<le> y" "y < 1"
  shows "cmp (of_nat a + x) (of_nat b + y) = (case cmp (a::nat) b of Equal \<Rightarrow> cmp x y | other \<Rightarrow> other)"
proof (cases a b rule: linorder_cases)
  case less
  then have "(of_nat (Suc a) :: rat) \<le> of_nat b" using of_nat_le_iff[of "Suc a" b, where 'a = rat] by simp
  then have "of_nat a + x < of_nat b + y" using assms by simp
  then show ?thesis using less by (simp add: cmp_def)
next
  case greater
  then have "(of_nat (Suc b) :: rat) \<le> of_nat a" using of_nat_le_iff[of "Suc b" a, where 'a = rat] by simp
  then have "of_nat b + y < of_nat a + x" using assms by simp
  then show ?thesis using greater by (simp add: cmp_def)
qed (simp add: cmp_def)

lemma cmp_scale: "0 < (c::rat) \<Longrightarrow> cmp (x / c) (y / c) = cmp x y"
  by (auto simp: cmp_def divide_less_cancel)

lemma compare_fractions_value:
  "list_all (\<lambda>d. d < 10) as \<Longrightarrow> list_all (\<lambda>d. d < 10) bs \<Longrightarrow>
   compare_fractions as bs = cmp (fraction_value as) (fraction_value bs)"
proof (induction as bs rule: compare_fractions.induct)
  case 1
  then show ?case by (simp add: cmp_def)
next
  case (2 a as)
  then show ?case using cmp_digit_rest[of "fraction_value as" "fraction_value []" a 0] fraction_value_bounds[of as]
    cmp_scale[of 10 "of_nat a + fraction_value as" 0]
    by (auto simp: fraction_value_simps split: ordering.splits)
next
  case (3 b bs)
  then show ?case using cmp_digit_rest[of "fraction_value []" "fraction_value bs" 0 b] fraction_value_bounds[of bs]
    cmp_scale[of 10 0 "of_nat b + fraction_value bs"]
    by (auto simp: fraction_value_simps split: ordering.splits)
next
  case (4 a as b bs)
  then show ?case using cmp_digit_rest[of "fraction_value as" "fraction_value bs" a b] fraction_value_bounds[of as] fraction_value_bounds[of bs]
    cmp_scale[of 10 "of_nat a + fraction_value as" "of_nat b + fraction_value bs"]
    by (auto simp: fraction_value_simps split: ordering.splits)
qed

lemma trim_leading_value: "dec_value (trim_leading ds) = dec_value ds" "list_all P ds \<Longrightarrow> list_all P (trim_leading ds)"
  by (induction ds) (auto simp: trim_leading_def dec_value_Cons)

lemma trim_leading_first: "trim_leading ds = [] \<or> 0 < hd (trim_leading ds)"
  by (cases "trim_leading ds = []") (use hd_dropWhile[of "\<lambda>d. d = 0" ds] in \<open>auto simp: trim_leading_def\<close>)

lemma shorter_is_smaller:
  assumes "length l < length r" "list_all (\<lambda>d. d < 10) l" "r = [] \<or> 0 < hd r"
  shows "dec_value l < dec_value r"
proof -
  obtain d ds where r: "r = d # ds" "0 < d" using assms by (cases r) auto
  have "dec_value l < 10 ^ length l" using assms by (intro dec_value_bound)
  also have "\<dots> \<le> 10 ^ length ds" using assms(1) r by (intro power_increasing) auto
  also have "\<dots> \<le> dec_value r" using r by (cases d) (simp_all add: dec_value_Cons)
  finally show ?thesis .
qed

lemma cmp_lists_value:
  "length l = length r \<Longrightarrow> list_all (\<lambda>d. d < 10) l \<Longrightarrow> list_all (\<lambda>d. d < 10) r \<Longrightarrow> cmp l r = cmp (dec_value l) (dec_value r)"
proof (induction l r rule: list_induct2)
  case (Cons a as b bs)
  have "dec_value as < 10 ^ length as" "dec_value bs < 10 ^ length as" using Cons dec_value_bound[of as] dec_value_bound[of bs] by simp_all
  moreover have "a < b \<Longrightarrow> Suc a * 10 ^ length as \<le> b * 10 ^ length as" "b < a \<Longrightarrow> Suc b * 10 ^ length as \<le> a * 10 ^ length as"
    by (intro mult_right_mono; simp)+
  ultimately show ?case using Cons by (cases a b rule: linorder_cases) (auto simp: cmp_def dec_value_Cons split: if_splits)
qed (simp add: cmp_def)

lemma first_unequal_assoc:
  "(case a of Less \<Rightarrow> Less | Equal \<Rightarrow> (case b of Less \<Rightarrow> Less | Equal \<Rightarrow> c | Greater \<Rightarrow> Greater) | Greater \<Rightarrow> Greater)
   = (case (case a of Less \<Rightarrow> Less | Equal \<Rightarrow> b | Greater \<Rightarrow> Greater) of Less \<Rightarrow> Less | Equal \<Rightarrow> c | Greater \<Rightarrow> Greater)"
  by (cases a; cases b) simp_all

lemma compare_digits_value:
  assumes "list_all (\<lambda>d. d < 10) lw" "list_all (\<lambda>d. d < 10) lf" "list_all (\<lambda>d. d < 10) rw" "list_all (\<lambda>d. d < 10) rf"
  shows "compare_digits lw lf rw rf = cmp (of_nat (dec_value lw) + fraction_value lf) (of_nat (dec_value rw) + fraction_value rf)"
proof -
  let ?l = "trim_leading lw" and ?r = "trim_leading rw"
  have d: "list_all (\<lambda>d. d < 10) ?l" "list_all (\<lambda>d. d < 10) ?r" using assms trim_leading_value by auto
  have "(case cmp (length ?l) (length ?r) of Equal \<Rightarrow> cmp ?l ?r | other \<Rightarrow> other) = cmp (dec_value lw) (dec_value rw)"
  proof (cases "length ?l" "length ?r" rule: linorder_cases)
    case less
    then show ?thesis using shorter_is_smaller[OF less d(1) trim_leading_first] trim_leading_value(1) by (simp add: cmp_def)
  next
    case greater
    then show ?thesis using shorter_is_smaller[OF greater d(2) trim_leading_first] trim_leading_value(1) by (simp add: cmp_def)
  next
    case equal
    then show ?thesis using cmp_lists_value[OF equal d] trim_leading_value(1) by (simp add: cmp_def)
  qed
  then have "compare_digits lw lf rw rf = (case cmp (dec_value lw) (dec_value rw) of Equal \<Rightarrow> compare_fractions lf rf | other \<Rightarrow> other)"
    unfolding compare_digits_def Let_def by (simp only: first_unequal_assoc)
  then show ?thesis
    using cmp_digit_rest[of "fraction_value lf" "fraction_value rf" "dec_value lw" "dec_value rw"] fraction_value_bounds assms
    by (auto simp: compare_fractions_value split: ordering.splits)
qed

lemma split_once_length: "split_once c t = Some (x, y) \<Longrightarrow> length x + length y \<le> length t"
  by (induction t arbitrary: x) (fastforce split: if_splits)+

lemma trim_with_length: "length (trim_with f t) \<le> length t"
proof (induction f t rule: trim_with.induct)
  case (1 f t)
  then show ?case by (subst trim_with.simps) (use 1 in fastforce)
qed

lemma trim_length: "length (trim t) \<le> length t"
  using trim_with_length[of space_suffix "rev (trim_with space_prefix t)"] trim_with_length[of space_prefix t] by (simp add: trim_def)

lemma sign_of_length: "length (snd (sign_of t)) \<le> length t"
  by (auto simp: sign_of_def strip_prefix_def split: list.splits option.splits)

lemma split_point_length: "length (fst (split_point t)) + length (snd (split_point t)) \<le> length t"
  using split_once_length by (auto simp: split_point_def split: option.splits)

lemma split_decimal_digits:
  assumes "split_decimal t = Some (neg, w, f)"
  shows "list_all (\<lambda>d. d < 10) w \<and> list_all (\<lambda>d. d < 10) f \<and> length w + length f \<le> length t"
proof -
  obtain x y where xy: "split_point (snd (sign_of (trim t))) = (x, y)" by fastforce
  have "length x + length y \<le> length t"
    using split_point_length[of "snd (sign_of (trim t))"] sign_of_length[of "trim t"] trim_length[of t] xy by simp
  moreover have "(if x = [] then Some [] else digits x) = Some w" "(if y = [] then Some [] else digits y) = Some f"
    using assms xy by (auto simp: split_decimal_def Let_def case_prod_unfold split: if_splits Option.bind_splits)
  ultimately show ?thesis using digits_all[of x w] digits_all[of y f] by (auto split: if_splits)
qed

lemma all_zero_value: "all_zero ds \<longleftrightarrow> dec_value ds = 0"
  by (induction ds) (auto simp: all_zero_def dec_value_Cons)

lemma decimal_compare_value:
  "decimal_compare l r = (case (split_decimal l, split_decimal r) of
     (Some a, Some b) \<Rightarrow> Some (cmp (digits_value a) (digits_value b)) | _ \<Rightarrow> None)"
proof (cases "split_decimal l"; cases "split_decimal r")
  fix a b assume s: "split_decimal l = Some a" "split_decimal r = Some b"
  obtain ln lw lf rn rw rf where ab: "a = (ln, lw, lf)" "b = (rn, rw, rf)" by (cases a; cases b) auto
  let ?x = "of_nat (dec_value lw) + fraction_value lf" and ?y = "of_nat (dec_value rw) + fraction_value rf"
  have d: "list_all (\<lambda>d. d < 10) lw" "list_all (\<lambda>d. d < 10) lf" "list_all (\<lambda>d. d < 10) rw" "list_all (\<lambda>d. d < 10) rf"
    using split_decimal_digits s ab by blast+
  have nn: "0 \<le> ?x" "0 \<le> ?y" using fraction_value_bounds d by auto
  have z: "all_zero lw \<and> all_zero lf \<longleftrightarrow> ?x = 0" "all_zero rw \<and> all_zero rf \<longleftrightarrow> ?y = 0"
    using fraction_value_bounds(1)[OF d(2)] fraction_value_bounds(1)[OF d(4)]
    by (auto simp: all_zero_value add_nonneg_eq_0_iff fraction_value_def)
  have neg: "cmp (- ?x) (- ?y) = reverse (cmp ?x ?y)" by (auto simp: cmp_def)
  show ?thesis
    using s compare_digits_value[OF d] nn neg
    by (auto simp: decimal_compare_def ab digits_value_def Let_def z cmp_def)
qed (auto simp: decimal_compare_def split: option.splits)

section \<open>Exact arithmetic\<close>

lemma digits_value_whole: "digits_value (neg, w, f) = (if neg then - 1 else 1) * of_nat (dec_value (w @ f)) / 10 ^ length f"
  by (simp add: digits_value_def fraction_value_def dec_value_append field_simps)

lemma split_decimal_written:
  assumes "digits w = Some a" "digits f = Some b" "w \<noteq> []"
  shows "split_decimal ((if neg then [45] else []) @ w @ (if f = [] then [] else 46 # f)) = Some (neg, a, b)"
proof -
  let ?body = "w @ (if f = [] then [] else 46 # f)"
  have dg: "list_all digit_byte w" "list_all digit_byte f" using digits_all assms by auto
  have "list_all plain_byte ((if neg then [45] else []) @ ?body)"
    using dg digit_plain by (auto simp: list_all_iff plain_byte_def)
  then have t: "trim ((if neg then [45] else []) @ ?body) = (if neg then [45] else []) @ ?body" by (rule trim_plain)
  obtain c r where w: "w = c # r" "c \<noteq> 45" "c \<noteq> 43" using assms(3) dg(1) digit_byte_not by (cases w) auto
  have s: "sign_of ((if neg then [45] else []) @ ?body) = (neg, ?body)" "?body \<noteq> []"
    using w by (auto simp: sign_of_def strip_prefix_def)
  have "46 \<notin> set w" using dg(1) digit_byte_not by (auto simp: list_all_iff)
  then have p: "split_point ?body = (w, f)"
    by (auto simp: split_point_def split_once_absent split_once_at)
  have "a \<noteq> []" using digits_all[OF assms(1)] assms(3) by auto
  then show ?thesis
    unfolding split_decimal_def t s Let_def prod.case p using s(2) assms by auto
qed

lemma render_value: "map_option digits_value (split_decimal (render m s)) = Some (of_int m / 10 ^ s)"
proof (cases "s = 0")
  case True
  obtain ds where ds: "digits (dec (nat \<bar>m\<bar>)) = Some ds" "dec_value ds = nat \<bar>m\<bar>" using digits_dec by blast
  have "render m s = (if m < 0 then [45] else []) @ dec (nat \<bar>m\<bar>)" using True by (simp add: render_def dec_int_cases)
  then show ?thesis
    using split_decimal_written[of "dec (nat \<bar>m\<bar>)" ds "[]" "[]" "m < 0"] ds True by (simp add: digits_value_whole)
next
  case False
  define p where "p = (if length (dec (nat \<bar>m\<bar>)) \<le> s then replicate (s + 1 - length (dec (nat \<bar>m\<bar>))) 48 @ dec (nat \<bar>m\<bar>) else dec (nat \<bar>m\<bar>))"
  obtain es where es: "digits (dec (nat \<bar>m\<bar>)) = Some es" "dec_value es = nat \<bar>m\<bar>" using digits_dec by blast
  then have "\<exists>ds. digits p = Some ds \<and> dec_value ds = nat \<bar>m\<bar>" "s < length p"
    by (auto simp: p_def digits_append digits_zeros dec_value_append dec_value_replicate_0)
  then obtain ds where ds: "digits p = Some ds" "dec_value ds = nat \<bar>m\<bar>" "s < length p" by blast
  define w f where "w = take (length p - s) p" and "f = drop (length p - s) p"
  obtain a b where ab: "digits w = Some a" "digits f = Some b" "ds = a @ b"
    using ds(1) digits_append[of w f] by (auto simp: w_def f_def split: option.splits)
  have len: "length f = s" "length b = s" "w \<noteq> []" using ds(3) digits_all[OF ab(2)] False by (auto simp: w_def f_def)
  then have f: "f \<noteq> []" using False by auto
  have "render m s = (if m < 0 then [45] else []) @ w @ (if f = [] then [] else 46 # f)"
    using False f by (simp add: render_def Let_def p_def w_def f_def)
  then show ?thesis
    using split_decimal_written[OF ab(1,2) len(3), of "m < 0"] ab(3) ds(2) len by (simp add: digits_value_whole)
qed

fun short :: "property_value \<Rightarrow> bool" where
  "short (PDecimal t) = (length t < 2 ^ 31)"
| "short _ = True"

lemma scaled_value:
  assumes "scaled v = Some (m, s)" "short v"
  shows "number_value v = Some (of_int m / 10 ^ s) \<and> s < 2 ^ 31"
proof (cases v)
  case (PDecimal t)
  obtain neg w f where d: "split_decimal t = Some (neg, w, f)" using assms PDecimal by (cases "split_decimal t") auto
  note dg = split_decimal_digits[OF d]
  have "push_digits 0 (w @ f) = checked (int (dec_value (w @ f)))"
    using push_digits_exact[of 0 "w @ f"] dg by (simp add: in_i128_def)
  then have "m = (if neg then - int (dec_value (w @ f)) else int (dec_value (w @ f)))" "s = length f mod 2 ^ 32"
    using assms d PDecimal by (auto simp: checked_def split: if_splits)
  moreover have "length f < 2 ^ 31" using assms(2) PDecimal dg by simp
  ultimately show ?thesis using d PDecimal by (simp add: digits_value_whole)
qed (use assms in auto)

lemma lift_value: "lift s (m, k) = Some x \<Longrightarrow> k \<le> s \<Longrightarrow> of_int x / 10 ^ s = (of_int m / 10 ^ k :: rat)"
  by (auto simp: lift_def checked_def field_simps simp flip: power_add split: if_splits Option.bind_splits)

definition rat_op :: "arith_op \<Rightarrow> rat \<Rightarrow> rat \<Rightarrow> rat" where
  "rat_op op x y = (case op of Add \<Rightarrow> x + y | Sub \<Rightarrow> x - y | Mul \<Rightarrow> x * y | Div \<Rightarrow> x / y)"

lemma decimal_arithmetic_value:
  assumes "decimal_arithmetic op l r = Known v" "short l" "short r"
  shows "\<exists>x y. number_value l = Some x \<and> number_value r = Some y \<and> number_value v = Some (rat_op op x y) \<and> op \<noteq> Div"
proof -
  obtain m s n k where sc: "scaled l = Some (m, s)" "scaled r = Some (n, k)"
    using assms(1) by (auto simp: decimal_arithmetic_def split: option.splits)
  obtain x y where xy: "lift (max s k) (m, s) = Some x" "lift (max s k) (n, k) = Some y"
    using assms(1) sc by (auto simp: decimal_arithmetic_def Let_def split: option.splits)
  note vl = scaled_value[OF sc(1) assms(2)] and vr = scaled_value[OF sc(2) assms(3)]
  have lx: "of_int x / 10 ^ max s k = (of_int m / 10 ^ s :: rat)" using lift_value[OF xy(1)] by simp
  have ly: "of_int y / 10 ^ max s k = (of_int n / 10 ^ k :: rat)" using lift_value[OF xy(2)] by simp
  have "op \<noteq> Div \<and> number_value v = Some (rat_op op (of_int m / 10 ^ s) (of_int n / 10 ^ k))"
  proof (cases op)
    case Add
    then have "v = PDecimal (render (x + y) (max s k))"
      using assms(1) sc xy by (auto simp: decimal_arithmetic_def checked_def split: if_splits)
    then show ?thesis using render_value[of "x + y" "max s k"] Add lx ly by (simp add: rat_op_def add_divide_distrib)
  next
    case Sub
    then have "v = PDecimal (render (x - y) (max s k))"
      using assms(1) sc xy by (auto simp: decimal_arithmetic_def checked_def split: if_splits)
    then show ?thesis using render_value[of "x - y" "max s k"] Sub lx ly by (simp add: rat_op_def diff_divide_distrib)
  next
    case Mul
    have "(s + k) mod 2 ^ 32 = s + k" using vl vr by simp
    then have "v = PDecimal (render (m * n) (s + k))"
      using assms(1) sc xy Mul by (auto simp: decimal_arithmetic_def checked_def split: if_splits)
    then show ?thesis using render_value[of "m * n" "s + k"] Mul by (simp add: rat_op_def power_add)
  next
    case Div
    then show ?thesis using assms(1) sc xy by (simp add: decimal_arithmetic_def)
  qed
  then show ?thesis using vl vr by auto
qed

text \<open>A whole number is written as its own decimal.\<close>

lemma pipe_decimal_value:
  assumes "pipe_decimal v = Some t"
  shows "\<exists>d. split_decimal t = Some d \<and> number_value v = Some (digits_value d)"
proof -
  have "\<exists>d. split_decimal (dec_int i) = Some d \<and> digits_value d = of_int i" for i
    using render_value[of i 0] by (auto simp: render_def)
  note this[of "sint _"] this[of "uint _"]
  moreover have "dec (unat u) = dec_int (uint u)" for u :: u64 by (simp add: dec_int_cases)
  ultimately show ?thesis using assms by (cases v) fastforce+
qed

lemma compare_decimal_value:
  assumes "is_decimal l \<or> is_decimal r"
  shows "compare_values l r = (case (number_value l, number_value r) of (Some x, Some y) \<Rightarrow> Some (cmp x y) | _ \<Rightarrow> None)"
proof -
  have p: "pipe_decimal v = None \<longleftrightarrow> number_value v = None" if "\<not> is_decimal v" for v using that by (cases v) auto
  show ?thesis
  proof (cases l)
    case l: (PDecimal a)
    show ?thesis
    proof (cases r)
      case (PDecimal b)
      then show ?thesis by (simp add: l compare_values_def decimal_compare_value split: option.splits)
    qed (use pipe_decimal_value[of r] l in \<open>auto simp: compare_values_def decimal_compare_value split: option.splits\<close>)
  qed (use assms pipe_decimal_value[of l] in \<open>cases r; auto simp: compare_values_def decimal_compare_value split: option.splits\<close>)+
qed

section \<open>Whole numbers\<close>

lemma log2_eqI: "2 ^ k \<le> n \<Longrightarrow> n < 2 ^ Suc k \<Longrightarrow> log2 n = k"
proof -
  assume a: "2 ^ k \<le> n" "n < 2 ^ Suc k"
  then have "0 < n" by (metis le_zero_eq neq0_conv power_not_zero zero_neq_numeral)
  note b = log2_bounds[OF this]
  have "(2::nat) ^ k < 2 ^ Suc (log2 n)" "(2::nat) ^ log2 n < 2 ^ Suc k" using a b by linarith+
  then show ?thesis using power_less_imp_less_exp[of "2::nat"] by (metis less_Suc_eq_le le_antisym one_less_numeral_iff semiring_norm(76))
qed

lemma compare_integers:
  "compare_values (PInteger a) (PInteger b) = Some (cmp (int_key (sint a)) (int_key (sint b)))"
proof -
  have "\<bar>sint x\<bar> < 2 ^ 65" for x :: i64 using sint_in_i64[of x] by (simp add: in_i64_def abs_less_iff)
  then show ?thesis by (simp add: compare_values_def compare_floats_def f64_cmp_ints)
qed

lemma int_key_collision: "int_key (2 ^ 53) = int_key (2 ^ 53 + 1)"
proof -
  have l: "log2 (2 ^ 53) = 53" "log2 (2 ^ 53 + 1) = 53" by (rule log2_eqI; simp)+
  have "significand (2 ^ 53) = 2 ^ 52" "significand (2 ^ 53 + 1) = 2 ^ 52"
    unfolding significand_def l by (simp_all add: nearest_even_def)
  then have "nat_bits (2 ^ 53) = nat_bits (2 ^ 53 + 1)" using l by (simp add: round_nat)
  then show ?thesis by (simp add: int_key_def)
qed

section \<open>Properties\<close>

text \<open>C32: Exact decimals stay exact. A comparison with a decimal on either side is the
  comparison of the two numbers, and is unknown when one side is no number; when
  adding, subtracting or multiplying decimals gives a value, the value is the exact
  result, and dividing them never gives one.\<close>

theorem decimals_are_exact:
  "(is_decimal l \<or> is_decimal r \<longrightarrow>
      compare_values l r = (case (number_value l, number_value r) of (Some x, Some y) \<Rightarrow> Some (cmp x y) | _ \<Rightarrow> None))
   \<and> (short l \<and> short r \<and> decimal_arithmetic op l r = Known v \<longrightarrow>
      (\<exists>x y. number_value l = Some x \<and> number_value r = Some y \<and> number_value v = Some (rat_op op x y) \<and> op \<noteq> Div))"
  using compare_decimal_value[of l r] decimal_arithmetic_value[of op l r v] by blast

definition half :: property_value where
  "half = PDecimal (lit ''0.5'')"

lemma half_simps: "split_decimal (lit ''0.5'') = Some (False, [0], [5])"
  using split_decimal_written[of "lit ''0''" "[0]" "lit ''5''" "[5]" False] by (simp add: lit_def to_digit_def)

theorem decimals_are_exact_witness:
  "compare_values half (PInteger 0) = Some Greater
   \<and> (\<exists>v. decimal_arithmetic Mul half half = Known v \<and> number_value v = Some (1 / 4))"
proof -
  have h: "number_value half = Some (1 / 2)" "scaled half = Some (5, 1)"
    by (simp_all add: half_def half_simps digits_value_def fraction_value_def dec_value_def push_digit_def checked_def in_i128_def)
  have is_dec: "is_decimal half" by (simp add: half_def)
  obtain v where v: "decimal_arithmetic Mul half half = Known v"
    by (simp add: decimal_arithmetic_def h lift_def checked_def in_i128_def)
  have "short half" by (simp add: half_def lit_def)
  then obtain x y where "number_value half = Some x" "number_value half = Some y" "number_value v = Some (rat_op Mul x y)"
    using decimals_are_exact[of half half Mul v] v by blast
  moreover from this have "x = 1 / 2" "y = 1 / 2" using h(1) by simp_all
  ultimately have "number_value v = Some (1 / 4)" by (simp add: rat_op_def)
  moreover have "compare_values half (PInteger 0) = Some Greater"
    using decimals_are_exact[of half "PInteger 0" Add "PNull"] h(1) by (simp add: is_dec cmp_def)
  ultimately show ?thesis using v by blast
qed

text \<open>C33: Two whole numbers are compared as doubles: the comparison never turns their order
  around and is exact up to \<open>2 ^ 53\<close>, but beyond that different numbers compare as equal.\<close>

theorem integers_compare_as_doubles:
  "(\<bar>sint a\<bar> \<le> 2 ^ 53 \<and> \<bar>sint b\<bar> \<le> 2 ^ 53 \<longrightarrow> compare_values (PInteger a) (PInteger b) = Some (cmp (sint a) (sint b)))
   \<and> (sint a \<le> sint b \<longrightarrow> compare_values (PInteger a) (PInteger b) \<in> {Some Less, Some Equal})
   \<and> (\<exists>x y. x \<noteq> y \<and> compare_values (PInteger x) (PInteger y) = Some Equal)"
proof -
  let ?x = "0x20000000000000 :: i64" and ?y = "0x20000000000001 :: i64"
  have "sint ?x = 2 ^ 53" "sint ?y = 2 ^ 53 + 1" by simp_all
  then have "compare_values (PInteger ?x) (PInteger ?y) = Some Equal" "?x \<noteq> ?y"
    using int_key_collision by (simp_all only: compare_integers cmp_convs option.inject) simp_all
  then have "\<exists>x y. x \<noteq> y \<and> compare_values (PInteger x) (PInteger y) = Some Equal" by blast
  moreover have "sint a \<le> sint b \<longrightarrow> compare_values (PInteger a) (PInteger b) \<in> {Some Less, Some Equal}"
    using int_key_mono[of "sint a" "sint b"] by (auto simp: compare_integers cmp_def)
  ultimately show ?thesis using cmp_int_key[of "sint a" "sint b"] by (simp add: compare_integers)
qed

theorem integers_compare_as_doubles_witness:
  "compare_values (PInteger (- 3)) (PInteger 7) = Some Less"
  using integers_compare_as_doubles[of "- 3" 7] by simp

end
