(* ===== verification/Civil_Days.thy ===== *)
theory Civil_Days
  imports Expr_Values
begin

text \<open>
  The civil date of a day number, \<open>civil_from_days\<close> of \<^verbatim>\<open>tallyowl-head/src/expr.rs\<close>, against
  the Gregorian calendar: the date of day 0 and the step from a date to the next one
  written with the lengths of the months and the leap year rule, determine the date of
  every day. The algorithm counts in eras of 400 years that start in March; the lemmas
  follow its year, its day of the year and its month.
\<close>


section \<open>The calendar\<close>

definition leap_year :: "int \<Rightarrow> bool" where
  "leap_year y = ((y mod 4 = 0 \<and> y mod 100 \<noteq> 0) \<or> y mod 400 = 0)"

definition days_in_month :: "int \<Rightarrow> int \<Rightarrow> int" where
  "days_in_month y m =
     (if m = 2 then (if leap_year y then 29 else 28)
      else if m = 4 \<or> m = 6 \<or> m = 9 \<or> m = 11 then 30 else 31)"

definition next_day :: "int \<times> int \<times> int \<Rightarrow> int \<times> int \<times> int" where
  "next_day = (\<lambda>(y, m, d).
     if d < days_in_month y m then (y, m, d + 1)
     else if m < 12 then (y, m + 1, 1)
     else (y + 1, 1, 1))"

text \<open>
  The algorithm counts years from March. \<open>year_start\<close> is the day of the era on which
  such a year starts, and \<open>march_date\<close> the month and day of a day of the year.
\<close>

definition year_start :: "int \<Rightarrow> int" where
  "year_start y = 365 * y + y div 4 - y div 100"

definition year_estimate :: "int \<Rightarrow> int" where
  "year_estimate e = e - e div 1460 + e div 36524 - e div 146096"

definition march_date :: "int \<Rightarrow> int \<times> int" where
  "march_date d =
     (let mp = (5 * d + 2) div 153
      in (if mp < 10 then mp + 3 else mp - 9, d - (153 * mp + 2) div 5 + 1))"

definition era_date :: "int \<Rightarrow> int \<Rightarrow> int \<Rightarrow> int \<times> int \<times> int" where
  "era_date era y d =
     (let (m, dd) = march_date d in (if m \<le> 2 then y + era * 400 + 1 else y + era * 400, m, dd))"

lemma civil_era_date:
  assumes "days + 719468 = era * 146097 + e" "0 \<le> e" "e < 146097"
  shows "civil_from_days days = era_date era (year_estimate e div 365) (e - year_start (year_estimate e div 365))"
proof -
  have era: "(days + 719468) div 146097 = era" using assms by simp
  have e: "days + 719468 - era * 146097 = e" using assms(1) by simp
  show ?thesis
    unfolding civil_from_days_def era_date_def march_date_def year_estimate_def year_start_def Let_def era e prod.case ..
qed

lemma div_bounds: "(n::int) * y \<le> x \<Longrightarrow> x < n * y + n \<Longrightarrow> x div n = y"
  by (rule int_div_pos_eq[of x n y "x - n * y"]) auto

text \<open>The estimate of the year is right on every day of the year. A year of the era is
  a century, a group of four years and a year of the group.\<close>

lemma leap_in_era:
  assumes "0 \<le> c" "c < 4" "0 \<le> q" "q < 25" "0 \<le> r" "r < (4::int)"
  shows "leap_year (100 * c + 4 * q + r + 1) \<longleftrightarrow> r = 3 \<and> (q = 24 \<longrightarrow> c = 3)"
proof -
  let ?y = "100 * c + 4 * q + r + 1"
  have 4: "?y mod 4 = (r + 1) mod 4"
  proof -
    have "?y = (r + 1) + 4 * (25 * c + q)" by simp
    then show ?thesis by (simp only: mod_mult_self2)
  qed
  have 400: "?y mod 100 = 0 \<and> ?y mod 4 = 0" if "?y mod 400 = 0"
  proof -
    have "400 dvd ?y" using that by (rule mod_0_imp_dvd)
    then have "100 dvd ?y" "4 dvd ?y" by (rule dvd_trans[rotated], simp)+
    then show ?thesis unfolding mod_eq_0_iff_dvd by blast
  qed
  have 100: "?y mod 100 = 4 * q + r + 1" if "\<not> (q = 24 \<and> r = 3)"
  proof -
    have "?y = (4 * q + r + 1) + 100 * c" by simp
    then have "?y mod 100 = (4 * q + r + 1) mod 100" by (simp only: mod_mult_self2)
    also have "\<dots> = 4 * q + r + 1" using assms that by (intro mod_pos_pos_trivial) auto
    finally show ?thesis .
  qed
  consider "r \<noteq> 3" | "r = 3" "q \<noteq> 24" | "r = 3" "q = 24" by blast
  then show ?thesis
  proof cases
    case 1
    then have "?y mod 4 = r + 1" unfolding 4 using assms by (intro mod_pos_pos_trivial) auto
    then have "?y mod 4 \<noteq> 0" using assms by linarith
    then show ?thesis unfolding leap_year_def using 1 400 by (metis (no_types))
  next
    case 2
    have "?y mod 100 \<noteq> 0" using 100 2 assms by linarith
    moreover have "?y mod 4 = 0" unfolding 4 using 2 by simp
    ultimately show ?thesis unfolding leap_year_def using 2 by blast
  next
    case 3
    then have "c = 0 \<or> c = 1 \<or> c = 2 \<or> c = 3" using assms by auto
    then show ?thesis using 3 by (elim disjE) (simp_all add: leap_year_def)
  qed
qed

lemma year_of_day:
  assumes y: "y = 100 * c + 4 * q + r" "0 \<le> c" "c < 4" "0 \<le> q" "q < 25" "0 \<le> r" "r < 4"
    and d: "0 \<le> d" "d \<le> (if leap_year (y + 1) then 365 else 364)"
  shows "year_estimate (year_start y + d) div 365 = y"
proof -
  have "y div 4 = 25 * c + q" "y div 100 = c" using y by (auto intro: div_bounds)
  define e where "e = year_start y + d"
  have s: "e = 36524 * c + 1461 * q + 365 * r + d"
    using \<open>y div 4 = 25 * c + q\<close> \<open>y div 100 = c\<close> by (simp add: e_def year_start_def y(1))
  have leap: "leap_year (y + 1) \<longleftrightarrow> r = 3 \<and> (q = 24 \<longrightarrow> c = 3)"
    unfolding y(1) using leap_in_era[OF y(2-7)] .
  show ?thesis
  proof (cases "c = 3 \<and> q = 24 \<and> r = 3 \<and> d = 365")
    case True
    then have "e = 146096" "y = 399" using s y(1) by simp_all
    then show ?thesis unfolding e_def[symmetric] by (simp add: year_estimate_def)
  next
    case False
    have top: "1461 * q + 365 * r + d < 36524" "d \<le> 365" "r < 3 \<Longrightarrow> d \<le> 364" "r = 3 \<Longrightarrow> q = 24 \<Longrightarrow> d \<le> 364 \<or> c = 3"
      using False d y leap by (auto split: if_splits)
    have 1: "e div 36524 = c" using top y(2-7) d(1) s by (intro div_bounds) linarith+
    have 2: "e div 146096 = 0" using top y(2-7) d(1) s by (intro div_bounds) linarith+
    have "0 \<le> year_estimate e - 365 * y \<and> year_estimate e - 365 * y < 365"
    proof (cases "24 * c + q + 365 * r + d < 1460")
      case True
      then have "e div 1460 = 25 * c + q" using y(2-7) d(1) s by (intro div_bounds) (simp_all add: distrib_left)
      moreover have "d < 365" using True top(2,3) y(2-7) by (cases "r < 3") (simp, linarith)
      ultimately show ?thesis unfolding year_estimate_def 1 2 using y(1) d(1) s by (simp add: distrib_left)
    next
      case False
      then have "e div 1460 = 25 * c + q + 1" using y(2-7) d(1) s top(2) by (intro div_bounds) (simp_all add: distrib_left)
      moreover have "0 < d" using False y(2-7) by linarith
      ultimately show ?thesis unfolding year_estimate_def 1 2 using y(1) top(2) s by (simp add: distrib_left)
    qed
    then show ?thesis unfolding e_def[symmetric] by (intro div_bounds) linarith+
  qed
qed

text \<open>The twelve months from March, and what the day after a day of the year is.\<close>

definition month_start :: "int \<Rightarrow> int" where
  "month_start k = (153 * k + 2) div 5"

lemma month_start_bounds: "5 * month_start k \<le> 153 * k + 2" "153 * k + 2 < 5 * month_start k + 5"
proof -
  have "153 * k + 2 = 5 * month_start k + (153 * k + 2) mod 5" by (simp add: month_start_def)
  moreover have "0 \<le> (153 * k + 2) mod 5" "(153 * k + 2) mod 5 < 5" by simp_all
  ultimately show "5 * month_start k \<le> 153 * k + 2" "153 * k + 2 < 5 * month_start k + 5" by linarith+
qed

lemma march_date_at:
  assumes "month_start k \<le> d" "d < month_start (k + 1)"
  shows "march_date d = (if k < 10 then k + 3 else k - 9, d - month_start k + 1)"
proof -
  have "(5 * d + 2) div 153 = k"
    using assms month_start_bounds[of k] month_start_bounds[of "k + 1"] by (intro div_bounds) (simp_all add: distrib_left)
  then show ?thesis by (simp add: march_date_def month_start_def)
qed

lemma march_month:
  assumes "0 \<le> d" "d \<le> 365"
  obtains k where "0 \<le> k" "k \<le> 11" "month_start k \<le> d" "d < month_start (k + 1)"
proof -
  define k where "k = (5 * d + 2) div 153"
  have "5 * d + 2 = 153 * k + (5 * d + 2) mod 153" by (simp add: k_def)
  moreover have "0 \<le> (5 * d + 2) mod 153" "(5 * d + 2) mod 153 < 153" by simp_all
  ultimately have k: "153 * k \<le> 5 * d + 2" "5 * d + 2 < 153 * k + 153" by linarith+
  have "0 \<le> k" "k \<le> 11" using k assms by linarith+
  moreover have "month_start k \<le> d" "d < month_start (k + 1)"
    using k month_start_bounds[of k] month_start_bounds[of "k + 1"] by (simp_all add: distrib_left)
  ultimately show thesis by (rule that)
qed

lemma month_length:
  assumes "0 \<le> k" "k \<le> 10"
  shows "days_in_month y (if k < 10 then k + 3 else k - 9) = month_start (k + 1) - month_start k"
proof -
  have "k = 0 \<or> k = 1 \<or> k = 2 \<or> k = 3 \<or> k = 4 \<or> k = 5 \<or> k = 6 \<or> k = 7 \<or> k = 8 \<or> k = 9 \<or> k = 10" using assms by presburger
  then show ?thesis by (elim disjE) (simp_all add: days_in_month_def month_start_def)
qed

lemma month_start_12: "month_start 11 = 337" "month_start 12 = 367"
  by (simp_all add: month_start_def)

lemma month_start_less: "month_start (k + 1) < month_start (k + 2)"
  using month_start_bounds[of "k + 1"] month_start_bounds[of "k + 2"] by (simp add: distrib_left)

lemma march_next:
  assumes "0 \<le> d" "d < (if leap_year (y + era * 400 + 1) then 365 else 364)"
  shows "era_date era y (d + 1) = next_day (era_date era y d)"
proof -
  have d: "d < 365" "\<not> leap_year (y + era * 400 + 1) \<Longrightarrow> d < 364" using assms by (auto split: if_splits)
  obtain k where k: "0 \<le> k" "k \<le> 11" "month_start k \<le> d" "d < month_start (k + 1)"
    using march_month[of d] assms(1) d(1) by force
  note now = march_date_at[OF k(3,4)]
  show ?thesis
  proof (cases "k = 11")
    case True
    then have "march_date (d + 1) = (2, d + 1 - month_start 11 + 1)"
      using march_date_at[of 11 "d + 1"] k d(1) month_start_12 by simp
    then show ?thesis using now True d month_start_12 by (auto simp: era_date_def next_day_def days_in_month_def)
  next
    case False
    then have len: "days_in_month x (if k < 10 then k + 3 else k - 9) = month_start (k + 1) - month_start k" for x
      using k by (intro month_length) auto
    show ?thesis
    proof (cases "d + 1 < month_start (k + 1)")
      case True
      then have "march_date (d + 1) = (if k < 10 then k + 3 else k - 9, d + 1 - month_start k + 1)"
        using k by (intro march_date_at) auto
      then show ?thesis using now True len by (auto simp: era_date_def next_day_def)
    next
      case last: False
      then have "d + 1 = month_start (k + 1)" using k by simp
      then have "march_date (d + 1) = (if k + 1 < 10 then k + 1 + 3 else k + 1 - 9, 1)"
        using march_date_at[of "k + 1" "d + 1"] month_start_less[of k] by (simp add: add.assoc)
      then show ?thesis using now last len k False by (auto simp: era_date_def next_day_def split: if_splits)
    qed
  qed
qed

lemma march_year_end:
  assumes "d = (if leap_year (y + era * 400 + 1) then 365 else 364)"
  shows "next_day (era_date era y d) = (y + era * 400 + 1, 3, 1)"
  using march_date_at[of 11 d] assms month_start_12
  by (auto simp: era_date_def next_day_def days_in_month_def split: if_splits)


lemma div_range: "0 < (n::int) \<Longrightarrow> n * (x div n) \<le> x \<and> x < n * (x div n) + n"
  using mult_div_mod_eq[of n x] pos_mod_sign[of n x] pos_mod_bound[of n x] by linarith

text \<open>Every day of an era lies in one of its years.\<close>

lemma day_of_era:
  assumes "0 \<le> e" "e < 146097"
  obtains y d where "0 \<le> y" "y < 400" "0 \<le> d" "d \<le> (if leap_year (y + 1) then 365 else 364)" "e = year_start y + d"
    "year_estimate e div 365 = y"
proof -
  define c where "c = min 3 (e div 36524)"
  define e1 where "e1 = e - 36524 * c"
  define q where "q = e1 div 1461"
  define e2 where "e2 = e1 - 1461 * q"
  define r where "r = min 3 (e2 div 365)"
  define d where "d = e2 - 365 * r"
  have b1: "36524 * (e div 36524) \<le> e" "e < 36524 * (e div 36524) + 36524" "0 \<le> e div 36524"
    using div_range[of 36524 e] assms(1) by (auto simp: pos_imp_zdiv_nonneg_iff)
  have c: "0 \<le> c" "c < 4" "0 \<le> e1" "e1 \<le> (if c = 3 then 36524 else 36523)"
    using b1 assms(2) by (auto simp: c_def e1_def min_def)
  have b2: "1461 * q \<le> e1" "e1 < 1461 * q + 1461" "0 \<le> q"
    using div_range[of 1461 e1] c(3) by (auto simp: q_def pos_imp_zdiv_nonneg_iff)
  have e2: "0 \<le> e2" "e2 \<le> 1460" using b2 by (auto simp: e2_def)
  have q: "0 \<le> q" "q < 25" "q = 24 \<Longrightarrow> c < 3 \<Longrightarrow> e2 \<le> 1459"
    using b2 c by (auto simp: e2_def split: if_splits)
  have b3: "365 * (e2 div 365) \<le> e2" "e2 < 365 * (e2 div 365) + 365" "0 \<le> e2 div 365"
    using div_range[of 365 e2] e2 by (auto simp: pos_imp_zdiv_nonneg_iff)
  have r: "0 \<le> r" "r < 4" "0 \<le> d" "r < 3 \<Longrightarrow> d \<le> 364" "r = 3 \<Longrightarrow> d = e2 - 1095"
    using b3 by (auto simp: r_def d_def min_def)
  define y where "y = 100 * c + 4 * q + r"
  have leap: "leap_year (y + 1) \<longleftrightarrow> r = 3 \<and> (q = 24 \<longrightarrow> c = 3)"
    unfolding y_def using leap_in_era c q r by simp
  have d: "d \<le> (if leap_year (y + 1) then 365 else 364)" unfolding leap using c(1,2) q e2 r by (cases "r < 3") auto
  have "y div 4 = 25 * c + q" "y div 100 = c" unfolding y_def using c q r by (auto intro: div_bounds)
  then have e: "e = year_start y + d" by (simp add: year_start_def y_def d_def e2_def e1_def)
  show thesis
    using that[of y d] c(1,2) q(1,2) r(1-3) d e year_of_day[OF y_def c(1,2) q(1,2) r(1,2,3) d] by (simp add: y_def)
qed


lemma leap_shift: "leap_year (y + era * 400 + 1) = leap_year (y + 1)"
proof -
  have "y + era * 400 + 1 = (y + 1) + 4 * (100 * era)" "y + era * 400 + 1 = (y + 1) + 100 * (4 * era)"
      "y + era * 400 + 1 = (y + 1) + 400 * era" by simp_all
  then have "(y + era * 400 + 1) mod 4 = (y + 1) mod 4" "(y + era * 400 + 1) mod 100 = (y + 1) mod 100"
      "(y + era * 400 + 1) mod 400 = (y + 1) mod 400" by (metis mod_mult_self2)+
  then show ?thesis by (simp add: leap_year_def)
qed

lemma year_parts:
  assumes "0 \<le> y" "y < (400::int)"
  obtains c q r where "y = 100 * c + 4 * q + r" "0 \<le> c" "c < 4" "0 \<le> q" "q < 25" "0 \<le> r" "r < 4"
proof -
  define c w where "c = y div 100" and "w = y - 100 * c"
  define q r where "q = w div 4" and "r = w - 4 * q"
  have c: "0 \<le> c" "c < 4" "0 \<le> w" "w < 100"
    using div_range[of 100 y] assms by (auto simp: c_def w_def pos_imp_zdiv_nonneg_iff)
  have "0 \<le> q" "q < 25" "0 \<le> r" "r < 4"
    using div_range[of 4 w] c by (auto simp: q_def r_def pos_imp_zdiv_nonneg_iff)
  then show thesis using that[of c q r] c by (simp add: w_def r_def)
qed

lemma year_start_parts:
  assumes "y = 100 * c + 4 * q + r" "0 \<le> q" "q < 25" "0 \<le> r" "r < (4::int)"
  shows "year_start y = 36524 * c + 1461 * q + 365 * r"
proof -
  have "y div 4 = 25 * c + q" "y div 100 = c" using assms by (auto intro: div_bounds)
  then show ?thesis by (simp add: year_start_def assms(1))
qed

definition year_days :: "int \<Rightarrow> int" where
  "year_days y = (if leap_year (y + 1) then 366 else 365)"

lemma next_year_start:
  assumes "0 \<le> y" "y < 400"
  shows "year_start y + year_days y = (if y = 399 then 146097 else year_start (y + 1))"
proof -
  obtain c q r where y: "y = 100 * c + 4 * q + r" "0 \<le> c" "c < 4" "0 \<le> q" "q < 25" "0 \<le> r" "r < 4"
    using year_parts[OF assms] .
  have leap: "leap_year (y + 1) \<longleftrightarrow> r = 3 \<and> (q = 24 \<longrightarrow> c = 3)" unfolding y(1) using leap_in_era[OF y(2-7)] .
  have s: "year_start y = 36524 * c + 1461 * q + 365 * r" using year_start_parts[OF y(1,4-7)] .
  consider "r < 3" | "r = 3" "q < 24" | "r = 3" "q = 24" using y by linarith
  then show ?thesis
  proof cases
    case 1
    then have "year_start (y + 1) = 36524 * c + 1461 * q + 365 * (r + 1)" using y by (intro year_start_parts) auto
    then show ?thesis using 1 s leap y by (auto simp: year_days_def)
  next
    case 2
    then have "year_start (y + 1) = 36524 * c + 1461 * (q + 1) + 365 * 0" using y by (intro year_start_parts) auto
    then show ?thesis using 2 s leap y by (auto simp: year_days_def)
  next
    case 3
    then have "year_start (y + 1) = 36524 * (c + 1) + 1461 * 0 + 365 * 0" using y by (intro year_start_parts) auto
    then show ?thesis using 3 s leap y by (auto simp: year_days_def)
  qed
qed

lemma civil_in_year:
  assumes "days + 719468 = era * 146097 + (year_start y + d)" "0 \<le> y" "y < 400" "0 \<le> d" "d < year_days y"
  shows "civil_from_days days = era_date era y d"
proof -
  obtain c q r where y: "y = 100 * c + 4 * q + r" "0 \<le> c" "c < 4" "0 \<le> q" "q < 25" "0 \<le> r" "r < 4"
    using year_parts[OF assms(2,3)] .
  have s: "year_start y = 36524 * c + 1461 * q + 365 * r" using year_start_parts[OF y(1,4-7)] .
  have d: "d \<le> (if leap_year (y + 1) then 365 else 364)" using assms(5) by (simp add: year_days_def split: if_splits)
  have "0 \<le> year_start y + d" "year_start y + d < 146097"
    using s y(2-7) assms(4) d by (auto split: if_splits)
  then show ?thesis
    using civil_era_date[OF assms(1)] year_of_day[OF y assms(4) d] by simp
qed

lemma civil_successor: "civil_from_days (days + 1) = next_day (civil_from_days days)"
proof -
  define era e where "era = (days + 719468) div 146097" and "e = (days + 719468) mod 146097"
  have z: "days + 719468 = era * 146097 + e" "0 \<le> e" "e < 146097" by (simp_all add: era_def e_def)
  obtain y d where y: "0 \<le> y" "y < 400" "0 \<le> d" "d \<le> (if leap_year (y + 1) then 365 else 364)" "e = year_start y + d"
    using day_of_era[OF z(2,3)] by blast
  have d: "d < year_days y" using y(4) by (auto simp: year_days_def split: if_splits)
  have now: "civil_from_days days = era_date era y d" using civil_in_year[of days era y d] y z d by simp
  show ?thesis
  proof (cases "d + 1 < year_days y")
    case True
    then have "civil_from_days (days + 1) = era_date era y (d + 1)" using civil_in_year[of "days + 1" era y "d + 1"] y z by simp
    moreover have "d < (if leap_year (y + era * 400 + 1) then 365 else 364)"
      using True unfolding leap_shift year_days_def by (auto split: if_splits)
    ultimately show ?thesis using march_next[OF y(3)] now by simp
  next
    case False
    then have last: "d + 1 = year_days y" using d by simp
    then have "next_day (era_date era y d) = (y + era * 400 + 1, 3, 1)"
      using d by (intro march_year_end) (auto simp: leap_shift year_days_def)
    moreover have "civil_from_days (days + 1) = (y + era * 400 + 1, 3, 1)"
    proof -
      have first: "era_date a b 0 = (b + a * 400, 3, 1)" for a b by (simp add: era_date_def march_date_def)
      have pos: "0 < year_days x" for x by (simp add: year_days_def)
      note ys = next_year_start[OF y(1,2)]
      show ?thesis
      proof (cases "y = 399")
        case True
        then show ?thesis
          using civil_in_year[of "days + 1" "era + 1" 0 0] z y(5) ys last pos first by (simp add: year_start_def)
      next
        case False
        then show ?thesis
          using civil_in_year[of "days + 1" era "y + 1" 0] z y ys last pos first by simp
      qed
    qed
    ultimately show ?thesis using now by simp
  qed
qed

lemma civil_date_valid:
  "1 \<le> fst (snd (civil_from_days days)) \<and> fst (snd (civil_from_days days)) \<le> 12
   \<and> 1 \<le> snd (snd (civil_from_days days))"
proof -
  define era e where "era = (days + 719468) div 146097" and "e = (days + 719468) mod 146097"
  have z: "days + 719468 = era * 146097 + e" "0 \<le> e" "e < 146097" by (simp_all add: era_def e_def)
  obtain y d where y: "0 \<le> y" "y < 400" "0 \<le> d" "d \<le> (if leap_year (y + 1) then 365 else 364)" "e = year_start y + d"
    using day_of_era[OF z(2,3)] by blast
  have d: "d < year_days y" "d \<le> 365" using y(4) by (auto simp: year_days_def split: if_splits)
  obtain k where k: "0 \<le> k" "k \<le> 11" "month_start k \<le> d" "d < month_start (k + 1)" using march_month[OF y(3) d(2)] .
  have "civil_from_days days = era_date era y d" using civil_in_year[of days era y d] y z d by simp
  then show ?thesis using march_date_at[OF k(3,4)] k by (auto simp: era_date_def)
qed

lemma civil_zero: "civil_from_days 0 = (1970, 1, 1)"
  by code_simp

section \<open>Properties\<close>

text \<open>C34: The date of a day is the date of the Gregorian calendar, for every day before and
  after 1970: day 0 is the first of January 1970, the date of each day is followed by
  the calendar's next date.\<close>

theorem civil_dates_are_gregorian:
  "civil_from_days 0 = (1970, 1, 1)
   \<and> civil_from_days (days + 1) = next_day (civil_from_days days)
   \<and> (case civil_from_days days of (y, m, d) \<Rightarrow> 1 \<le> m \<and> m \<le> 12 \<and> 1 \<le> d)"
  using civil_zero civil_successor[of days] civil_date_valid[of days] by (simp add: case_prod_unfold)

end
