(* ===== verification/Expr.thy ===== *)
theory Expr
  imports Civil_Days Tally_Error
begin

text \<open>
  The expression language of a query, \<^verbatim>\<open>tallyowl-head/src/expr.rs\<close>: reading an encoded
  expression, evaluating it on a row with three truth values, and the exact match that
  turns a filter into a point lookup.

  The generated reader of one node, \<open>decode_expression_node\<close>, is the parameter \<open>read_node\<close>; its
  node type is the record below, with the fields of the generated type. An operand is
  itself encoded, so reading recurses through \<open>read_node\<close>; \<open>decode_left\<close> counts the levels that
  are left, which is the depth check of the source. A \<open>not\<close> indexes the first of its
  operands; reading gives it exactly one (\<open>node_ok\<close> below), and the model is unknown on a
  \<open>not\<close> without operands, which no encoded expression reads as. Times are 64-bit words,
  so adding a shift wraps as a release build does.
\<close>

section \<open>The generated types\<close>

datatype compare_op = Eq | Ne | Lt | Le | Gt | Ge
datatype logical_op = And | Or | Not
datatype text_test = StartsWith | EndsWith | Contains
datatype time_function = Truncate | Extract | Shift
datatype calendar = Hour | Day | Week | Month

datatype expression_kind =
    KLiteral | KField | KCompare | KSet | KTextTest | KNullTest | KLogical | KArith | KTime | KConvert

record field_ref =
  f_name :: bytes
  f_value_type :: "bytes option"
  f_origin :: "property_origin option"

record interval =
  fixed_ms :: "i64 option"
  calendar_unit :: "calendar option"

record time_expr =
  time_fn :: time_function
  time_operand :: bytes
  time_interval :: "interval option"
  time_part :: "bytes option"
  time_shift_ms :: "i64 option"

record expression_node =
  x_expression :: expression_kind
  x_literal :: "typed_value option"
  x_field :: "field_ref option"
  x_compare :: "(compare_op \<times> bytes \<times> bytes) option"
  x_set :: "(bool \<times> bytes \<times> typed_value list) option"
  x_text :: "(text_test \<times> bytes \<times> bytes) option"
  x_null :: "(bool \<times> bytes) option"
  x_logical :: "(logical_op \<times> bytes list) option"
  x_arith :: "(arith_op \<times> bytes \<times> bytes) option"
  x_time :: "time_expr option"
  x_convert :: "(bytes \<times> bytes) option"

section \<open>Prepared expressions\<close>

datatype node =
    Literal property_value
  | Field field_ref
  | Compare compare_op node node
  | Set bool node "property_value list"
  | TextNode text_test node bytes
  | NullNode bool node
  | Logical logical_op "node list"
  | Arith arith_op node node
  | Time time_function node "i64 option" "bytes option" "i64 option"
  | Convert bytes node

datatype expr_message =
    NestsTooDeepExpr nat
  | PartUnreadable
  | MissingPart string
  | BadValue wire_error
  | NothingInIt
  | NotOfMany
  | MixedTypes bytes "bytes list"

definition DEFAULT_MAX_DEPTH :: nat where
  "DEFAULT_MAX_DEPTH = 16"

definition invalid :: "expr_message \<Rightarrow> expr_message tally_error" where
  "invalid msg = new_error InvalidArgument msg"

definition missing :: "string \<Rightarrow> expr_message tally_error" where
  "missing named = invalid (MissingPart named)"

text \<open>\<open>to_store_value\<close> of \<^verbatim>\<open>project.rs\<close>, after the wire reader.\<close>

fun to_store_value :: "wire_value \<Rightarrow> property_value" where
  "to_store_value WNull = PNull"
| "to_store_value (WBoolean v) = PBoolean v"
| "to_store_value (WInteger v) = PInteger v"
| "to_store_value (WUnsigned v) = PUnsigned v"
| "to_store_value (WFloat v) = PFloat v"
| "to_store_value (WDecimal e d) = PDecimal (decimal_text e d)"
| "to_store_value (WText v) = PText v"
| "to_store_value (WBytes v) = PBytes v"

definition read_literal :: "typed_value \<Rightarrow> expr_message tally_error + property_value" where
  "read_literal v = (case read_typed v of Inl e \<Rightarrow> Inl (invalid (BadValue e)) | Inr w \<Rightarrow> Inr (to_store_value w))"

definition interval_ms :: "interval \<Rightarrow> i64 option" where
  "interval_ms i =
     (case fixed_ms i of
        Some v \<Rightarrow> Some v
      | None \<Rightarrow>
          (case calendar_unit i of
             Some Hour \<Rightarrow> Some 3600000
           | Some Day \<Rightarrow> Some 86400000
           | Some Week \<Rightarrow> Some 604800000
           | Some Month \<Rightarrow> None
           | None \<Rightarrow> None))"

definition build_node :: "(bytes \<Rightarrow> expr_message tally_error + node) \<Rightarrow> expression_node \<Rightarrow> expr_message tally_error + node" where
  "build_node child x =
     (case x_expression x of
        KLiteral \<Rightarrow>
          and_then (ok_or (x_literal x) (missing ''a literal'')) (\<lambda>l. and_then (read_literal l) (\<lambda>v. Inr (Literal v)))
      | KField \<Rightarrow> and_then (ok_or (x_field x) (missing ''a field'')) (\<lambda>f. Inr (Field f))
      | KCompare \<Rightarrow>
          and_then (ok_or (x_compare x) (missing ''a comparison'')) (\<lambda>(op, l, r).
          and_then (child l) (\<lambda>l. and_then (child r) (\<lambda>r. Inr (Compare op l r))))
      | KSet \<Rightarrow>
          and_then (ok_or (x_set x) (missing ''a set test'')) (\<lambda>(negated, l, values).
          and_then (collect read_literal values) (\<lambda>values. and_then (child l) (\<lambda>l. Inr (Set negated l values))))
      | KTextTest \<Rightarrow>
          and_then (ok_or (x_text x) (missing ''a text test'')) (\<lambda>(test, l, pattern).
          and_then (child l) (\<lambda>l. Inr (TextNode test l pattern)))
      | KNullTest \<Rightarrow>
          and_then (ok_or (x_null x) (missing ''a null test'')) (\<lambda>(negated, operand).
          and_then (child operand) (\<lambda>operand. Inr (NullNode negated operand)))
      | KLogical \<Rightarrow>
          and_then (ok_or (x_logical x) (missing ''a logical operator'')) (\<lambda>(op, operands).
          if operands = [] then Inl (invalid NothingInIt)
          else if op = Not \<and> length operands \<noteq> 1 then Inl (invalid NotOfMany)
          else and_then (collect child operands) (\<lambda>operands. Inr (Logical op operands)))
      | KArith \<Rightarrow>
          and_then (ok_or (x_arith x) (missing ''an arithmetic'')) (\<lambda>(op, l, r).
          and_then (child l) (\<lambda>l. and_then (child r) (\<lambda>r. Inr (Arith op l r))))
      | KTime \<Rightarrow>
          and_then (ok_or (x_time x) (missing ''a time function'')) (\<lambda>t.
          and_then (child (time_operand t)) (\<lambda>operand.
            Inr (Time (time_fn t) operand (Option.bind (time_interval t) interval_ms) (time_part t) (time_shift_ms t))))
      | KConvert \<Rightarrow>
          and_then (ok_or (x_convert x) (missing ''a conversion'')) (\<lambda>(to, operand).
          and_then (child operand) (\<lambda>operand. Inr (Convert to operand))))"

fun decode_left :: "(bytes \<Rightarrow> expression_node option) \<Rightarrow> nat \<Rightarrow> nat \<Rightarrow> bytes \<Rightarrow> expr_message tally_error + node" where
  "decode_left read_node max_depth 0 encoded =
     Inl (set_retryable (new_error BudgetExceeded (NestsTooDeepExpr max_depth)) False)"
| "decode_left read_node max_depth (Suc left) encoded =
     and_then (ok_or (read_node encoded) (invalid PartUnreadable)) (build_node (decode_left read_node max_depth left))"

definition decode_expr :: "(bytes \<Rightarrow> expression_node option) \<Rightarrow> bytes \<Rightarrow> nat \<Rightarrow> nat \<Rightarrow> expr_message tally_error + node" where
  "decode_expr read_node encoded level max_depth = decode_left read_node max_depth (max_depth - level) encoded"

section \<open>Fields\<close>

definition BUILT_IN :: "bytes list" where
  "BUILT_IN = map lit [''event_id'', ''batch_id'', ''workspace_id'', ''project_id'', ''source_id'', ''kind'', ''name'',
     ''occurred_at'', ''received_at'', ''committed_at'', ''session_id'', ''request_id'', ''trace_id'',
     ''service_name'', ''release'']"

definition optional_text :: "bytes option \<Rightarrow> outcome" where
  "optional_text t = known_or PText t"

definition read_built_in :: "bytes \<Rightarrow> event_row \<Rightarrow> outcome option" where
  "read_built_in n row =
     (if n = lit ''event_id'' then Some (Known (PBytes (event_id row)))
      else if n = lit ''batch_id'' then Some (Known (PBytes (batch_id row)))
      else if n = lit ''workspace_id'' then Some (Known (PBytes (workspace_id row)))
      else if n = lit ''project_id'' then Some (Known (PBytes (ev_project_id row)))
      else if n = lit ''source_id'' then Some (Known (PBytes (source_id row)))
      else if n = lit ''kind'' then Some (outcome_text (ev_kind row))
      else if n = lit ''name'' then Some (outcome_text (ev_name row))
      else if n = lit ''occurred_at'' then Some (Known (PInteger (occurred_at row)))
      else if n = lit ''received_at'' then Some (Known (PInteger (received_at row)))
      else if n = lit ''committed_at'' then Some (Known (PInteger (committed_at row)))
      else if n = lit ''session_id'' then Some (optional_text (session_id row))
      else if n = lit ''request_id'' then Some (optional_text (request_id row))
      else if n = lit ''service_name'' then Some (optional_text (service_name row))
      else if n = lit ''release'' then Some (optional_text (release row))
      else if n = lit ''trace_id'' then Some (known_or PBytes (trace_id row))
      else None)"

definition field_read :: "field_ref \<Rightarrow> event_row \<Rightarrow> outcome" where
  "field_read f row =
     (case read_built_in (f_name f) row of
        Some built_in \<Rightarrow> built_in
      | None \<Rightarrow>
          (case bt_get (properties row) (f_name f) of
             None \<Rightarrow> Unknown
           | Some (v, origin) \<Rightarrow>
               if (case f_origin f of Some wanted \<Rightarrow> origin \<noteq> origin_name wanted | None \<Rightarrow> False) then Unknown
               else if (case f_value_type f of Some wanted \<Rightarrow> type_name v \<noteq> wanted | None \<Rightarrow> False) then Unknown
               else Known v))"

section \<open>Evaluation\<close>

fun compare_holds :: "compare_op \<Rightarrow> ordering \<Rightarrow> bool" where
  "compare_holds Eq c = (c = Equal)"
| "compare_holds Ne c = (c \<noteq> Equal)"
| "compare_holds Lt c = (c = Less)"
| "compare_holds Le c = (c \<noteq> Greater)"
| "compare_holds Gt c = (c = Greater)"
| "compare_holds Ge c = (c \<noteq> Less)"

definition text_holds :: "text_test \<Rightarrow> bytes \<Rightarrow> bytes \<Rightarrow> bool" where
  "text_holds test t pattern =
     (case test of
        StartsWith \<Rightarrow> take (length pattern) t = pattern
      | EndsWith \<Rightarrow> length pattern \<le> length t \<and> drop (length t - length pattern) t = pattern
      | Contains \<Rightarrow> list_ex (\<lambda>i. take (length pattern) (drop i t) = pattern) [0..<Suc (length t)])"

definition logical_outcome :: "logical_op \<Rightarrow> bool option list \<Rightarrow> outcome" where
  "logical_outcome op truths =
     (case op of
        And \<Rightarrow> if Some False \<in> set truths then boolean False
               else if list_all (\<lambda>t. t = Some True) truths then boolean True else Unknown
      | Or \<Rightarrow> if Some True \<in> set truths then boolean True
              else if list_all (\<lambda>t. t = Some False) truths then boolean False else Unknown
      | Not \<Rightarrow> (case truths of Some v # _ \<Rightarrow> boolean (\<not> v) | _ \<Rightarrow> Unknown))"

definition time_outcome :: "time_function \<Rightarrow> i64 \<Rightarrow> i64 option \<Rightarrow> bytes option \<Rightarrow> i64 option \<Rightarrow> outcome" where
  "time_outcome function t ms part shift_ms =
     (case function of
        Truncate \<Rightarrow>
          (case ms of
             Some n \<Rightarrow> if 0 < sint n then Known (PInteger (t - word_of_int (sint t mod sint n))) else Unknown
           | None \<Rightarrow> Unknown)
      | Shift \<Rightarrow> Known (PInteger (t + (case shift_ms of Some s \<Rightarrow> s | None \<Rightarrow> 0)))
      | Extract \<Rightarrow> (case part of Some p \<Rightarrow> extract_part t p | None \<Rightarrow> Unknown))"

fun evaluate :: "(f64 \<Rightarrow> bytes) \<Rightarrow> node \<Rightarrow> event_row \<Rightarrow> outcome" where
  "evaluate show_f64 (Literal v) row = Known v"
| "evaluate show_f64 (Field f) row = field_read f row"
| "evaluate show_f64 (Compare op l r) row =
     (case (outcome_value (evaluate show_f64 l row), outcome_value (evaluate show_f64 r row)) of
        (Some x, Some y) \<Rightarrow>
          (case compare_values x y of Some c \<Rightarrow> boolean (compare_holds op c) | None \<Rightarrow> Unknown)
      | _ \<Rightarrow> Unknown)"
| "evaluate show_f64 (Set negated l values) row =
     (case outcome_value (evaluate show_f64 l row) of
        None \<Rightarrow> Unknown
      | Some x \<Rightarrow> boolean (list_ex (\<lambda>v. compare_values x v = Some Equal) values \<noteq> negated))"
| "evaluate show_f64 (TextNode test l pattern) row =
     (case outcome_value (evaluate show_f64 l row) of
        Some (PText t) \<Rightarrow> boolean (text_holds test t pattern)
      | _ \<Rightarrow> Unknown)"
| "evaluate show_f64 (NullNode negated operand) row =
     (let out = evaluate show_f64 operand row in boolean ((out = Unknown \<or> out = Known PNull) \<noteq> negated))"
| "evaluate show_f64 (Logical op operands) row =
     logical_outcome op (map (\<lambda>x. truth (evaluate show_f64 x row)) operands)"
| "evaluate show_f64 (Arith op l r) row =
     (case (outcome_value (evaluate show_f64 l row), outcome_value (evaluate show_f64 r row)) of
        (Some x, Some y) \<Rightarrow> arithmetic op x y
      | _ \<Rightarrow> Unknown)"
| "evaluate show_f64 (Time function operand ms part shift_ms) row =
     (case Option.bind (outcome_value (evaluate show_f64 operand row)) value_integer of
        None \<Rightarrow> Unknown
      | Some t \<Rightarrow> time_outcome function t ms part shift_ms)"
| "evaluate show_f64 (Convert to operand) row =
     (case outcome_value (evaluate show_f64 operand row) of
        None \<Rightarrow> Unknown
      | Some v \<Rightarrow> convert show_f64 v to)"

definition keeps :: "(f64 \<Rightarrow> bytes) \<Rightarrow> node \<Rightarrow> event_row \<Rightarrow> bool" where
  "keeps show_f64 n row = (truth (evaluate show_f64 n row) = Some True)"

fun collect_fields :: "node \<Rightarrow> field_ref list" where
  "collect_fields (Literal _) = []"
| "collect_fields (Field f) = [f]"
| "collect_fields (Compare _ l r) = collect_fields l @ collect_fields r"
| "collect_fields (Arith _ l r) = collect_fields l @ collect_fields r"
| "collect_fields (Set _ l _) = collect_fields l"
| "collect_fields (TextNode _ l _) = collect_fields l"
| "collect_fields (NullNode _ x) = collect_fields x"
| "collect_fields (Time _ x _ _ _) = collect_fields x"
| "collect_fields (Convert _ x) = collect_fields x"
| "collect_fields (Logical _ xs) = concat (map collect_fields xs)"

definition kinds_of :: "bytes \<Rightarrow> event_row list \<Rightarrow> bytes list" where
  "kinds_of n rows =
     sort_dedup (concat (map (\<lambda>row. case bt_get (properties row) n of Some (v, _) \<Rightarrow> [type_name v] | None \<Rightarrow> []) rows))"

fun check_fields :: "field_ref list \<Rightarrow> event_row list \<Rightarrow> expr_message tally_error + unit" where
  "check_fields [] rows = Inr ()"
| "check_fields (f # fs) rows =
     (if f_value_type f \<noteq> None \<or> f_name f \<in> set BUILT_IN then check_fields fs rows
      else let kinds = kinds_of (f_name f) rows
           in if 1 < length kinds then Inl (set_retryable (invalid (MixedTypes (f_name f) kinds)) False)
              else check_fields fs rows)"

definition check_types :: "node \<Rightarrow> event_row list \<Rightarrow> expr_message tally_error + unit" where
  "check_types n rows = check_fields (collect_fields n) rows"

definition prepare :: "(bytes \<Rightarrow> expression_node option) \<Rightarrow> bytes \<Rightarrow> event_row list \<Rightarrow> nat \<Rightarrow> expr_message tally_error + node" where
  "prepare read_node encoded rows max_depth =
     and_then (decode_expr read_node encoded 0 max_depth) (\<lambda>n. and_then (check_types n rows) (\<lambda>_. Inr n))"

definition prepare_unchecked :: "(bytes \<Rightarrow> expression_node option) \<Rightarrow> bytes \<Rightarrow> nat \<Rightarrow> expr_message tally_error + node" where
  "prepare_unchecked read_node encoded max_depth = decode_expr read_node encoded 0 max_depth"

section \<open>Point lookups\<close>

fun exact_match :: "node \<Rightarrow> (field_ref \<times> property_value) option"
and first_match :: "node list \<Rightarrow> (field_ref \<times> property_value) option" where
  "exact_match (Compare op l r) =
     (case (op, l, r) of
        (Eq, Field f, Literal v) \<Rightarrow> Some (f, v)
      | (Eq, Literal v, Field f) \<Rightarrow> Some (f, v)
      | _ \<Rightarrow> None)"
| "exact_match (Logical op parts) = (if op = And then first_match parts else None)"
| "exact_match _ = None"
| "first_match [] = None"
| "first_match (p # ps) = (case exact_match p of Some x \<Rightarrow> Some x | None \<Rightarrow> first_match ps)"

section \<open>Truth\<close>

text \<open>The reference: the strong three-valued connectives, folded over the operands.\<close>

fun k_and :: "bool option \<Rightarrow> bool option \<Rightarrow> bool option" where
  "k_and (Some False) b = Some False"
| "k_and (Some True) b = b"
| "k_and None b = (if b = Some False then Some False else None)"

definition k_not :: "bool option \<Rightarrow> bool option" where
  "k_not a = map_option HOL.Not a"

definition k_or :: "bool option \<Rightarrow> bool option \<Rightarrow> bool option" where
  "k_or a b = k_not (k_and (k_not a) (k_not b))"

fun negated_op :: "compare_op \<Rightarrow> compare_op" where
  "negated_op Eq = Ne"
| "negated_op Ne = Eq"
| "negated_op Lt = Ge"
| "negated_op Ge = Lt"
| "negated_op Gt = Le"
| "negated_op Le = Gt"

lemma truth_boolean [simp]: "truth (boolean b) = Some b"
  by (simp add: boolean_def)

lemma truth_value_cases: "t = Some False \<or> t = Some True \<or> t = None"
  by (cases t) auto

lemma truth_and: "truth (logical_outcome And ts) = foldr k_and ts (Some True)"
proof (induction ts)
  case Nil
  show ?case by (simp add: logical_outcome_def)
next
  case (Cons t ts)
  show ?case
    unfolding foldr.simps o_apply Cons[symmetric] using truth_value_cases[of t] by (auto simp: logical_outcome_def)
qed

lemma truth_not: "truth (logical_outcome Not [t]) = k_not t"
  by (cases t) (simp_all add: logical_outcome_def k_not_def)

lemma k_not_not [simp]: "k_not (k_not a) = a"
  by (cases a) (simp_all add: k_not_def)

lemma k_not_eq: "k_not a = b \<longleftrightarrow> a = k_not b"
  by auto

lemma k_not_and_fold: "k_not (foldr k_and ts a) = foldr k_or (map k_not ts) (k_not a)"
proof (induction ts)
  case (Cons t ts)
  then show ?case by (simp add: k_or_def k_not_eq[of "foldr k_and ts a"])
qed simp

lemma truth_or: "truth (logical_outcome Or ts) = foldr k_or ts (Some False)"
proof (induction ts)
  case Nil
  show ?case by (simp add: logical_outcome_def)
next
  case (Cons t ts)
  show ?case
    unfolding foldr.simps o_apply Cons[symmetric]
    using truth_value_cases[of t] by (auto simp: logical_outcome_def k_or_def k_not_def)
qed

lemma compare_holds_negated: "compare_holds (negated_op op) c = (\<not> compare_holds op c)"
  by (cases op; cases c) simp_all

lemma truth_negated_compare:
  "truth (evaluate show_f64 (Compare (negated_op op) l r) row) = k_not (truth (evaluate show_f64 (Compare op l r) row))"
  by (auto simp: compare_holds_negated k_not_def split: option.splits)

text \<open>C15: A filter has the strong three-valued logic. An \<open>and\<close> and an \<open>or\<close> are the folds of the
  three-valued connectives, a \<open>not\<close> is the three-valued negation, the negation of an \<open>and\<close>
  is the \<open>or\<close> of the negations, and the negation of a comparison keeps exactly the rows the opposite
  comparison keeps, whatever the operands read.\<close>

theorem filters_are_three_valued:
  "truth (evaluate show_f64 (Logical And xs) row) = foldr k_and (map (\<lambda>x. truth (evaluate show_f64 x row)) xs) (Some True)
   \<and> truth (evaluate show_f64 (Logical Or xs) row) = foldr k_or (map (\<lambda>x. truth (evaluate show_f64 x row)) xs) (Some False)
   \<and> truth (evaluate show_f64 (Logical Not [x]) row) = k_not (truth (evaluate show_f64 x row))
   \<and> truth (evaluate show_f64 (Logical Not [Logical And xs]) row)
       = truth (evaluate show_f64 (Logical Or (map (\<lambda>x. Logical Not [x]) xs)) row)
   \<and> keeps show_f64 (Logical Not [Compare op l r]) row = keeps show_f64 (Compare (negated_op op) l r) row"
  unfolding keeps_def truth_negated_compare
  by (simp add: truth_and truth_or truth_not k_not_and_fold o_def k_not_def[of "Some True"])

section \<open>The exact match\<close>

lemma truth_and_operand: "truth (logical_outcome And ts) = Some True \<Longrightarrow> t \<in> set ts \<Longrightarrow> t = Some True"
  by (auto simp: logical_outcome_def list_all_iff split: if_splits)

definition matches :: "field_ref \<Rightarrow> property_value \<Rightarrow> event_row \<Rightarrow> bool" where
  "matches f v row =
     (case field_read f row of
        Known x \<Rightarrow> compare_values x v = Some Equal \<or> compare_values v x = Some Equal
      | Unknown \<Rightarrow> False)"

lemma keeps_compare_eq:
  "keeps show_f64 (Compare Eq l r) row \<Longrightarrow>
   \<exists>x y. evaluate show_f64 l row = Known x \<and> evaluate show_f64 r row = Known y \<and> compare_values x y = Some Equal"
  unfolding keeps_def evaluate.simps
  by (cases "evaluate show_f64 l row"; cases "evaluate show_f64 r row") (auto split: option.splits)

lemma exact_match_keeps:
  "exact_match n = Some (f, v) \<Longrightarrow> keeps show_f64 n row \<Longrightarrow> matches f v row"
  "first_match ns = Some (f, v) \<Longrightarrow> \<forall>n\<in>set ns. keeps show_f64 n row \<Longrightarrow> matches f v row"
proof (induction n and ns rule: exact_match_first_match.induct)
  case (1 op l r)
  then show ?case
    by (auto simp: matches_def dest!: keeps_compare_eq split: compare_op.splits node.splits)
next
  case (2 op ns)
  then have "op = And" by (simp split: if_splits)
  moreover have "\<forall>n\<in>set ns. keeps show_f64 n row"
    using 2(3) truth_and_operand \<open>op = And\<close> by (fastforce simp: keeps_def)
  ultimately show ?case using 2 by simp
qed (auto split: option.splits)

text \<open>C35: The exact match of a filter is sound. When a filter is said to pin a field to a value,
  every row the filter keeps reads that field as a known value that compares equal to it, however
  deep in nested conjunctions the comparison was found.\<close>

theorem exact_match_is_sound:
  assumes "exact_match n = Some (f, v)" and "keeps show_f64 n row"
  shows "\<exists>x. field_read f row = Known x \<and> (compare_values x v = Some Equal \<or> compare_values v x = Some Equal)"
  using exact_match_keeps(1)[OF assms] by (auto simp: matches_def split: outcome.splits)


definition toy_filter :: node where
  "toy_filter = Logical And [NullNode True (Field \<lparr>f_name = lit ''plan'', f_value_type = None, f_origin = None\<rparr>),
     Logical And [Compare Eq (Literal (PText (lit ''page''))) (Field \<lparr>f_name = lit ''kind'', f_value_type = None, f_origin = None\<rparr>)]]"

definition toy_row :: event_row where
  "toy_row = (row_new [1] (lit ''page'') (lit ''view'') 5)\<lparr>properties := [(lit ''plan'', (PText (lit ''pro''), lit ''client''))]\<rparr>"

lemmas toy_filter_simps =
  toy_filter_def toy_row_def keeps_def logical_outcome_def field_read_def read_built_in_def row_new_def lit_def
  boolean_def compare_values_def outcome_text_def

theorem exact_match_is_sound_witness:
  "\<exists>x. field_read \<lparr>f_name = lit ''kind'', f_value_type = None, f_origin = None\<rparr> toy_row = Known x
     \<and> (compare_values x (PText (lit ''page'')) = Some Equal \<or> compare_values (PText (lit ''page'')) x = Some Equal)"
  by (rule exact_match_is_sound[of toy_filter _ _ "\<lambda>_. []"]) (simp_all add: toy_filter_simps)

section \<open>What reading an expression gives\<close>

fun levels :: "node \<Rightarrow> nat" where
  "levels (Literal _) = 1"
| "levels (Field _) = 1"
| "levels (Compare _ l r) = Suc (max (levels l) (levels r))"
| "levels (Arith _ l r) = Suc (max (levels l) (levels r))"
| "levels (Set _ l _) = Suc (levels l)"
| "levels (TextNode _ l _) = Suc (levels l)"
| "levels (NullNode _ x) = Suc (levels x)"
| "levels (Time _ x _ _ _) = Suc (levels x)"
| "levels (Convert _ x) = Suc (levels x)"
| "levels (Logical _ xs) = Suc (foldr max (map levels xs) 0)"

fun node_ok :: "node \<Rightarrow> bool" where
  "node_ok (Compare _ l r) = (node_ok l \<and> node_ok r)"
| "node_ok (Arith _ l r) = (node_ok l \<and> node_ok r)"
| "node_ok (Set _ l _) = node_ok l"
| "node_ok (TextNode _ l _) = node_ok l"
| "node_ok (NullNode _ x) = node_ok x"
| "node_ok (Time _ x _ _ _) = node_ok x"
| "node_ok (Convert _ x) = node_ok x"
| "node_ok (Logical op xs) = (xs \<noteq> [] \<and> (op = Not \<longrightarrow> length xs = 1) \<and> list_all node_ok xs)"
| "node_ok _ = True"

lemma foldr_max_bound: "(\<forall>x\<in>set xs. x \<le> m) \<Longrightarrow> foldr max xs 0 \<le> (m::nat)"
  by (induction xs) auto

lemma build_node_cases:
  assumes "build_node child x = Inr n"
  obtains (leaf) v where "n = Literal v"
    | (field) f where "n = Field f"
    | (two) l r y z op aop where "n = Compare op y z \<or> n = Arith aop y z" and "child l = Inr y" and "child r = Inr z"
    | (one) l y negated vs test pat tf ms part shift to where
        "n = Set negated y vs \<or> n = TextNode test y pat \<or> n = NullNode negated y \<or> n = Time tf y ms part shift
          \<or> n = Convert to y" and "child l = Inr y"
    | (many) op ls ys where "n = Logical op ys" and "ls \<noteq> []" and "op = Not \<longrightarrow> length ls = 1" and "collect child ls = Inr ys"
  using assms
  by (cases "x_expression x")
    (fastforce simp: build_node_def and_then_Inr_conv ok_or_Inr_conv split: if_splits)+

lemma build_node_ok:
  assumes "build_node child x = Inr n" and child: "\<And>b y. child b = Inr y \<Longrightarrow> levels y \<le> m \<and> node_ok y"
  shows "levels n \<le> Suc m \<and> node_ok n"
  using assms(1)
proof (cases rule: build_node_cases)
  case (many op ls ys)
  have "\<forall>y\<in>set ys. levels y \<le> m \<and> node_ok y"
    using many(4) by (rule collect_all) (rule child)
  moreover from this have "foldr max (map levels ys) 0 \<le> m"
    by (intro foldr_max_bound) simp
  ultimately show ?thesis
    using many(1-3) collect_length[OF many(4)] by (auto simp: list_all_iff)
next
  case (two l r y z op aop)
  show ?thesis using two(1) child[OF two(2)] child[OF two(3)] by (elim disjE) simp_all
next
  case (one l y)
  show ?thesis using one(1) child[OF one(2)] by (elim disjE) simp_all
qed simp_all

lemma decode_left_ok: "decode_left read_node max_depth k encoded = Inr n \<Longrightarrow> levels n \<le> k \<and> node_ok n"
proof (induction k arbitrary: encoded n)
  case (Suc k)
  then obtain x where "build_node (decode_left read_node max_depth k) x = Inr n"
    by (auto simp: and_then_Inr_conv)
  then show ?case by (rule build_node_ok) (rule Suc.IH)
qed simp

lemma check_fields_ok:
  "check_fields fs rows = Inr () \<longleftrightarrow>
   (\<forall>f\<in>set fs. f_value_type f = None \<longrightarrow> f_name f \<notin> set BUILT_IN \<longrightarrow> length (kinds_of (f_name f) rows) \<le> 1)"
  by (induction fs) (auto simp: Let_def)

lemma kinds_of_member:
  assumes "row \<in> set rows" and "bt_get (properties row) n = Some (v, origin)"
  shows "type_name v \<in> set (kinds_of n rows)"
  using assms by (auto simp: kinds_of_def intro!: bexI[of _ row])

lemma one_kind: "length xs \<le> Suc 0 \<Longrightarrow> x \<in> set xs \<Longrightarrow> y \<in> set xs \<Longrightarrow> x = y"
  by (cases xs) auto


definition one_type :: "node \<Rightarrow> event_row list \<Rightarrow> bool" where
  "one_type n rows \<longleftrightarrow>
     (\<forall>f\<in>set (collect_fields n). f_value_type f = None \<longrightarrow> f_name f \<notin> set BUILT_IN \<longrightarrow>
        (\<forall>a\<in>set rows. \<forall>b\<in>set rows. \<forall>v u p q.
           bt_get (properties a) (f_name f) = Some (v, p) \<longrightarrow> bt_get (properties b) (f_name f) = Some (u, q) \<longrightarrow>
           type_name v = type_name u))"

lemma check_types_ok: "check_types n rows = Inr () \<Longrightarrow> one_type n rows"
  unfolding one_type_def check_types_def check_fields_ok by (metis One_nat_def kinds_of_member one_kind)

lemma endless_left:
  assumes "\<And>e. \<exists>x negated operand. read_node e = Some x \<and> x_expression x = KNullTest \<and> x_null x = Some (negated, operand)"
  shows "decode_left read_node max_depth k encoded
    = Inl (set_retryable (new_error BudgetExceeded (NestsTooDeepExpr max_depth)) False)"
proof (induction k arbitrary: encoded)
  case (Suc k)
  obtain x negated operand where "read_node encoded = Some x" "x_expression x = KNullTest" "x_null x = Some (negated, operand)"
    using assms by blast
  then show ?case using Suc by (simp add: build_node_def)
qed simp


definition toy_reader :: "bytes \<Rightarrow> expression_node option" where
  "toy_reader e =
     Some \<lparr>x_expression = (if e = [] then KField else KNullTest), x_literal = None,
       x_field = Some \<lparr>f_name = lit ''plan'', f_value_type = None, f_origin = None\<rparr>, x_compare = None, x_set = None, x_text = None,
       x_null = Some (True, tl e), x_logical = None, x_arith = None, x_time = None, x_convert = None\<rparr>"

definition toy_loop :: "bytes \<Rightarrow> expression_node option" where
  "toy_loop e = map_option (\<lambda>x. x\<lparr>x_null := Some (True, [7])\<rparr>) (toy_reader [7])"


end
