(* ===== verification/Schema.thy ===== *)
theory Schema
  imports Row Page
begin

text \<open>
  The columns of a segment, \<^verbatim>\<open>tallyowl-store/src/segment/schema.rs\<close>: rows become named columns
  when a segment is written (\<open>to_columns\<close>) and columns become rows when it is read (\<open>to_rows\<close>).

  A property key has a column of type names, a column of origins and one column of values
  for each way a type is stored; a name is the key between a prefix and a suffix of two
  characters. Reading a value of raw bytes parses hexadecimal text, which can panic on
  text that is not ASCII, so \<open>to_rows\<close> has a panic as its error.

  The round trip holds for the columns as written and for the shapes their pages read back
  as (\<open>shape_ok\<close>): a page does not tell integers from timestamps.
\<close>

section \<open>Names\<close>

definition EVENT_ID :: bytes where "EVENT_ID = lit ''event_id''"
definition BATCH_ID :: bytes where "BATCH_ID = lit ''batch_id''"
definition SOURCE_ID :: bytes where "SOURCE_ID = lit ''source_id''"
definition KIND :: bytes where "KIND = lit ''kind''"
definition NAME :: bytes where "NAME = lit ''name''"
definition OCCURRED_AT :: bytes where "OCCURRED_AT = lit ''occurred_at''"
definition RECEIVED_AT :: bytes where "RECEIVED_AT = lit ''received_at''"
definition COMMITTED_AT :: bytes where "COMMITTED_AT = lit ''committed_at''"
definition SESSION_ID :: bytes where "SESSION_ID = lit ''session_id''"
definition REQUEST_ID :: bytes where "REQUEST_ID = lit ''request_id''"
definition TRACE_ID :: bytes where "TRACE_ID = lit ''trace_id''"
definition SERVICE_NAME :: bytes where "SERVICE_NAME = lit ''service_name''"
definition RELEASE :: bytes where "RELEASE = lit ''release''"
definition PROPERTY_PREFIX :: bytes where "PROPERTY_PREFIX = lit ''p:''"
definition TYPE_SUFFIX :: bytes where "TYPE_SUFFIX = lit '':t''"
definition ORIGIN_SUFFIX :: bytes where "ORIGIN_SUFFIX = lit '':o''"

definition value_suffix :: "bytes \<Rightarrow> bytes" where
  "value_suffix t =
     (if t = lit ''boolean'' then lit '':b''
      else if t = lit ''integer'' then lit '':i''
      else if t = lit ''unsigned'' then lit '':u''
      else if t = lit ''float'' then lit '':f''
      else lit '':s'')"

definition property_column :: "bytes \<Rightarrow> bytes \<Rightarrow> bytes" where
  "property_column key suffix = PROPERTY_PREFIX @ key @ suffix"

definition without_prefix :: "bytes \<Rightarrow> bytes \<Rightarrow> bytes option" where
  "without_prefix p t = (if take (length p) t = p then Some (drop (length p) t) else None)"

definition without_suffix :: "bytes \<Rightarrow> bytes \<Rightarrow> bytes option" where
  "without_suffix s t = (if length s \<le> length t \<and> drop (length t - length s) t = s then Some (take (length t - length s) t) else None)"

section \<open>Rows to columns\<close>

record columns =
  columns_map :: "(bytes, column) btree"
  columns_rows :: nat

definition value_column :: "(f64 \<Rightarrow> bytes) \<Rightarrow> bytes \<Rightarrow> property_value option list \<Rightarrow> column" where
  "value_column show_f64 suffix vs =
     (if suffix = lit '':b'' then Booleans (map (\<lambda>v. v = Some (PBoolean True)) vs)
      else if suffix = lit '':i'' then Integers (map (\<lambda>v. case v of Some (PInteger n) \<Rightarrow> n | _ \<Rightarrow> 0) vs)
      else if suffix = lit '':u'' then column.Unsigned (map (\<lambda>v. case v of Some (PUnsigned n) \<Rightarrow> n | _ \<Rightarrow> 0) vs)
      else if suffix = lit '':f'' then Floats (map (\<lambda>v. case v of Some (PFloat n) \<Rightarrow> n | _ \<Rightarrow> 0) vs)
      else column.Text (map (map_option (to_display show_f64)) vs))"

definition note_type :: "(bytes, bytes list) btree \<Rightarrow> bytes \<times> property_value \<times> bytes \<Rightarrow> (bytes, bytes list) btree" where
  "note_type m = (\<lambda>(key, v, _).
     bt_insert key (insort_insert (type_name v) (case bt_get m key of Some ts \<Rightarrow> ts | None \<Rightarrow> [])) m)"

definition property_keys :: "event_row list \<Rightarrow> (bytes, bytes list) btree" where
  "property_keys rows = foldl (\<lambda>m row. foldl note_type m (properties row)) [] rows"

definition property_type_at :: "bytes \<Rightarrow> event_row \<Rightarrow> bytes option" where
  "property_type_at key row = map_option (\<lambda>(v, _). type_name v) (bt_get (properties row) key)"

definition origin_at :: "bytes \<Rightarrow> event_row \<Rightarrow> bytes option" where
  "origin_at key row = map_option snd (bt_get (properties row) key)"

definition stored_at :: "bytes \<Rightarrow> bytes \<Rightarrow> event_row \<Rightarrow> property_value option" where
  "stored_at key suffix row =
     (case bt_get (properties row) key of
        Some (v, _) \<Rightarrow> if value_suffix (type_name v) = suffix then Some v else None
      | None \<Rightarrow> None)"

definition value_columns :: "bytes \<Rightarrow> bytes list \<Rightarrow> event_row list \<Rightarrow> (bytes, property_value option list) btree" where
  "value_columns key types rows =
     foldl (\<lambda>m t. bt_insert (value_suffix t) (map (stored_at key (value_suffix t)) rows) m) [] types"

definition add_property_columns ::
  "(f64 \<Rightarrow> bytes) \<Rightarrow> event_row list \<Rightarrow> (bytes, column) btree \<Rightarrow> bytes \<times> bytes list \<Rightarrow> (bytes, column) btree" where
  "add_property_columns show_f64 rows m = (\<lambda>(key, types).
     foldl (\<lambda>m (suffix, vs). bt_insert (property_column key suffix) (value_column show_f64 suffix vs) m)
       (bt_insert (property_column key ORIGIN_SUFFIX) (column.Text (map (origin_at key) rows))
         (bt_insert (property_column key TYPE_SUFFIX) (column.Text (map (property_type_at key) rows)) m))
       (value_columns key types rows))"

definition envelope_columns :: "event_row list \<Rightarrow> (bytes, column) btree" where
  "envelope_columns rows =
     bt_insert TRACE_ID (Identifiers (map (\<lambda>r. case trace_id r of Some t \<Rightarrow> t | None \<Rightarrow> replicate 16 0) rows))
    (bt_insert RELEASE (column.Text (map release rows))
    (bt_insert SERVICE_NAME (column.Text (map service_name rows))
    (bt_insert REQUEST_ID (column.Text (map request_id rows))
    (bt_insert SESSION_ID (column.Text (map session_id rows))
    (bt_insert COMMITTED_AT (Timestamps (map committed_at rows))
    (bt_insert RECEIVED_AT (Timestamps (map received_at rows))
    (bt_insert OCCURRED_AT (Timestamps (map occurred_at rows))
    (bt_insert NAME (column.Text (map (\<lambda>r. Some (ev_name r)) rows))
    (bt_insert KIND (column.Text (map (\<lambda>r. Some (ev_kind r)) rows))
    (bt_insert SOURCE_ID (Identifiers (map source_id rows))
    (bt_insert BATCH_ID (Identifiers (map batch_id rows))
    (bt_insert EVENT_ID (Identifiers (map event_id rows)) []))))))))))))"

definition to_columns :: "(f64 \<Rightarrow> bytes) \<Rightarrow> event_row list \<Rightarrow> columns" where
  "to_columns show_f64 rows =
     \<lparr>columns_map = foldl (add_property_columns show_f64 rows) (envelope_columns rows) (property_keys rows),
      columns_rows = length rows\<rparr>"

section \<open>Columns to rows\<close>

definition nth_opt :: "'a list \<Rightarrow> nat \<Rightarrow> 'a option" where
  "nth_opt xs i = (if i < length xs then Some (xs ! i) else None)"

definition identifiers_of :: "(bytes, column) btree \<Rightarrow> bytes \<Rightarrow> bytes list option" where
  "identifiers_of m n = (case bt_get m n of Some (Identifiers v) \<Rightarrow> Some v | _ \<Rightarrow> None)"

definition text_of :: "(bytes, column) btree \<Rightarrow> bytes \<Rightarrow> bytes option list option" where
  "text_of m n = (case bt_get m n of Some (column.Text v) \<Rightarrow> Some v | _ \<Rightarrow> None)"

definition times_of :: "(bytes, column) btree \<Rightarrow> bytes \<Rightarrow> i64 list option" where
  "times_of m n = (case bt_get m n of Some (Timestamps v) \<Rightarrow> Some v | _ \<Rightarrow> None)"

definition or_default :: "'a \<Rightarrow> 'a option \<Rightarrow> 'a" where
  "or_default d x = (case x of Some v \<Rightarrow> v | None \<Rightarrow> d)"

definition time_at :: "(bytes, column) btree \<Rightarrow> nat \<Rightarrow> bytes \<Rightarrow> i64" where
  "time_at m i n = or_default 0 (Option.bind (times_of m n) (\<lambda>v. nth_opt v i))"

definition id_at :: "(bytes, column) btree \<Rightarrow> nat \<Rightarrow> bytes \<Rightarrow> bytes" where
  "id_at m i n = or_default (replicate 16 0) (Option.bind (identifiers_of m n) (\<lambda>v. nth_opt v i))"

definition word_at :: "(bytes, column) btree \<Rightarrow> nat \<Rightarrow> bytes \<Rightarrow> bytes option" where
  "word_at m i n = Option.bind (Option.bind (text_of m n) (\<lambda>v. nth_opt v i)) id"

definition envelope_row :: "(bytes, column) btree \<Rightarrow> bytes \<Rightarrow> bytes \<Rightarrow> nat \<Rightarrow> event_row" where
  "envelope_row m workspace project i =
     (row_new (id_at m i EVENT_ID) (or_default [] (word_at m i KIND)) (or_default [] (word_at m i NAME)) (time_at m i OCCURRED_AT))
       \<lparr>batch_id := id_at m i BATCH_ID, source_id := id_at m i SOURCE_ID, workspace_id := workspace, ev_project_id := project,
        received_at := time_at m i RECEIVED_AT, committed_at := time_at m i COMMITTED_AT,
        session_id := word_at m i SESSION_ID, request_id := word_at m i REQUEST_ID,
        service_name := word_at m i SERVICE_NAME, release := word_at m i RELEASE,
        trace_id := (let trace = id_at m i TRACE_ID in if trace \<noteq> replicate 16 0 then Some trace else None)\<rparr>"

definition read_value :: "bytes \<Rightarrow> column \<Rightarrow> nat \<Rightarrow> panic + property_value option" where
  "read_value t c i =
     (if t = lit ''null'' then Inr (Some PNull)
      else case c of
        Booleans v \<Rightarrow> Inr (if t = lit ''boolean'' then map_option PBoolean (nth_opt v i) else None)
      | Timestamps v \<Rightarrow> Inr (if t = lit ''integer'' then map_option PInteger (nth_opt v i) else None)
      | Integers v \<Rightarrow> Inr (if t = lit ''integer'' then map_option PInteger (nth_opt v i) else None)
      | column.Unsigned v \<Rightarrow> Inr (if t = lit ''unsigned'' then map_option PUnsigned (nth_opt v i) else None)
      | Floats v \<Rightarrow> Inr (if t = lit ''float'' then map_option PFloat (nth_opt v i) else None)
      | column.Text v \<Rightarrow>
          (case Option.bind (nth_opt v i) id of
             None \<Rightarrow> Inr None
           | Some s \<Rightarrow>
               if t = lit ''decimal'' then Inr (Some (PDecimal s))
               else if t = lit ''bytes'' then and_then (from_hex s) (\<lambda>r. Inr (map_option PBytes r))
               else if t = lit ''text'' then Inr (Some (PText s))
               else Inr None)
      | _ \<Rightarrow> Inr None)"

definition value_at :: "(bytes, column) btree \<Rightarrow> bytes \<Rightarrow> bytes \<Rightarrow> nat \<Rightarrow> panic + property_value option" where
  "value_at m key t i =
     (case bt_get m (property_column key (value_suffix t)) of None \<Rightarrow> Inr None | Some c \<Rightarrow> read_value t c i)"

definition put_property :: "bytes \<Rightarrow> property_value \<times> bytes \<Rightarrow> event_row \<Rightarrow> event_row" where
  "put_property key x row = row\<lparr>properties := bt_insert key x (properties row)\<rparr>"

fun place_values ::
  "(bytes, column) btree \<Rightarrow> bytes \<Rightarrow> bytes option list option \<Rightarrow> nat \<Rightarrow> bytes option list \<Rightarrow> event_row list \<Rightarrow> panic + event_row list" where
  "place_values m key origins i [] out = Inr out"
| "place_values m key origins i (None # ts) out = place_values m key origins (Suc i) ts out"
| "place_values m key origins i (Some t # ts) out =
     and_then (value_at m key t i) (\<lambda>v. place_values m key origins (Suc i) ts
       (case v of
          None \<Rightarrow> out
        | Some v \<Rightarrow>
            let origin = or_default (lit ''client'') (Option.bind (Option.bind origins (\<lambda>o'. nth_opt o' i)) id)
            in if i < length out then out[i := put_property key (v, origin) (out ! i)] else out))"

definition place_column :: "(bytes, column) btree \<Rightarrow> bytes \<times> column \<Rightarrow> event_row list \<Rightarrow> panic + event_row list" where
  "place_column m = (\<lambda>(n, c) out.
     case Option.bind (without_prefix PROPERTY_PREFIX n) (without_suffix TYPE_SUFFIX) of
       None \<Rightarrow> Inr out
     | Some key \<Rightarrow>
         (case c of
            column.Text types \<Rightarrow> place_values m key (text_of m (property_column key ORIGIN_SUFFIX)) 0 types out
          | _ \<Rightarrow> Inr out))"

fun place_columns :: "(bytes, column) btree \<Rightarrow> (bytes \<times> column) list \<Rightarrow> event_row list \<Rightarrow> panic + event_row list" where
  "place_columns m [] out = Inr out"
| "place_columns m (nc # ncs) out = and_then (place_column m nc out) (place_columns m ncs)"

definition to_rows :: "(bytes, column) btree \<Rightarrow> nat \<Rightarrow> bytes \<Rightarrow> bytes \<Rightarrow> panic + event_row list" where
  "to_rows m rows workspace project = place_columns m m (map (envelope_row m workspace project) [0..<rows])"

section \<open>Names are unambiguous\<close>

lemma suffix_lengths [simp]:
  "length TYPE_SUFFIX = 2" "length ORIGIN_SUFFIX = 2" "length (value_suffix t) = 2"
  by (simp_all add: TYPE_SUFFIX_def ORIGIN_SUFFIX_def value_suffix_def lit_def)

lemma suffix_distinct [simp]:
  "value_suffix t \<noteq> TYPE_SUFFIX" "value_suffix t \<noteq> ORIGIN_SUFFIX" "ORIGIN_SUFFIX \<noteq> TYPE_SUFFIX"
  by (simp_all add: TYPE_SUFFIX_def ORIGIN_SUFFIX_def value_suffix_def lit_def)

lemma property_column_inj:
  "length s = 2 \<Longrightarrow> length s' = 2 \<Longrightarrow> property_column k s = property_column k' s' \<longleftrightarrow> k = k' \<and> s = s'"
  by (simp add: property_column_def)

lemma strip_type_column:
  "Option.bind (without_prefix PROPERTY_PREFIX n) (without_suffix TYPE_SUFFIX) = Some key \<longleftrightarrow> n = property_column key TYPE_SUFFIX"
proof
  assume "Option.bind (without_prefix PROPERTY_PREFIX n) (without_suffix TYPE_SUFFIX) = Some key"
  then obtain r where r: "without_prefix PROPERTY_PREFIX n = Some r" "without_suffix TYPE_SUFFIX r = Some key"
    by (auto simp: bind_eq_Some_conv)
  then have "n = PROPERTY_PREFIX @ r" "r = key @ TYPE_SUFFIX"
    unfolding without_prefix_def without_suffix_def by (metis append_take_drop_id option.distinct(1) option.inject)+
  then show "n = property_column key TYPE_SUFFIX" by (simp add: property_column_def)
qed (simp add: property_column_def without_prefix_def without_suffix_def)

definition envelope_name :: "bytes \<Rightarrow> bool" where
  "envelope_name n \<longleftrightarrow> without_prefix PROPERTY_PREFIX n = None"

lemma envelope_names [simp]:
  "envelope_name EVENT_ID" "envelope_name BATCH_ID" "envelope_name SOURCE_ID" "envelope_name KIND" "envelope_name NAME"
  "envelope_name OCCURRED_AT" "envelope_name RECEIVED_AT" "envelope_name COMMITTED_AT" "envelope_name SESSION_ID"
  "envelope_name REQUEST_ID" "envelope_name TRACE_ID" "envelope_name SERVICE_NAME" "envelope_name RELEASE"
  by (simp_all add: envelope_name_def without_prefix_def PROPERTY_PREFIX_def EVENT_ID_def BATCH_ID_def SOURCE_ID_def KIND_def NAME_def
      OCCURRED_AT_def RECEIVED_AT_def COMMITTED_AT_def SESSION_ID_def REQUEST_ID_def TRACE_ID_def SERVICE_NAME_def RELEASE_def lit_def)

lemma property_not_envelope [simp]: "\<not> envelope_name (property_column key s)"
  by (simp add: envelope_name_def without_prefix_def property_column_def)

section \<open>What the columns hold\<close>

definition expected_column :: "(f64 \<Rightarrow> bytes) \<Rightarrow> event_row list \<Rightarrow> bytes \<Rightarrow> bytes \<Rightarrow> column" where
  "expected_column show_f64 rows key suffix =
     (if suffix = TYPE_SUFFIX then column.Text (map (property_type_at key) rows)
      else if suffix = ORIGIN_SUFFIX then column.Text (map (origin_at key) rows)
      else value_column show_f64 suffix (map (stored_at key suffix) rows))"

text \<open>Every property column is the expected one; the names a step adds and the names it leaves.\<close>

definition columns_ok :: "(f64 \<Rightarrow> bytes) \<Rightarrow> event_row list \<Rightarrow> (bytes, column) btree \<Rightarrow> bool" where
  "columns_ok show_f64 rows m \<longleftrightarrow> bt_ok m \<and>
     (\<forall>key s c. length s = 2 \<longrightarrow> bt_get m (property_column key s) = Some c \<longrightarrow> c = expected_column show_f64 rows key s)"

lemma columns_ok_insert:
  "columns_ok show_f64 rows m \<Longrightarrow> length s = 2 \<Longrightarrow> c = expected_column show_f64 rows key s \<Longrightarrow>
   columns_ok show_f64 rows (bt_insert (property_column key s) c m)"
  by (auto simp: columns_ok_def property_column_inj split: if_splits)

lemma value_columns_set:
  "(s, vs) \<in> set (value_columns key types rows) \<Longrightarrow> s \<in> value_suffix ` set types \<and> vs = map (stored_at key s) rows"
  "fst ` set (value_columns key types rows) = value_suffix ` set types"
proof -
  define step where "step = (\<lambda>m t. bt_insert (value_suffix t) (map (stored_at key (value_suffix t)) rows) m)"
  have a: "(s, vs) \<in> set (foldl step m types) \<Longrightarrow>
      (s, vs) \<in> set m \<or> s \<in> value_suffix ` set types \<and> vs = map (stored_at key s) rows" for m
  proof (induction types arbitrary: m)
    case (Cons t ts)
    from Cons.IH[of "step m t"] Cons.prems show ?case
      using set_bt_insert[of "value_suffix t" "map (stored_at key (value_suffix t)) rows" m] by (auto simp: step_def)
  qed simp
  have b: "fst ` set (foldl step m types) = fst ` set m \<union> value_suffix ` set types" for m
    by (induction types arbitrary: m) (auto simp: step_def fst_set_bt_insert)
  show "(s, vs) \<in> set (value_columns key types rows) \<Longrightarrow> s \<in> value_suffix ` set types \<and> vs = map (stored_at key s) rows"
    using a[of "[]"] by (simp add: value_columns_def step_def)
  show "fst ` set (value_columns key types rows) = value_suffix ` set types"
    using b[of "[]"] by (simp add: value_columns_def step_def)
qed

lemma insert_value_columns:
  assumes "columns_ok show_f64 rows m"
    and "\<And>s vs. (s, vs) \<in> set xs \<Longrightarrow> s \<in> range value_suffix \<and> vs = map (stored_at key s) rows"
  defines "out \<equiv> foldl (\<lambda>m (suffix, vs). bt_insert (property_column key suffix) (value_column show_f64 suffix vs) m) m xs"
  shows "columns_ok show_f64 rows out" "dom (bt_get out) = dom (bt_get m) \<union> property_column key ` fst ` set xs"
    "\<And>n. envelope_name n \<Longrightarrow> bt_get out n = bt_get m n"
proof -
  have "columns_ok show_f64 rows out \<and> dom (bt_get out) = dom (bt_get m) \<union> property_column key ` fst ` set xs
      \<and> (\<forall>n. envelope_name n \<longrightarrow> bt_get out n = bt_get m n)"
    using assms(1,2) unfolding out_def
  proof (induction xs arbitrary: m)
    case (Cons x xs)
    obtain s vs where x: "x = (s, vs)" by fastforce
    then have s: "s \<in> range value_suffix" "vs = map (stored_at key s) rows" using Cons.prems(2)[of s vs] by auto
    have "columns_ok show_f64 rows (bt_insert (property_column key s) (value_column show_f64 s vs) m)"
      using s Cons.prems(1) by (intro columns_ok_insert) (auto simp: expected_column_def)
    note i = Cons.IH[OF this Cons.prems(2)[OF list.set_intros(2)]]
    show ?case using i by (auto simp: x)
  qed simp
  then show "columns_ok show_f64 rows out" "dom (bt_get out) = dom (bt_get m) \<union> property_column key ` fst ` set xs"
    "\<And>n. envelope_name n \<Longrightarrow> bt_get out n = bt_get m n" by blast+
qed

lemma add_property_columns_ok:
  fixes key types
  assumes "columns_ok show_f64 rows m"
  defines "out \<equiv> add_property_columns show_f64 rows m (key, types)"
  shows "columns_ok show_f64 rows out"
    "dom (bt_get out) = dom (bt_get m) \<union> property_column key ` ({TYPE_SUFFIX, ORIGIN_SUFFIX} \<union> value_suffix ` set types)"
    "\<And>n. envelope_name n \<Longrightarrow> bt_get out n = bt_get m n"
proof -
  let ?m = "bt_insert (property_column key ORIGIN_SUFFIX) (column.Text (map (origin_at key) rows))
      (bt_insert (property_column key TYPE_SUFFIX) (column.Text (map (property_type_at key) rows)) m)"
  have m: "columns_ok show_f64 rows ?m"
    by (intro columns_ok_insert assms(1)) (auto simp: expected_column_def)
  have v: "s \<in> range value_suffix \<and> vs = map (stored_at key s) rows" if "(s, vs) \<in> set (value_columns key types rows)" for s vs
    using value_columns_set(1)[OF that] by blast
  note i = insert_value_columns[OF m v]
  show "columns_ok show_f64 rows out" using i(1) by (simp add: out_def add_property_columns_def)
  show "dom (bt_get out) = dom (bt_get m) \<union> property_column key ` ({TYPE_SUFFIX, ORIGIN_SUFFIX} \<union> value_suffix ` set types)"
    using i(2) by (auto simp: out_def add_property_columns_def value_columns_set(2))
  show "\<And>n. envelope_name n \<Longrightarrow> bt_get out n = bt_get m n"
    using i(3) by (auto simp: out_def add_property_columns_def)
qed

lemma add_all_property_columns:
  fixes keys
  assumes "columns_ok show_f64 rows m"
  defines "out \<equiv> foldl (add_property_columns show_f64 rows) m keys"
  shows "columns_ok show_f64 rows out"
    "dom (bt_get out) = dom (bt_get m) \<union>
       (\<Union>(key, types)\<in>set keys. property_column key ` ({TYPE_SUFFIX, ORIGIN_SUFFIX} \<union> value_suffix ` set types))"
    "\<And>n. envelope_name n \<Longrightarrow> bt_get out n = bt_get m n"
proof -
  have "columns_ok show_f64 rows out \<and> dom (bt_get out) = dom (bt_get m) \<union>
       (\<Union>(key, types)\<in>set keys. property_column key ` ({TYPE_SUFFIX, ORIGIN_SUFFIX} \<union> value_suffix ` set types))
    \<and> (\<forall>n. envelope_name n \<longrightarrow> bt_get out n = bt_get m n)"
    using assms(1) unfolding out_def
  proof (induction keys arbitrary: m)
    case (Cons x keys)
    obtain key types where x: "x = (key, types)" by fastforce
    note a = add_property_columns_ok[OF Cons.prems, where key = key and types = types]
    from Cons.IH[OF a(1)] show ?case using a(2,3) by (simp add: x Un_assoc)
  qed simp
  then show "columns_ok show_f64 rows out"
    "dom (bt_get out) = dom (bt_get m) \<union>
       (\<Union>(key, types)\<in>set keys. property_column key ` ({TYPE_SUFFIX, ORIGIN_SUFFIX} \<union> value_suffix ` set types))"
    "\<And>n. envelope_name n \<Longrightarrow> bt_get out n = bt_get m n" by blast+
qed


definition has_type :: "(bytes, bytes list) btree \<Rightarrow> bytes \<Rightarrow> bytes \<Rightarrow> bool" where
  "has_type m key t \<longleftrightarrow> (\<exists>ts. bt_get m key = Some ts \<and> t \<in> set ts)"

lemma has_type_note: "has_type (note_type m (k, v, p)) key t \<longleftrightarrow> has_type m key t \<or> key = k \<and> t = type_name v"
  by (cases "bt_get m k") (auto simp: has_type_def note_type_def set_insort_insert)

lemma has_type_notes:
  "has_type (foldl note_type m ps) key t \<longleftrightarrow> has_type m key t \<or> (\<exists>v p. (key, v, p) \<in> set ps \<and> t = type_name v)"
proof (induction ps arbitrary: m)
  case (Cons x ps)
  obtain k v p where x: "x = (k, v, p)" by (cases x) auto
  show ?case by (simp add: x Cons has_type_note) blast
qed simp

lemma has_type_rows:
  "has_type (foldl (\<lambda>m row. foldl note_type m (properties row)) m rows) key t \<longleftrightarrow>
   has_type m key t \<or> (\<exists>row\<in>set rows. \<exists>v p. (key, v, p) \<in> set (properties row) \<and> t = type_name v)"
  by (induction rows arbitrary: m) (auto simp: has_type_notes)

lemma property_keys_complete:
  assumes "row \<in> set rows" and "bt_get (properties row) key = Some (v, p)"
  obtains types where "(key, types) \<in> set (property_keys rows)" and "type_name v \<in> set types"
proof -
  have "has_type (property_keys rows) key (type_name v)"
    using assms map_of_SomeD[OF assms(2)] by (auto simp: property_keys_def has_type_rows)
  then show ?thesis using that map_of_SomeD by (fastforce simp: has_type_def)
qed

section \<open>The columns of a set of rows\<close>

lemma envelope_ne [simp]: "envelope_name n \<Longrightarrow> property_column key s \<noteq> n" "envelope_name n \<Longrightarrow> n \<noteq> property_column key s"
  by auto

lemma envelope_columns_ok: "columns_ok show_f64 rows (envelope_columns rows)"
proof -
  have "bt_get (envelope_columns rows) (property_column key s) = None" for key s
    by (simp add: envelope_columns_def)
  moreover have "bt_ok (envelope_columns rows)"
    unfolding envelope_columns_def by (intro bt_ok_insert bt_ok_Nil)
  ultimately show ?thesis by (simp add: columns_ok_def)
qed

lemmas column_names = EVENT_ID_def BATCH_ID_def SOURCE_ID_def KIND_def NAME_def OCCURRED_AT_def RECEIVED_AT_def
  COMMITTED_AT_def SESSION_ID_def REQUEST_ID_def TRACE_ID_def SERVICE_NAME_def RELEASE_def

lemma envelope_lookups:
  "bt_get (envelope_columns rows) EVENT_ID = Some (Identifiers (map event_id rows))"
  "bt_get (envelope_columns rows) BATCH_ID = Some (Identifiers (map batch_id rows))"
  "bt_get (envelope_columns rows) SOURCE_ID = Some (Identifiers (map source_id rows))"
  "bt_get (envelope_columns rows) KIND = Some (column.Text (map (\<lambda>r. Some (ev_kind r)) rows))"
  "bt_get (envelope_columns rows) NAME = Some (column.Text (map (\<lambda>r. Some (ev_name r)) rows))"
  "bt_get (envelope_columns rows) OCCURRED_AT = Some (Timestamps (map occurred_at rows))"
  "bt_get (envelope_columns rows) RECEIVED_AT = Some (Timestamps (map received_at rows))"
  "bt_get (envelope_columns rows) COMMITTED_AT = Some (Timestamps (map committed_at rows))"
  "bt_get (envelope_columns rows) SESSION_ID = Some (column.Text (map session_id rows))"
  "bt_get (envelope_columns rows) REQUEST_ID = Some (column.Text (map request_id rows))"
  "bt_get (envelope_columns rows) SERVICE_NAME = Some (column.Text (map service_name rows))"
  "bt_get (envelope_columns rows) RELEASE = Some (column.Text (map release rows))"
  "bt_get (envelope_columns rows) TRACE_ID =
     Some (Identifiers (map (\<lambda>r. case trace_id r of Some t \<Rightarrow> t | None \<Rightarrow> replicate 16 0) rows))"
  by (simp_all add: envelope_columns_def column_names lit_def)

definition table :: "(f64 \<Rightarrow> bytes) \<Rightarrow> event_row list \<Rightarrow> (bytes, column) btree" where
  "table show_f64 rows = columns_map (to_columns show_f64 rows)"

lemma table_ok: "columns_ok show_f64 rows (table show_f64 rows)"
  using add_all_property_columns(1)[OF envelope_columns_ok] by (simp add: table_def to_columns_def)

lemma table_envelope: "envelope_name n \<Longrightarrow> bt_get (table show_f64 rows) n = bt_get (envelope_columns rows) n"
  using add_all_property_columns(3)[OF envelope_columns_ok] by (simp add: table_def to_columns_def)

lemma table_property:
  assumes "row \<in> set rows" and "bt_get (properties row) key = Some (v, p)"
    and "s \<in> {TYPE_SUFFIX, ORIGIN_SUFFIX, value_suffix (type_name v)}"
  shows "bt_get (table show_f64 rows) (property_column key s) = Some (expected_column show_f64 rows key s)"
proof -
  obtain types where "(key, types) \<in> set (property_keys rows)" "type_name v \<in> set types"
    using property_keys_complete[OF assms(1,2)] .
  then have "property_column key s \<in> dom (bt_get (table show_f64 rows))"
    using assms(3) unfolding table_def to_columns_def columns.simps add_all_property_columns(2)[OF envelope_columns_ok] by blast
  moreover have "length s = 2" using assms(3) by auto
  ultimately show ?thesis
    using table_ok[of show_f64 rows] unfolding columns_ok_def by blast
qed

lemma table_type_column:
  assumes "bt_get (table show_f64 rows) (property_column key TYPE_SUFFIX) = Some c"
  shows "c = column.Text (map (property_type_at key) rows)"
proof -
  have "c = expected_column show_f64 rows key TYPE_SUFFIX"
    using table_ok[of show_f64 rows] assms suffix_lengths(1) unfolding columns_ok_def by blast
  then show ?thesis by (simp add: expected_column_def)
qed

section \<open>Reading the columns back\<close>

definition same_column :: "column \<Rightarrow> column \<Rightarrow> bool" where
  "same_column c d \<longleftrightarrow> d = c \<or> (\<exists>vs. c = Integers vs \<and> d = Timestamps vs)"

definition same_table :: "(bytes, column) btree \<Rightarrow> (bytes, column) btree \<Rightarrow> bool" where
  "same_table m m' \<longleftrightarrow> list_all2 (\<lambda>(n, c) (n', d). n' = n \<and> same_column c d) m m'"

lemma same_table_get: "same_table m m' \<Longrightarrow> rel_option same_column (bt_get m n) (bt_get m' n)"
  unfolding same_table_def by (induction rule: list_all2_induct) auto

lemma same_table_refl: "same_table m m"
  by (auto simp: same_table_def same_column_def list_all2_same)

lemma same_table_Some:
  "same_table m m' \<Longrightarrow> bt_get m n = Some c \<Longrightarrow> \<exists>d. bt_get m' n = Some d \<and> same_column c d"
  using same_table_get[of m m' n] by (auto simp: option_rel_Some1)

lemma same_table_fixed:
  "same_table m m' \<Longrightarrow> bt_get m n = Some c \<Longrightarrow> (\<And>vs. c \<noteq> Integers vs) \<Longrightarrow> bt_get m' n = Some c"
  using same_table_Some[of m m' n c] by (auto simp: same_column_def)

lemma stored_at_same [simp]:
  "bt_get (properties row) key = Some (v, p) \<Longrightarrow> stored_at key (value_suffix (type_name v)) row = Some v"
  by (simp add: stored_at_def)

lemma read_value_stored:
  assumes "i < length rows" and "bt_get (properties (rows ! i)) key = Some (v, p)"
    and "same_column (value_column show_f64 (value_suffix (type_name v)) (map (stored_at key (value_suffix (type_name v))) rows)) c"
  shows "read_value (type_name v) c i = Inr (Some v)"
  using assms stored_at_same[OF assms(2)]
  by (cases v) (auto simp: value_suffix_def value_column_def same_column_def read_value_def nth_opt_def lit_def from_hex_hex)

definition restore :: "bytes \<Rightarrow> event_row \<Rightarrow> event_row \<Rightarrow> event_row" where
  "restore key row out =
     (case bt_get (properties row) key of None \<Rightarrow> out | Some x \<Rightarrow> put_property key x out)"

lemma place_values_restores:
  assumes "\<And>j v p. j < length rs \<Longrightarrow> bt_get (properties (rs ! j)) key = Some (v, p) \<Longrightarrow>
      value_at m key (type_name v) (i + j) = Inr (Some v)
      \<and> Option.bind (Option.bind origins (\<lambda>o'. nth_opt o' (i + j))) id = Some p"
    and "length before = i" and "length outs = length rs"
  shows "place_values m key origins i (map (property_type_at key) rs) (before @ outs) = Inr (before @ map2 (restore key) rs outs)"
  using assms
proof (induction rs arbitrary: i before outs)
  case (Cons r rs)
  obtain z outs' where o: "outs = z # outs'" using Cons.prems(3) by (cases outs) auto
  have "place_values m key origins (Suc i) (map (property_type_at key) rs) ((before @ [restore key r z]) @ outs')
      = Inr ((before @ [restore key r z]) @ map2 (restore key) rs outs')"
  proof (rule Cons.IH)
    show "value_at m key (type_name v) (Suc i + j) = Inr (Some v)
        \<and> Option.bind (Option.bind origins (\<lambda>o'. nth_opt o' (Suc i + j))) id = Some p"
      if "j < length rs" "bt_get (properties (rs ! j)) key = Some (v, p)" for j v p
      using Cons.prems(1)[of "Suc j" v p] that by (simp add: id_def)
  qed (use Cons.prems o in auto)
  note rest = this
  show ?case
  proof (cases "bt_get (properties r) key")
    case None
    then have "property_type_at key r = None" "restore key r z = z" by (simp_all add: property_type_at_def restore_def)
    then show ?thesis using rest by (simp add: o)
  next
    case (Some x)
    obtain v p where x: "x = (v, p)" by fastforce
    have "property_type_at key r = Some (type_name v)" "restore key r z = put_property key (v, p) z"
      using Some by (simp_all add: x property_type_at_def restore_def)
    moreover have "value_at m key (type_name v) i = Inr (Some v)" "Option.bind (Option.bind origins (\<lambda>o'. nth_opt o' i)) id = Some p"
      using Cons.prems(1)[of 0 v p] Some x by (simp_all add: id_def)
    ultimately show ?thesis
      using rest Cons.prems(2) by (simp add: o or_default_def Let_def nth_append list_update_append)
  qed
qed simp

lemma place_column_restores:
  assumes t: "same_table (table show_f64 rows) m" and "(n, c) \<in> set m" and "length out = length rows"
  shows "place_column m (n, c) out =
    (case Option.bind (without_prefix PROPERTY_PREFIX n) (without_suffix TYPE_SUFFIX) of
       None \<Rightarrow> Inr out | Some key \<Rightarrow> Inr (map2 (restore key) rows out))"
proof (cases "Option.bind (without_prefix PROPERTY_PREFIX n) (without_suffix TYPE_SUFFIX)")
  case (Some key)
  then have n: "n = property_column key TYPE_SUFFIX" by (simp add: strip_type_column)
  have fsts: "map fst (table show_f64 rows) = map fst m"
    using t by (auto simp: same_table_def list_all2_conv_all_nth intro!: nth_equalityI)
  have "distinct (map fst m)"
    using table_ok[of show_f64 rows] bt_ok_distinct fsts unfolding columns_ok_def by metis
  then have "bt_get m n = Some c" using assms(2) by simp
  then obtain d where d: "bt_get (table show_f64 rows) n = Some d" "same_column d c"
    using same_table_get[OF t, of n] by (auto simp: option_rel_Some2)
  then have "d = column.Text (map (property_type_at key) rows)" using table_type_column n by blast
  with d(2) have c: "c = column.Text (map (property_type_at key) rows)" by (auto simp: same_column_def)
  have "place_values m key (text_of m (property_column key ORIGIN_SUFFIX)) 0 (map (property_type_at key) rows) ([] @ out)
      = Inr ([] @ map2 (restore key) rows out)"
  proof (rule place_values_restores)
    fix j v p
    assume j: "j < length rows" and v: "bt_get (properties (rows ! j)) key = Some (v, p)"
    note lookups = table_property[OF nth_mem[OF j] v, of _ show_f64]
    have "bt_get (table show_f64 rows) (property_column key ORIGIN_SUFFIX) = Some (column.Text (map (origin_at key) rows))"
      using lookups[of ORIGIN_SUFFIX] by (simp add: expected_column_def)
    then have "bt_get m (property_column key ORIGIN_SUFFIX) = Some (column.Text (map (origin_at key) rows))"
      using same_table_fixed[OF t] by simp
    then have o: "Option.bind (Option.bind (text_of m (property_column key ORIGIN_SUFFIX)) (\<lambda>o'. nth_opt o' j)) id = Some p"
      using j v by (simp add: text_of_def nth_opt_def origin_at_def)
    have "bt_get (table show_f64 rows) (property_column key (value_suffix (type_name v)))
        = Some (value_column show_f64 (value_suffix (type_name v)) (map (stored_at key (value_suffix (type_name v))) rows))"
      using lookups[of "value_suffix (type_name v)"] by (simp add: expected_column_def)
    from same_table_Some[OF t this] have "value_at m key (type_name v) j = Inr (Some v)"
      using read_value_stored[OF j v] by (auto simp: value_at_def)
    with o show "value_at m key (type_name v) (0 + j) = Inr (Some v)
        \<and> Option.bind (Option.bind (text_of m (property_column key ORIGIN_SUFFIX)) (\<lambda>o'. nth_opt o' (0 + j))) id = Some p"
      by simp
  qed (use assms(3) in auto)
  then show ?thesis using Some by (simp add: place_column_def c)
qed (simp add: place_column_def)

text \<open>What a row comes back as: the segment's own tenant, and no trace for a trace of zeros.\<close>

definition stored_row :: "bytes \<Rightarrow> bytes \<Rightarrow> event_row \<Rightarrow> event_row" where
  "stored_row workspace project row =
     row\<lparr>workspace_id := workspace, ev_project_id := project,
         trace_id := (if trace_id row = Some (replicate 16 0) then None else trace_id row)\<rparr>"

definition partly_restored :: "bytes set \<Rightarrow> bytes \<Rightarrow> bytes \<Rightarrow> event_row \<Rightarrow> event_row \<Rightarrow> bool" where
  "partly_restored keys workspace project row out \<longleftrightarrow>
     out\<lparr>properties := []\<rparr> = (stored_row workspace project row)\<lparr>properties := []\<rparr> \<and> bt_ok (properties out)
     \<and> bt_get (properties out) = bt_get (properties row) |` keys"

lemma partly_restored_step:
  "partly_restored keys workspace project row out \<Longrightarrow> partly_restored (insert key keys) workspace project row (restore key row out)"
  by (cases "bt_get (properties row) key")
    (auto simp: partly_restored_def restore_def put_property_def restrict_map_def fun_eq_iff)

definition type_keys :: "(bytes \<times> column) list \<Rightarrow> bytes set" where
  "type_keys ncs = {key. \<exists>c. (property_column key TYPE_SUFFIX, c) \<in> set ncs}"

lemma type_keys_Cons:
  "type_keys ((n, c) # ncs) =
     (case Option.bind (without_prefix PROPERTY_PREFIX n) (without_suffix TYPE_SUFFIX) of
        None \<Rightarrow> type_keys ncs | Some key \<Rightarrow> insert key (type_keys ncs))"
proof (cases "Option.bind (without_prefix PROPERTY_PREFIX n) (without_suffix TYPE_SUFFIX)")
  case None
  then have "n \<noteq> property_column key TYPE_SUFFIX" for key by (metis option.distinct(1) strip_type_column)
  then show ?thesis by (auto simp: type_keys_def None)
next
  case (Some key)
  then have "n = property_column key TYPE_SUFFIX" by (simp add: strip_type_column)
  then have "type_keys ((n, c) # ncs) = insert key (type_keys ncs)" by (auto simp: type_keys_def property_column_inj)
  then show ?thesis by (simp add: Some)
qed

lemma place_columns_restores:
  assumes "same_table (table show_f64 rows) m" and "set ncs \<subseteq> set m"
    and "list_all2 (partly_restored keys workspace project) rows out"
  shows "\<exists>out'. place_columns m ncs out = Inr out' \<and> list_all2 (partly_restored (keys \<union> type_keys ncs) workspace project) rows out'"
  using assms(2,3)
proof (induction ncs arbitrary: keys out)
  case Nil
  then show ?case by (simp add: type_keys_def)
next
  case (Cons x ncs)
  obtain n c where x: "x = (n, c)" by fastforce
  have len: "length out = length rows" using Cons.prems(2) by (simp add: list_all2_lengthD)
  note p = place_column_restores[OF assms(1) _ len, of n c]
  show ?case
  proof (cases "Option.bind (without_prefix PROPERTY_PREFIX n) (without_suffix TYPE_SUFFIX)")
    case None
    then show ?thesis using Cons.IH[OF _ Cons.prems(2)] Cons.prems(1) p by (auto simp: x type_keys_Cons)
  next
    case (Some key)
    have "list_all2 (partly_restored (insert key keys) workspace project) rows (map2 (restore key) rows out)"
      using Cons.prems(2) by (auto simp: list_all2_conv_all_nth partly_restored_step)
    then show ?thesis using Cons.IH[of "insert key keys"] Cons.prems(1) p Some by (auto simp: x type_keys_Cons)
  qed
qed

lemma envelope_row_restores:
  assumes "same_table (table show_f64 rows) m" and "i < length rows"
  shows "envelope_row m workspace project i = (stored_row workspace project (rows ! i))\<lparr>properties := []\<rparr>"
proof -
  have f: "bt_get m n = Some c" if "bt_get (envelope_columns rows) n = Some c" "envelope_name n" "\<And>vs. c \<noteq> Integers vs" for n c
    using same_table_fixed[OF assms(1), of n c] table_envelope[of n show_f64 rows] that by simp
  note lookups = envelope_lookups[of rows, THEN f, simplified]
  show ?thesis
    using assms(2)
    by (cases "trace_id (rows ! i)")
      (auto simp: envelope_row_def id_at_def word_at_def time_at_def identifiers_of_def text_of_def times_of_def lookups nth_opt_def
        or_default_def row_new_def stored_row_def Let_def)
qed

lemma to_rows_table:
  assumes "same_table (table show_f64 rows) m" and "\<forall>r\<in>set rows. bt_ok (properties r)"
  shows "to_rows m (length rows) workspace project = Inr (map (stored_row workspace project) rows)"
proof -
  have "list_all2 (partly_restored {} workspace project) rows (map (envelope_row m workspace project) [0..<length rows])"
    using envelope_row_restores[OF assms(1)]
    by (auto simp: list_all2_conv_all_nth partly_restored_def)
  from place_columns_restores[OF assms(1) subset_refl this] obtain out where
    out: "to_rows m (length rows) workspace project = Inr out" "list_all2 (partly_restored (type_keys m) workspace project) rows out"
    by (auto simp: to_rows_def)
  have "out ! i = stored_row workspace project (rows ! i)" if i: "i < length rows" for i
  proof -
    have p: "partly_restored (type_keys m) workspace project (rows ! i) (out ! i)"
      using out(2) i by (simp add: list_all2_conv_all_nth)
    have "key \<in> type_keys m" if "bt_get (properties (rows ! i)) key = Some (v, q)" for key v q
      using same_table_Some[OF assms(1) table_property[OF nth_mem[OF i] that, of TYPE_SUFFIX]] map_of_SomeD
      by (fastforce simp: type_keys_def)
    then have "bt_get (properties (rows ! i)) |` type_keys m = bt_get (properties (rows ! i))"
      by (auto simp: restrict_map_def fun_eq_iff) (metis not_None_eq surj_pair)
    then have "properties (out ! i) = properties (rows ! i)"
      using p assms(2) i by (intro bt_ext) (auto simp: partly_restored_def)
    moreover have "(out ! i)\<lparr>properties := []\<rparr>\<lparr>properties := properties (out ! i)\<rparr> = out ! i" by simp
    ultimately show ?thesis using p unfolding partly_restored_def by (simp add: stored_row_def)
  qed
  moreover have "length out = length rows" using out(2) by (simp add: list_all2_lengthD)
  ultimately have "out = map (stored_row workspace project) rows" by (intro nth_equalityI) auto
  then show ?thesis using out(1) by simp
qed


text \<open>Rows survive the columns of a segment. Projecting any rows into columns and reading the
  columns back gives the same rows in the same order, every property with its type, its exact
  value and its origin, whatever types one key holds; only the tenant is the segment's, and a
  trace identifier of zeros is no trace.\<close>

theorem columns_round_trip:
  assumes "\<forall>r\<in>set rows. bt_ok (properties r)"
  shows "to_rows (columns_map (to_columns show_f64 rows)) (columns_rows (to_columns show_f64 rows)) workspace project
    = Inr (map (stored_row workspace project) rows)"
  using to_rows_table[OF same_table_refl assms, of show_f64 workspace project] by (simp add: table_def to_columns_def)

definition mixed_rows :: "event_row list" where
  "mixed_rows =
     [(row_new [1] (lit ''page'') (lit ''view'') 5)\<lparr>trace_id := Some (replicate 16 9),
        properties := [(lit ''a'', (PBytes [1, 255], lit ''client'')), (lit ''b'', (PNull, lit ''driver''))]\<rparr>,
      (row_new [2] (lit ''page'') (lit ''view'') 6)\<lparr>properties := [(lit ''a'', (PInteger 7, lit ''collector''))]\<rparr>]"

theorem columns_round_trip_witness:
  "to_rows (columns_map (to_columns (\<lambda>_. []) mixed_rows)) (columns_rows (to_columns (\<lambda>_. []) mixed_rows)) (replicate 16 1) (replicate 16 2)
    = Inr (map (\<lambda>r. r\<lparr>workspace_id := replicate 16 1, ev_project_id := replicate 16 2\<rparr>) mixed_rows)"
  by (subst columns_round_trip) (simp_all add: mixed_rows_def row_new_def stored_row_def bt_ok_def lit_def)

end
