(* ===== verification/Segment_File.thy ===== *)
theory Segment_File
  imports Schema Index
begin

text \<open>
  One segment file, \<^verbatim>\<open>tallyowl-store/src/segment/file.rs\<close>: writing rows as a file of pages,
  indexes, a header and a footer, opening such a file, and answering from it.

  The hash of a file's contents, \<open>content_address\<close>, is a third-party package and the
  parameter \<open>blake3\<close>; the random draw for a sealed block is the function \<open>draws\<close> of the
  offset the block starts at, so every block of a file has a draw of its own. The estimates of
  how many rows fit a page and a row group are the floating-point computations of the source.
\<close>

section \<open>The parts of a file\<close>

definition MAGIC :: bytes where "MAGIC = lit ''TOWLSEG1''"
definition TRAILER_MAGIC :: bytes where "TRAILER_MAGIC = lit ''TOWLEND1''"
definition FORMAT_MAJOR :: u16 where "FORMAT_MAJOR = 1"
definition FORMAT_MINOR :: u16 where "FORMAT_MINOR = 0"
definition PROLOGUE_BYTES :: nat where "PROLOGUE_BYTES = 64"
definition TRAILER_BYTES :: nat where "TRAILER_BYTES = 32"
definition ROW_GROUP_TARGET_BYTES :: nat where "ROW_GROUP_TARGET_BYTES = 12 * 1024 * 1024"
definition ALGORITHM_AES_256_GCM :: u16 where "ALGORITHM_AES_256_GCM = 1"

record file_header =
  h_segment_id :: bytes
  h_tablet_id :: u64
  h_virtual_shard :: u64
  h_workspace_id :: bytes
  h_project_id :: bytes
  h_kinds :: "bytes list"
  h_retention_class :: bytes
  h_occurred_range :: "i64 \<times> i64"
  h_received_range :: "i64 \<times> i64"
  h_committed_range :: "i64 \<times> i64"
  h_log_range :: "u64 \<times> u64"
  h_row_count :: u64
  h_row_group_count :: u64
  h_uncompressed_bytes :: u64
  h_compressed_bytes :: u64
  h_projector_version :: u64

record page_ref =
  ref_offset :: u64
  ref_rows :: u64

record row_group =
  g_first_row :: u64
  g_rows :: u64
  g_pages :: "(bytes, page_ref list) btree"

record key_reference =
  k_algorithm :: u16
  k_generation :: u32

record footer =
  f_row_groups :: "row_group list"
  f_indexes :: "(bytes, u64 \<times> index_layout) btree"
  f_payload_hash :: bytes
  f_key_reference :: "key_reference option"

record segment =
  sg_header :: file_header
  sg_footer :: footer
  sg_bytes :: bytes
  sg_content_address :: bytes
  sg_cipher :: "cipher option"

record segment_writer =
  w_segment_id :: bytes
  w_tablet_id :: u64
  w_virtual_shard :: u64
  w_workspace_id :: bytes
  w_project_id :: bytes
  w_retention_class :: bytes
  w_log_range :: "u64 \<times> u64"
  w_projector_version :: u64
  w_row_group_target_bytes :: nat
  w_page_target_bytes :: nat
  w_cipher :: "cipher option"

definition writer_new :: "bytes \<Rightarrow> bytes \<Rightarrow> bytes \<Rightarrow> segment_writer" where
  "writer_new segment workspace project =
     \<lparr>w_segment_id = segment, w_tablet_id = 0, w_virtual_shard = 0, w_workspace_id = workspace, w_project_id = project,
      w_retention_class = lit ''detailed'', w_log_range = (0, 0), w_projector_version = 1,
      w_row_group_target_bytes = ROW_GROUP_TARGET_BYTES, w_page_target_bytes = PAGE_TARGET_BYTES, w_cipher = None\<rparr>"

section \<open>Indexes\<close>

definition distinct_estimate :: "column \<Rightarrow> nat" where
  "distinct_estimate c =
     (case c of
        Identifiers vs \<Rightarrow> card (set vs)
      | column.Text vs \<Rightarrow> card (set vs)
      | _ \<Rightarrow> column_len c)"

definition choose_layout :: "bytes \<Rightarrow> column \<Rightarrow> index_layout option" where
  "choose_layout n c =
     (let rows = column_len c
      in if rows = 0 then None
         else if \<not> (n \<in> {EVENT_ID, TRACE_ID, SESSION_ID, REQUEST_ID} \<or> take (length PROPERTY_PREFIX) n = PROPERTY_PREFIX) then None
         else if distinct_estimate c * 2 \<le> rows then Some TermPostingsLayout
         else Some BlockFilterLayout)"

definition index_key :: "column \<Rightarrow> nat \<Rightarrow> bytes option" where
  "index_key c row =
     (case c of
        Identifiers vs \<Rightarrow> Option.bind (nth_opt vs row) (\<lambda>v. if v \<noteq> replicate 16 0 then Some v else None)
      | column.Text vs \<Rightarrow> Option.bind (nth_opt vs row) id
      | column.Unsigned vs \<Rightarrow> map_option (\<lambda>v. le_bytes 8 (unat v)) (nth_opt vs row)
      | Integers vs \<Rightarrow> map_option (\<lambda>v. le_bytes 8 (unat v)) (nth_opt vs row)
      | Timestamps vs \<Rightarrow> map_option (\<lambda>v. le_bytes 8 (unat v)) (nth_opt vs row)
      | Booleans vs \<Rightarrow> map_option (\<lambda>v. [if v then 1 else 0]) (nth_opt vs row)
      | Floats vs \<Rightarrow> map_option (\<lambda>v. le_bytes 8 (unat v)) (nth_opt vs row)
      | column.Bytes vs \<Rightarrow> Option.bind (nth_opt vs row) id)"

text \<open>\<open>None\<close> is a panic, which inserting into a filter can be.\<close>

fun fill_filter :: "externs \<Rightarrow> column \<Rightarrow> nat \<Rightarrow> nat \<Rightarrow> block_filter \<Rightarrow> block_filter option" where
  "fill_filter E c row 0 f = Some f"
| "fill_filter E c row (Suc n) f =
     Option.bind (case index_key c row of Some key \<Rightarrow> filter_insert E f key | None \<Rightarrow> Some f) (fill_filter E c (Suc row) n)"

fun build_filters :: "externs \<Rightarrow> column \<Rightarrow> nat \<Rightarrow> event_row list list \<Rightarrow> block_filter list option" where
  "build_filters E c row [] = Some []"
| "build_filters E c row (g # gs) =
     Option.bind (fill_filter E c row (length g) (filter_new (length g))) (\<lambda>f.
     Option.bind (build_filters E c (row + length g) gs) (\<lambda>fs. Some (f # fs)))"

definition keyed_rows :: "column \<Rightarrow> (bytes \<times> u32) list" where
  "keyed_rows c =
     concat (map (\<lambda>row. case index_key c row of Some key \<Rightarrow> [(key, word_of_nat row)] | None \<Rightarrow> []) [0..<column_len c])"

definition build_index :: "externs \<Rightarrow> index_layout \<Rightarrow> column \<Rightarrow> event_row list list \<Rightarrow> column_index option" where
  "build_index E l c groups =
     (case l of
        BlockFilterLayout \<Rightarrow> map_option BlockFilter (build_filters E c 0 groups)
      | TermPostingsLayout \<Rightarrow> Some (TermPostings (foldl (\<lambda>p (key, row). postings_add p key row) postings_new (keyed_rows c)))
      | UniqueLookupLayout \<Rightarrow>
          Some (UniqueLookup (lookup_seal (foldl (\<lambda>p (key, row). lookup_add E p key row) lookup_new (keyed_rows c)))))"

fun build_indexes ::
  "externs \<Rightarrow> event_row list list \<Rightarrow> (bytes \<times> column) list \<Rightarrow> (bytes, column_index) btree \<Rightarrow> (bytes, column_index) btree option" where
  "build_indexes E groups [] m = Some m"
| "build_indexes E groups ((n, c) # ncs) m =
     (case choose_layout n c of
        None \<Rightarrow> build_indexes E groups ncs m
      | Some l \<Rightarrow> Option.bind (build_index E l c groups) (\<lambda>i. build_indexes E groups ncs (bt_insert n i m)))"

section \<open>Header and footer\<close>

definition fold_range :: "(event_row \<Rightarrow> i64) \<Rightarrow> event_row list \<Rightarrow> i64 \<times> i64" where
  "fold_range pick rows =
     foldl (\<lambda>(low, high) row. let at = pick row in (if sint at < sint low then at else low, if sint high < sint at then at else high))
       (2 ^ 63 - 1, 2 ^ 63) rows"

definition build_header :: "segment_writer \<Rightarrow> event_row list \<Rightarrow> nat \<Rightarrow> file_header" where
  "build_header w rows row_groups =
     \<lparr>h_segment_id = w_segment_id w, h_tablet_id = w_tablet_id w, h_virtual_shard = w_virtual_shard w,
      h_workspace_id = w_workspace_id w, h_project_id = w_project_id w, h_kinds = sort_dedup (map ev_kind rows),
      h_retention_class = w_retention_class w, h_occurred_range = fold_range occurred_at rows,
      h_received_range = fold_range received_at rows, h_committed_range = fold_range committed_at rows,
      h_log_range = w_log_range w, h_row_count = word_of_nat (length rows), h_row_group_count = word_of_nat row_groups,
      h_uncompressed_bytes = 0, h_compressed_bytes = 0, h_projector_version = w_projector_version w\<rparr>"

definition range_to_cbor :: "i64 \<times> i64 \<Rightarrow> cbor_value" where
  "range_to_cbor r = Array [integer (fst r), integer (snd r)]"

definition header_to_cbor :: "file_header \<Rightarrow> cbor_value" where
  "header_to_cbor h =
     build
       (put (lit ''proj'') (cbor_value.Unsigned (h_projector_version h))
       (put (lit ''rg'') (cbor_value.Unsigned (h_row_group_count h))
       (put (lit ''rows'') (cbor_value.Unsigned (h_row_count h))
       (put (lit ''log'') (Array [cbor_value.Unsigned (fst (h_log_range h)), cbor_value.Unsigned (snd (h_log_range h))])
       (put (lit ''com'') (range_to_cbor (h_committed_range h))
       (put (lit ''rec'') (range_to_cbor (h_received_range h))
       (put (lit ''occ'') (range_to_cbor (h_occurred_range h))
       (put (lit ''ret'') (cbor_value.Text (h_retention_class h))
       (put (lit ''kinds'') (Array (map cbor_value.Text (h_kinds h)))
       (put (lit ''pr'') (cbor_value.Bytes (h_project_id h))
       (put (lit ''ws'') (cbor_value.Bytes (h_workspace_id h))
       (put (lit ''vs'') (cbor_value.Unsigned (h_virtual_shard h))
       (put (lit ''tab'') (cbor_value.Unsigned (h_tablet_id h))
       (put (lit ''id'') (cbor_value.Bytes (h_segment_id h))
       (put (lit ''v'') (cbor_value.Unsigned (ucast FORMAT_MAJOR)) [])))))))))))))))"

definition header_id :: "cbor_value \<Rightarrow> bytes \<Rightarrow> format_error + bytes" where
  "header_id v n =
     ok_or (Option.bind (Option.bind (field v n) as_bytes) (\<lambda>b. if length b = 16 then Some b else None))
       (Damaged (MissingFrom ''identifiers''))"

definition number_or_zero :: "(cbor_value \<Rightarrow> 'a::len word option) \<Rightarrow> cbor_value list \<Rightarrow> nat \<Rightarrow> 'a word" where
  "number_or_zero as vs i = or_default 0 (Option.bind (nth_opt vs i) as)"

definition header_range :: "cbor_value \<Rightarrow> bytes \<Rightarrow> format_error + i64 \<times> i64" where
  "header_range v n =
     and_then (ok_or (Option.bind (field v n) as_array) (Damaged (MissingFrom ''time range''))) (\<lambda>vs.
       Inr (number_or_zero as_integer vs 0, number_or_zero as_integer vs 1))"

definition header_count :: "cbor_value \<Rightarrow> bytes \<Rightarrow> u64" where
  "header_count v n = or_default 0 (Option.bind (field v n) as_unsigned)"

definition header_from_cbor :: "cbor_value \<Rightarrow> format_error + file_header" where
  "header_from_cbor v =
     (let major = header_count v (lit ''v'')
      in if major \<noteq> ucast FORMAT_MAJOR then Inl (Unsupported (OtherFormat major))
         else and_then (header_id v (lit ''id'')) (\<lambda>segment.
           and_then (header_id v (lit ''ws'')) (\<lambda>workspace.
           and_then (header_id v (lit ''pr'')) (\<lambda>project.
           and_then (header_range v (lit ''occ'')) (\<lambda>occurred.
           and_then (header_range v (lit ''rec'')) (\<lambda>received.
           and_then (header_range v (lit ''com'')) (\<lambda>committed.
           and_then (ok_or (Option.bind (field v (lit ''log'')) as_array) (Damaged (MissingFrom ''log range''))) (\<lambda>log.
             Inr \<lparr>h_segment_id = segment, h_tablet_id = header_count v (lit ''tab''), h_virtual_shard = header_count v (lit ''vs''),
                  h_workspace_id = workspace, h_project_id = project,
                  h_kinds = (case Option.bind (field v (lit ''kinds'')) as_array of
                     Some vs \<Rightarrow> List.map_filter as_text vs | None \<Rightarrow> []),
                  h_retention_class = or_default (lit ''detailed'') (Option.bind (field v (lit ''ret'')) as_text),
                  h_occurred_range = occurred, h_received_range = received, h_committed_range = committed,
                  h_log_range = (number_or_zero as_unsigned log 0, number_or_zero as_unsigned log 1),
                  h_row_count = header_count v (lit ''rows''), h_row_group_count = header_count v (lit ''rg''),
                  h_uncompressed_bytes = 0, h_compressed_bytes = 0,
                  h_projector_version = header_count v (lit ''proj'')\<rparr>))))))))"

definition refs_to_cbor :: "page_ref list \<Rightarrow> cbor_value" where
  "refs_to_cbor refs = Array (concat (map (\<lambda>r. [cbor_value.Unsigned (ref_offset r), cbor_value.Unsigned (ref_rows r)]) refs))"

definition group_to_cbor :: "row_group \<Rightarrow> cbor_value" where
  "group_to_cbor g =
     build
       (put (lit ''pages'') (Map (map (\<lambda>(n, refs). (n, refs_to_cbor refs)) (g_pages g)))
       (put (lit ''rows'') (cbor_value.Unsigned (g_rows g))
       (put (lit ''first'') (cbor_value.Unsigned (g_first_row g)) [])))"

definition footer_to_cbor :: "footer \<Rightarrow> cbor_value" where
  "footer_to_cbor f =
     build
       (put_some (lit ''key'') (map_option (\<lambda>k. Array [cbor_value.Unsigned (ucast (k_algorithm k)), cbor_value.Unsigned (ucast (k_generation k))])
          (f_key_reference f))
       (put (lit ''hash'') (cbor_value.Bytes (f_payload_hash f))
       (put (lit ''idx'') (Map (map (\<lambda>(n, offset, l). (n, Array [cbor_value.Unsigned offset, cbor_value.Unsigned (ucast (layout_number l))]))
          (f_indexes f)))
       (put (lit ''rg'') (Array (map group_to_cbor (f_row_groups f))) []))))"

fun page_refs :: "cbor_value list \<Rightarrow> page_ref list" where
  "page_refs (a # b # rest) =
     \<lparr>ref_offset = or_default 0 (as_unsigned a), ref_rows = or_default 0 (as_unsigned b)\<rparr> # page_refs rest"
| "page_refs _ = []"

definition group_from_cbor :: "cbor_value \<Rightarrow> format_error + row_group" where
  "group_from_cbor v =
     and_then (ok_or (Option.bind (field v (lit ''pages'')) as_map) (Damaged (CannotRead ''directory''))) (\<lambda>entries.
     and_then (collect (\<lambda>(n, list).
         and_then (ok_or (as_array list) (Damaged (CannotRead ''directory''))) (\<lambda>numbers. Inr (n, page_refs numbers))) entries) (\<lambda>pages.
       Inr \<lparr>g_first_row = header_count v (lit ''first''), g_rows = header_count v (lit ''rows''),
            g_pages = foldl (\<lambda>m (n, refs). bt_insert n refs m) [] pages\<rparr>))"

definition index_entry :: "bytes \<times> cbor_value \<Rightarrow> (bytes \<times> u64 \<times> index_layout) option" where
  "index_entry = (\<lambda>(n, v).
     Option.bind (as_array v) (\<lambda>pair.
     Option.bind (Option.bind (nth_opt pair 0) as_unsigned) (\<lambda>offset.
     Option.bind (Option.bind (nth_opt pair 1) as_unsigned) (\<lambda>number.
     Option.bind (layout_from_number (ucast number)) (\<lambda>l. Some (n, offset, l))))))"

definition key_from_cbor :: "cbor_value \<Rightarrow> key_reference option" where
  "key_from_cbor v =
     Option.bind (as_array v) (\<lambda>pair.
     Option.bind (Option.bind (nth_opt pair 0) as_unsigned) (\<lambda>algorithm.
     Option.bind (Option.bind (nth_opt pair 1) as_unsigned) (\<lambda>generation.
       Some \<lparr>k_algorithm = ucast algorithm, k_generation = ucast generation\<rparr>)))"

definition footer_from_cbor :: "cbor_value \<Rightarrow> format_error + footer" where
  "footer_from_cbor v =
     and_then (ok_or (Option.bind (field v (lit ''rg'')) as_array) (Damaged (CannotRead ''directory''))) (\<lambda>list.
     and_then (collect group_from_cbor list) (\<lambda>groups.
     and_then (ok_or (Option.bind (Option.bind (field v (lit ''hash'')) as_bytes) (\<lambda>b. if length b = 32 then Some b else None))
         (Damaged (CannotRead ''checksum''))) (\<lambda>hash.
       Inr \<lparr>f_row_groups = groups,
            f_indexes = (case Option.bind (field v (lit ''idx'')) as_map of
               Some es \<Rightarrow> foldl (\<lambda>m (n, x). bt_insert n x m) [] (List.map_filter index_entry es) | None \<Rightarrow> []),
            f_payload_hash = hash, f_key_reference = Option.bind (field v (lit ''key'')) key_from_cbor\<rparr>)))"

section \<open>Writing\<close>

definition rows_that_fit :: "nat \<Rightarrow> nat \<Rightarrow> nat \<Rightarrow> nat" where
  "rows_that_fit measured rows target =
     f64_to_u64 (f64_div (f64_of_int (int target))
       (f64_max (f64_div (f64_of_int (int measured)) (f64_of_int (int rows))) (f64_of_int 1)))"

function chunks :: "nat \<Rightarrow> 'a list \<Rightarrow> 'a list list" where
  "chunks n xs = (if n = 0 \<or> xs = [] then [] else take n xs # chunks n (drop n xs))"
  by pat_completeness auto
termination
  by (relation "measure (\<lambda>(n, xs). length xs)") auto

declare chunks.simps [simp del]

definition split_rows :: "externs \<Rightarrow> (f64 \<Rightarrow> bytes) \<Rightarrow> segment_writer \<Rightarrow> event_row list \<Rightarrow> event_row list list" where
  "split_rows E show_f64 w rows =
     (let sample = min (length rows) 256;
          measured = to_columns show_f64 (take sample rows);
          sample_bytes = sum_list (map (\<lambda>c. length (write_page E [] c)) (bt_values (columns_map measured)));
          rows_each_group = max (rows_that_fit sample_bytes sample (w_row_group_target_bytes w)) 1
      in chunks rows_each_group rows)"

definition write_piece ::
  "externs \<Rightarrow> (nat \<Rightarrow> bytes option) \<Rightarrow> segment_writer \<Rightarrow> bytes \<Rightarrow> column \<Rightarrow> format_error + bytes" where
  "write_piece E draws w out piece =
     (case w_cipher w of
        None \<Rightarrow> Inr (write_page E out piece)
      | Some k \<Rightarrow>
          (case write_page_maybe_encrypted E (draws (length out)) out piece (Some k) (w_segment_id w) of
             Inl e \<Rightarrow> Inl (Unsupported (KeyFailure e))
           | Inr (out, _) \<Rightarrow> Inr out))"

fun write_pieces ::
  "externs \<Rightarrow> (nat \<Rightarrow> bytes option) \<Rightarrow> segment_writer \<Rightarrow> column list \<Rightarrow> bytes \<Rightarrow> page_ref list \<Rightarrow> format_error + bytes \<times> page_ref list" where
  "write_pieces E draws w [] out refs = Inr (out, refs)"
| "write_pieces E draws w (piece # pieces) out refs =
     and_then (write_piece E draws w out piece) (\<lambda>out'.
       write_pieces E draws w pieces out'
         (refs @ [\<lparr>ref_offset = word_of_nat (length out), ref_rows = word_of_nat (column_len piece)\<rparr>]))"

fun write_columns ::
  "externs \<Rightarrow> (nat \<Rightarrow> bytes option) \<Rightarrow> segment_writer \<Rightarrow> (bytes \<times> column) list \<Rightarrow> bytes \<Rightarrow> u64 \<Rightarrow> (bytes, page_ref list) btree
    \<Rightarrow> format_error + bytes \<times> u64 \<times> (bytes, page_ref list) btree" where
  "write_columns E draws w [] out uncompressed pages = Inr (out, uncompressed, pages)"
| "write_columns E draws w ((n, c) # ncs) out uncompressed pages =
     and_then (write_pieces E draws w (split_into_pages rows_that_fit E c (w_page_target_bytes w)) out []) (\<lambda>(out, refs).
       write_columns E draws w ncs out (uncompressed + word_of_nat (column_len c)) (bt_insert n refs pages))"

fun write_groups ::
  "externs \<Rightarrow> (f64 \<Rightarrow> bytes) \<Rightarrow> (nat \<Rightarrow> bytes option) \<Rightarrow> segment_writer \<Rightarrow> event_row list list \<Rightarrow> bytes \<Rightarrow> u64 \<Rightarrow> u64 \<Rightarrow> row_group list
    \<Rightarrow> format_error + bytes \<times> u64 \<times> row_group list" where
  "write_groups E show_f64 draws w [] out first_row uncompressed row_groups = Inr (out, uncompressed, row_groups)"
| "write_groups E show_f64 draws w (group_rows # groups) out first_row uncompressed row_groups =
     and_then (write_columns E draws w (columns_map (to_columns show_f64 group_rows)) out uncompressed []) (\<lambda>(out, uncompressed, pages).
       write_groups E show_f64 draws w groups out (first_row + word_of_nat (length group_rows)) uncompressed
         (row_groups @ [\<lparr>g_first_row = first_row, g_rows = word_of_nat (length group_rows), g_pages = pages\<rparr>]))"

definition write_one_index ::
  "externs \<Rightarrow> (nat \<Rightarrow> bytes option) \<Rightarrow> segment_writer \<Rightarrow> bytes \<Rightarrow> column_index \<Rightarrow> format_error + bytes" where
  "write_one_index E draws w out index =
     (case w_cipher w of
        None \<Rightarrow> Inr (write_index E out index)
      | Some k \<Rightarrow>
          (case write_index_maybe_encrypted E (draws (length out)) out index (Some k) (w_segment_id w) of
             Inl e \<Rightarrow> Inl (Unsupported (KeyFailure e))
           | Inr (out, _) \<Rightarrow> Inr out))"

fun write_indexes ::
  "externs \<Rightarrow> (nat \<Rightarrow> bytes option) \<Rightarrow> segment_writer \<Rightarrow> (bytes \<times> column_index) list \<Rightarrow> bytes \<Rightarrow> (bytes, u64 \<times> index_layout) btree
    \<Rightarrow> format_error + bytes \<times> (bytes, u64 \<times> index_layout) btree" where
  "write_indexes E draws w [] out offsets = Inr (out, offsets)"
| "write_indexes E draws w ((n, index) # nis) out offsets =
     and_then (write_one_index E draws w out index) (\<lambda>out'.
       write_indexes E draws w nis out' (bt_insert n (word_of_nat (length out), layout index) offsets))"

definition prologue :: bytes where
  "prologue = put_u64 (put_u64 (put_u32 (put_u16 (put_u16 MAGIC FORMAT_MAJOR) FORMAT_MINOR) 0) 0) 0 @ replicate 32 0"

definition patch :: "bytes \<Rightarrow> nat \<Rightarrow> bytes \<Rightarrow> bytes" where
  "patch out at bs = take at out @ bs @ drop (at + length bs) out"

definition finish_file :: "externs \<Rightarrow> (bytes \<Rightarrow> bytes) \<Rightarrow> bytes \<Rightarrow> nat \<Rightarrow> footer \<Rightarrow> bytes" where
  "finish_file E blake3 out header_length f =
     (let footer_offset = length out;
          footer_bytes = encode (footer_to_cbor f);
          out = out @ footer_bytes;
          out = put_u64 out (word_of_nat footer_offset);
          out = put_u32 out (word_of_nat (length footer_bytes));
          out = put_u64 out (page_checksum E footer_bytes);
          out = put_u32 out (ucast FORMAT_MINOR) @ TRAILER_MAGIC;
          out = patch out 12 (le_bytes 4 (unat (word_of_nat header_length :: u32)));
          out = patch out 16 (le_bytes 8 PROLOGUE_BYTES);
          out = patch out 24 (le_bytes 8 (unat (word_of_nat footer_offset :: u64)))
      in patch out 32 (blake3 (drop PROLOGUE_BYTES out)))"

definition write_segment ::
  "externs \<Rightarrow> (bytes \<Rightarrow> bytes) \<Rightarrow> (f64 \<Rightarrow> bytes) \<Rightarrow> (nat \<Rightarrow> bytes option) \<Rightarrow> segment_writer \<Rightarrow> event_row list \<Rightarrow> format_error + segment" where
  "write_segment E blake3 show_f64 draws w rows =
     (if rows = [] then Inl (Unsupported NeedsOneItem)
      else let groups = split_rows E show_f64 w rows;
               header = build_header w rows (length groups);
               header_bytes = encode (header_to_cbor header);
               out = prologue @ header_bytes
           in and_then (ok_or (build_indexes E groups (columns_map (to_columns show_f64 rows)) []) Panicked) (\<lambda>indexes.
              and_then (write_groups E show_f64 draws w groups out 0 0 []) (\<lambda>(out, uncompressed, row_groups).
              and_then (write_indexes E draws w indexes out []) (\<lambda>(out, offsets).
                let f = \<lparr>f_row_groups = row_groups, f_indexes = offsets, f_payload_hash = blake3 (drop PROLOGUE_BYTES out),
                         f_key_reference = map_option (\<lambda>k. \<lparr>k_algorithm = ALGORITHM_AES_256_GCM, k_generation = key_generation k\<rparr>) (w_cipher w)\<rparr>;
                    file = finish_file E blake3 out (length header_bytes) f
                in Inr \<lparr>sg_header = header\<lparr>h_uncompressed_bytes := uncompressed, h_compressed_bytes := word_of_nat (length file)\<rparr>,
                        sg_footer = f, sg_bytes = file, sg_content_address = take 32 (drop 32 file), sg_cipher = w_cipher w\<rparr>))))"

section \<open>Reading\<close>

definition saturating_add :: "u64 \<Rightarrow> u64 \<Rightarrow> u64" where
  "saturating_add a b = (if unat a + unat b < 2 ^ 64 then a + b else - 1)"

definition open_file :: "externs \<Rightarrow> bytes \<Rightarrow> bool \<Rightarrow> format_error + segment" where
  "open_file E bs verify =
     (if length bs < PROLOGUE_BYTES + TRAILER_BYTES then Inl (Incomplete FileTooShort)
      else if take 8 bs \<noteq> MAGIC then Inl (Incomplete NotOneOfOurs)
      else let trailer_at = length bs - TRAILER_BYTES
           in if drop (length bs - 8) bs \<noteq> TRAILER_MAGIC then Inl (Incomplete NotFinished)
              else and_then (get_u64 bs trailer_at) (\<lambda>footer_offset.
                and_then (get_u32 bs (trailer_at + 8)) (\<lambda>footer_length.
                and_then (get_u64 bs (trailer_at + 12)) (\<lambda>footer_checksum.
                and_then (slice bs (unat footer_offset) (unat footer_length)) (\<lambda>footer_bytes.
                if verify \<and> page_checksum E footer_bytes \<noteq> footer_checksum then Inl (Damaged DirectoryChecksum)
                else and_then (case decode footer_bytes of Inl _ \<Rightarrow> Inl (Damaged DirectoryUnreadable) | Inr v \<Rightarrow> footer_from_cbor v) (\<lambda>f.
                and_then (get_u16 bs 8) (\<lambda>major.
                if major \<noteq> FORMAT_MAJOR then Inl (Unsupported (OtherFormat (ucast major)))
                else and_then (get_u32 bs 12) (\<lambda>header_length.
                and_then (get_u64 bs 16) (\<lambda>header_offset.
                and_then (slice bs (unat header_offset) (unat header_length)) (\<lambda>header_bytes.
                and_then (case decode header_bytes of Inl _ \<Rightarrow> Inl (Damaged DescriptionUnreadable) | Inr v \<Rightarrow> header_from_cbor v) (\<lambda>header.
                let listed = foldl (\<lambda>uncompressed g. saturating_add uncompressed (g_rows g)) 0 (f_row_groups f)
                in if h_row_count header \<noteq> listed then Inl (Damaged (CountsDiffer (h_row_count header) listed))
                   else Inr \<lparr>sg_header = header\<lparr>h_compressed_bytes := word_of_nat (length bs)\<rparr>, sg_footer = f, sg_bytes = bs,
                             sg_content_address = take 32 (drop 32 bs), sg_cipher = None\<rparr>)))))))))))"

definition open_received :: "externs \<Rightarrow> (bytes \<Rightarrow> bytes) \<Rightarrow> bytes \<Rightarrow> format_error + segment" where
  "open_received E blake3 bs =
     (if length bs < PROLOGUE_BYTES + TRAILER_BYTES then Inl (Incomplete FileTooShort)
      else if blake3 (drop PROLOGUE_BYTES bs) \<noteq> take 32 (drop 32 bs) then Inl (Damaged NotTheFileItSays)
      else open_file E bs True)"

definition open_with_key :: "externs \<Rightarrow> bytes \<Rightarrow> bool \<Rightarrow> cipher \<Rightarrow> format_error + segment" where
  "open_with_key E bs verify k = and_then (open_file E bs verify) (\<lambda>s. Inr (s\<lparr>sg_cipher := Some k\<rparr>))"

definition verify_segment :: "(bytes \<Rightarrow> bytes) \<Rightarrow> segment \<Rightarrow> format_error + unit" where
  "verify_segment blake3 s =
     (if blake3 (drop PROLOGUE_BYTES (sg_bytes s)) \<noteq> sg_content_address s then Inl (Damaged NotTheFileItSays) else Inr ())"

definition append_columns :: "column \<Rightarrow> column \<Rightarrow> format_error + column" where
  "append_columns l r =
     (case (l, r) of
        (Timestamps a, Timestamps b) \<Rightarrow> Inr (Timestamps (a @ b))
      | (Integers a, Integers b) \<Rightarrow> Inr (Integers (a @ b))
      | (column.Unsigned a, column.Unsigned b) \<Rightarrow> Inr (column.Unsigned (a @ b))
      | (Floats a, Floats b) \<Rightarrow> Inr (Floats (a @ b))
      | (Booleans a, Booleans b) \<Rightarrow> Inr (Booleans (a @ b))
      | (Identifiers a, Identifiers b) \<Rightarrow> Inr (Identifiers (a @ b))
      | (column.Text a, column.Text b) \<Rightarrow> Inr (column.Text (a @ b))
      | (column.Bytes a, column.Bytes b) \<Rightarrow> Inr (column.Bytes (a @ b))
      | _ \<Rightarrow> Inl (Damaged PartsDisagree))"

fun merge_pages :: "externs \<Rightarrow> segment \<Rightarrow> bool \<Rightarrow> page_ref list \<Rightarrow> column option \<Rightarrow> format_error + column option" where
  "merge_pages E s verify [] merged = Inr merged"
| "merge_pages E s verify (r # refs) merged =
     and_then (read_page_maybe_encrypted E (sg_bytes s) (unat (ref_offset r)) verify (sg_cipher s) (h_segment_id (sg_header s))) (\<lambda>page.
     and_then (case merged of None \<Rightarrow> Inr (page_column page) | Some c \<Rightarrow> append_columns c (page_column page)) (\<lambda>c.
       merge_pages E s verify refs (Some c)))"

fun group_columns ::
  "externs \<Rightarrow> segment \<Rightarrow> bool \<Rightarrow> (bytes \<times> page_ref list) list \<Rightarrow> (bytes, column) btree \<Rightarrow> format_error + (bytes, column) btree" where
  "group_columns E s verify [] m = Inr m"
| "group_columns E s verify ((n, refs) # rest) m =
     and_then (merge_pages E s verify refs None) (\<lambda>merged.
       group_columns E s verify rest (case merged of Some c \<Rightarrow> bt_insert n c m | None \<Rightarrow> m))"

definition row_group_rows :: "externs \<Rightarrow> segment \<Rightarrow> bool \<Rightarrow> row_group \<Rightarrow> format_error + event_row list" where
  "row_group_rows E s verify g =
     and_then (group_columns E s verify (g_pages g) []) (\<lambda>m.
       case to_rows m (unat (g_rows g)) (h_workspace_id (sg_header s)) (h_project_id (sg_header s)) of
         Inl Panic \<Rightarrow> Inl Panicked
       | Inr rows \<Rightarrow> Inr rows)"

definition segment_rows :: "externs \<Rightarrow> segment \<Rightarrow> bool \<Rightarrow> format_error + event_row list" where
  "segment_rows E s verify = and_then (collect (row_group_rows E s verify) (f_row_groups (sg_footer s))) (\<lambda>rs. Inr (concat rs))"

definition segment_index :: "externs \<Rightarrow> segment \<Rightarrow> bytes \<Rightarrow> bool \<Rightarrow> format_error + column_index option" where
  "segment_index E s n verify =
     (case bt_get (f_indexes (sg_footer s)) n of
        None \<Rightarrow> Inr None
      | Some (offset, _) \<Rightarrow>
          and_then (read_index_maybe_encrypted E (sg_bytes s) (unat offset) verify (sg_cipher s) (h_segment_id (sg_header s)))
            (\<lambda>i. Inr (Some i)))"

definition is_encrypted :: "segment \<Rightarrow> bool" where
  "is_encrypted s = (f_key_reference (sg_footer s) \<noteq> None)"

fun any_filter :: "externs \<Rightarrow> block_filter list \<Rightarrow> bytes \<Rightarrow> bool option" where
  "any_filter E [] v = Some False"
| "any_filter E (f # fs) v = Option.bind (maybe E f v) (\<lambda>b. if b then Some True else any_filter E fs v)"

definition may_hold :: "externs \<Rightarrow> segment \<Rightarrow> bytes \<Rightarrow> bytes \<Rightarrow> bool \<Rightarrow> bool option" where
  "may_hold E s n v verify =
     (case segment_index E s n verify of
        Inr (Some (BlockFilter filters)) \<Rightarrow> any_filter E filters v
      | Inr (Some (TermPostings postings)) \<Rightarrow> Some (postings_rows postings v \<noteq> None)
      | Inr (Some (UniqueLookup l)) \<Rightarrow> Some (lookup_candidates E l v \<noteq> [])
      | Inl Panicked \<Rightarrow> None
      | _ \<Rightarrow> Some True)"

definition overlaps :: "segment \<Rightarrow> time_basis \<Rightarrow> i64 \<Rightarrow> i64 \<Rightarrow> bool" where
  "overlaps s basis start end =
     (let (low, high) = (case basis of
            OccurredAt \<Rightarrow> h_occurred_range (sg_header s)
          | ReceivedAt \<Rightarrow> h_received_range (sg_header s)
          | CommittedAt \<Rightarrow> h_committed_range (sg_header s))
      in sint low < sint end \<and> sint start \<le> sint high)"

end
