(* ===== verification/Segment_Parts.thy ===== *)
theory Segment_Parts
  imports Segment_File
begin

text \<open>
  The parts of a segment file, each read back: the header and the footer survive their
  encoding, a page or an index is found where the directory says, with a key or without,
  and the pages of a row group give its rows.
\<close>

section \<open>The description and the directory\<close>

definition header_ok :: "file_header \<Rightarrow> bool" where
  "header_ok h \<longleftrightarrow> length (h_segment_id h) = 16 \<and> length (h_workspace_id h) = 16 \<and> length (h_project_id h) = 16
     \<and> list_all text_ok (h_kinds h) \<and> length (h_kinds h) < 2 ^ 64 \<and> text_ok (h_retention_class h)"

lemma range_back:
  "number_or_zero as_integer [integer (fst r), integer (snd r)] 0 = fst r"
  "number_or_zero as_integer [integer (fst r), integer (snd r)] 1 = snd r"
  by (simp_all add: number_or_zero_def nth_opt_def or_default_def as_integer_integer)

lemma map_filter_texts: "List.map_filter as_text (map cbor_value.Text ts) = ts"
  by (induction ts) (simp_all add: List.map_filter_simps)

lemma header_from_to:
  assumes "header_ok h"
  shows "header_from_cbor (header_to_cbor h) = Inr (h\<lparr>h_uncompressed_bytes := 0, h_compressed_bytes := 0\<rparr>)"
  using assms range_back
  by (simp add: header_from_cbor_def header_to_cbor_def header_id_def header_range_def header_count_def header_ok_def range_to_cbor_def
      row_keys or_default_def map_filter_texts number_or_zero_def nth_opt_def Let_def)

lemma array_wf:
  assumes "list_all wf_value vs" and "list_all (\<lambda>v. depth v < n) vs" and "length vs < 2 ^ 64" and "0 < n"
  shows "wf_value (Array vs) \<and> depth (Array vs) \<le> n"
proof -
  have "foldr max (map (\<lambda>v. Suc (depth v)) vs) 0 < Suc n"
    using assms(2) by (intro foldr_max_less) (auto simp: list_all_iff)
  then show ?thesis using assms by simp
qed

lemma key_ok: "list_all (\<lambda>c. of_char c < (128::nat)) k \<Longrightarrow> length k < 2 ^ 64 \<Longrightarrow> text_ok (lit k)"
  unfolding text_ok_def lit_def by (intro conjI utf8_ascii) (auto simp: list_all_iff word_le_nat_alt)


lemma put_ok:
  "list_all (entry_ok n) m \<and> bt_ok m \<and> length m \<le> l \<Longrightarrow> entry_ok n (k, v) \<Longrightarrow>
   list_all (entry_ok n) (put k v m) \<and> bt_ok (put k v m) \<and> length (put k v m) \<le> Suc l"
  using entries_put[of n k v m] length_put_entries(1)[of m l k v] by simp

lemma put_some_ok:
  "list_all (entry_ok n) m \<and> bt_ok m \<and> length m \<le> l \<Longrightarrow> pred_option (\<lambda>v. entry_ok n (k, v)) w \<Longrightarrow>
   list_all (entry_ok n) (put_some k w m) \<and> bt_ok (put_some k w m) \<and> length (put_some k w m) \<le> Suc l"
  using entries_put_some[of n k w m] length_put_entries(2)[of m l k w] by simp

lemma put_nil: "list_all (entry_ok n) [] \<and> bt_ok [] \<and> length [] \<le> 0"
  by simp

lemma map_wf: "list_all (entry_ok n) m \<and> bt_ok m \<and> length m \<le> l \<Longrightarrow> l < 2 ^ 64 \<Longrightarrow> 0 < n \<Longrightarrow>
   wf_value (build m) \<and> depth (build m) \<le> n"
  by (rule wf_build) auto

lemma entry_simps:
  "text_ok k \<Longrightarrow> 0 < n \<Longrightarrow> entry_ok n (k, cbor_value.Unsigned u)"
  "text_ok k \<Longrightarrow> 0 < n \<Longrightarrow> length b < 2 ^ 64 \<Longrightarrow> entry_ok n (k, cbor_value.Bytes b)"
  "text_ok k \<Longrightarrow> 0 < n \<Longrightarrow> text_ok t \<Longrightarrow> entry_ok n (k, cbor_value.Text t)"
  by (simp_all add: entry_ok_def text_ok_def)

lemma entry_array:
  "text_ok k \<Longrightarrow> list_all wf_value vs \<Longrightarrow> list_all (\<lambda>v. depth v < m) vs \<Longrightarrow> length vs < 2 ^ 64 \<Longrightarrow> 0 < m \<Longrightarrow> m < n \<Longrightarrow>
   entry_ok n (k, Array vs)"
  using array_wf[of vs m] unfolding entry_ok_def by auto

lemma range_entry: "text_ok k \<Longrightarrow> entry_ok 2 (k, range_to_cbor r)"
  unfolding range_to_cbor_def using integer_wf by (intro entry_array[where m = 1]) auto

lemma header_wf:
  assumes "header_ok h"
  shows "wf_value (header_to_cbor h) \<and> depth (header_to_cbor h) \<le> 2"
proof -
  have kinds: "entry_ok 2 (lit ''kinds'', Array (map cbor_value.Text (h_kinds h)))"
    using assms by (intro entry_array[where m = 1] key_ok) (auto simp: header_ok_def text_ok_def list_all_iff)
  have log: "entry_ok 2 (lit ''log'', Array [cbor_value.Unsigned (fst (h_log_range h)), cbor_value.Unsigned (snd (h_log_range h))])"
    by (intro entry_array[where m = 1]) (auto simp: key_ok)
  show ?thesis
    unfolding header_to_cbor_def
    by (rule map_wf, (rule put_ok)+, rule put_nil) (use assms kinds log in \<open>auto simp: header_ok_def entry_simps range_entry key_ok\<close>)
qed

lemma header_read_back:
  "header_ok h \<Longrightarrow> decode (encode (header_to_cbor h)) = Inr (header_to_cbor h)"
  using header_wf[of h] by (intro decode_encode) (auto simp: MAX_DEPTH_def)

text \<open>What the directory promises of its own shape.\<close>

definition group_ok :: "row_group \<Rightarrow> bool" where
  "group_ok g \<longleftrightarrow> bt_ok (g_pages g) \<and> length (g_pages g) < 2 ^ 64
     \<and> list_all (\<lambda>(n, refs). text_ok n \<and> 2 * length refs < 2 ^ 64) (g_pages g)"

definition footer_ok :: "footer \<Rightarrow> bool" where
  "footer_ok f \<longleftrightarrow> list_all group_ok (f_row_groups f) \<and> length (f_row_groups f) < 2 ^ 64
     \<and> bt_ok (f_indexes f) \<and> length (f_indexes f) < 2 ^ 64 \<and> list_all (\<lambda>(n, _). text_ok n) (f_indexes f)
     \<and> length (f_payload_hash f) = 32"

lemma page_refs_back: "page_refs (concat (map (\<lambda>r. [cbor_value.Unsigned (ref_offset r), cbor_value.Unsigned (ref_rows r)]) refs)) = refs"
  by (induction refs) (simp_all add: or_default_def)

lemma foldl_insert_id: "bt_ok m \<Longrightarrow> foldl (\<lambda>m (k, v). bt_insert k v m) [] m = m"
  by (intro bt_rebuild_from_permutation) (auto simp: bt_ok_distinct)

lemma collect_map_Inr: "(\<And>x. x \<in> set xs \<Longrightarrow> f (g x) = Inr x) \<Longrightarrow> collect f (map g xs) = Inr xs"
  by (induction xs) auto

lemma group_back: "group_ok g \<Longrightarrow> group_from_cbor (group_to_cbor g) = Inr g"
proof -
  assume g: "group_ok g"
  have "collect (\<lambda>(n, list). and_then (ok_or (as_array list) (Damaged (CannotRead ''directory''))) (\<lambda>numbers. Inr (n, page_refs numbers)))
      (map (\<lambda>(n, refs). (n, refs_to_cbor refs)) (g_pages g)) = Inr (g_pages g)"
    by (rule collect_map_Inr) (auto simp: refs_to_cbor_def page_refs_back)
  then show ?thesis
    using g foldl_insert_id[of "g_pages g"]
    by (simp add: group_from_cbor_def group_to_cbor_def row_keys header_count_def or_default_def group_ok_def)
qed

lemma layout_number_back: "layout_from_number (ucast (ucast (layout_number l) :: u64)) = Some l"
  by (cases l) (simp_all add: layout_from_number_def)

lemma map_filter_entries:
  "List.map_filter index_entry
     (map (\<lambda>(n, offset, l). (n, Array [cbor_value.Unsigned offset, cbor_value.Unsigned (ucast (layout_number l))])) is) = is"
  by (induction "is") (auto simp: List.map_filter_simps index_entry_def nth_opt_def layout_number_back)

lemma key_back:
  "key_from_cbor (Array [cbor_value.Unsigned (ucast (k_algorithm k)), cbor_value.Unsigned (ucast (k_generation k))]) = Some k"
proof -
  have "ucast (ucast (k_algorithm k) :: u64) = k_algorithm k" "ucast (ucast (k_generation k) :: u64) = k_generation k"
    by (rule bit_word_eqI, simp add: bit_simps)+
  then show ?thesis by (simp add: key_from_cbor_def nth_opt_def)
qed

lemma footer_back: "footer_ok f \<Longrightarrow> footer_from_cbor (footer_to_cbor f) = Inr f"
proof -
  assume f: "footer_ok f"
  have "collect group_from_cbor (map group_to_cbor (f_row_groups f)) = Inr (f_row_groups f)"
    using f by (intro collect_map_Inr) (auto simp: footer_ok_def list_all_iff group_back)
  then show ?thesis
    using f foldl_insert_id[of "f_indexes f"]
    by (cases "f_key_reference f")
      (simp_all add: footer_from_cbor_def footer_to_cbor_def row_keys footer_ok_def map_filter_entries key_back put_some_def)
qed


lemma refs_wf: "2 * length refs < 2 ^ 64 \<Longrightarrow> wf_value (refs_to_cbor refs) \<and> depth (refs_to_cbor refs) \<le> 1"
  unfolding refs_to_cbor_def
proof (rule array_wf)
  show "2 * length refs < 2 ^ 64 \<Longrightarrow>
      length (concat (map (\<lambda>r. [cbor_value.Unsigned (ref_offset r), cbor_value.Unsigned (ref_rows r)]) refs)) < 2 ^ 64"
    by (simp add: length_concat comp_def sum_list_triv mult.commute)
qed (auto simp: list_all_iff)

lemma group_wf:
  assumes "group_ok g"
  shows "wf_value (group_to_cbor g) \<and> depth (group_to_cbor g) \<le> 3"
proof -
  let ?m = "map (\<lambda>(n, refs). (n, refs_to_cbor refs)) (g_pages g)"
  have "list_all (entry_ok 2) ?m"
    using assms refs_wf by (fastforce simp: group_ok_def list_all_iff entry_ok_def)
  then have "wf_value (build ?m) \<and> depth (build ?m) \<le> 2"
    using assms by (intro wf_build) (auto simp: group_ok_def)
  then have pages: "entry_ok 3 (lit ''pages'', Map ?m)" by (auto simp: entry_ok_def build_def key_ok)
  show ?thesis
    unfolding group_to_cbor_def by (rule map_wf, (rule put_ok)+, rule put_nil) (use pages in \<open>auto simp: entry_simps key_ok\<close>)
qed

lemma footer_wf:
  assumes "footer_ok f"
  shows "wf_value (footer_to_cbor f) \<and> depth (footer_to_cbor f) \<le> 5"
proof -
  let ?i = "map (\<lambda>(n, offset, l). (n, Array [cbor_value.Unsigned offset, cbor_value.Unsigned (ucast (layout_number l))])) (f_indexes f)"
  have "list_all (entry_ok 2) ?i"
    using assms by (auto simp: footer_ok_def list_all_iff intro!: entry_array[where m = 1])
  then have "wf_value (build ?i) \<and> depth (build ?i) \<le> 2"
    using assms by (intro wf_build) (auto simp: footer_ok_def bt_ok_def comp_def case_prod_beta')
  then have idx: "entry_ok 5 (lit ''idx'', Map ?i)" by (auto simp: entry_ok_def build_def key_ok)
  have rg: "entry_ok 5 (lit ''rg'', Array (map group_to_cbor (f_row_groups f)))"
    using assms group_wf
    by (intro entry_array[where m = 4] key_ok) (fastforce simp: footer_ok_def list_all_iff)+
  have key: "pred_option (\<lambda>v. entry_ok 5 (lit ''key'', v))
      (map_option (\<lambda>k. Array [cbor_value.Unsigned (ucast (k_algorithm k)), cbor_value.Unsigned (ucast (k_generation k))]) (f_key_reference f))"
    by (cases "f_key_reference f") (auto intro!: entry_array[where m = 1] key_ok)
  show ?thesis
    unfolding footer_to_cbor_def
    by (rule map_wf, rule put_some_ok, (rule put_ok)+, rule put_nil)
      (use assms idx rg key in \<open>auto simp: entry_simps key_ok footer_ok_def\<close>)
qed

lemma footer_read_back:
  "footer_ok f \<Longrightarrow> decode (encode (footer_to_cbor f)) = Inr (footer_to_cbor f)"
  using footer_wf[of f] by (intro decode_encode) (auto simp: MAX_DEPTH_def)

section \<open>Pieces of a column\<close>

fun slices :: "column \<Rightarrow> nat \<Rightarrow> column list \<Rightarrow> bool" where
  "slices c start [] \<longleftrightarrow> start = column_len c"
| "slices c start (p # ps) \<longleftrightarrow> (\<exists>fin. start < fin \<and> fin \<le> column_len c \<and> p = column_slice c start fin \<and> slices c fin ps)"

lemma split_from_slices:
  "0 < rows \<Longrightarrow> start \<le> column_len c \<Longrightarrow> slices c start (split_from E c target rows start)"
proof (induction E c target rows start rule: split_from.induct)
  case (1 E c target rows start)
  show ?case
  proof (cases "start < column_len c")
    case True
    define fin where "fin = shrink E c target start (min (start + rows) (column_len c))"
    have lt: "start < min (start + rows) (column_len c)" using "1.prems" True by simp
    have fin: "start < fin" "fin \<le> column_len c"
      using shrink_bounds[OF lt, of E c target] by (auto simp: fin_def)
    have "split_from E c target rows start = column_slice c start fin # split_from E c target rows fin"
      using "1.prems" True by (simp add: split_from.simps[of E c target rows start] fin_def Let_def)
    moreover have "slices c fin (split_from E c target rows fin)"
      using "1.IH"[OF _ refl refl] "1.prems" True fin by (simp add: fin_def)
    ultimately show ?thesis using fin by auto
  next
    case False
    then show ?thesis using "1.prems" by (simp add: split_from.simps[of E c target rows "column_len c"])
  qed
qed

lemma split_into_pages_slices: "slices c 0 (split_into_pages estimate E c target)"
proof -
  have "slices c 0 [c]" if "0 < column_len c"
    using that column_slice_all[of c] by (auto intro!: exI[of _ "column_len c"])
  then show ?thesis
    using split_from_slices[of "max (estimate (length (write_page E [] c)) (column_len c) target) 1" 0 c E target]
    by (auto simp: split_into_pages_def is_empty_def Let_def)
qed

lemma slice_ok: "column_ok c \<Longrightarrow> column_ok (column_slice c i j)"
  by (cases c) (auto simp: sub_def dest!: in_set_takeD in_set_dropD)

lemma slices_ok: "slices c start ps \<Longrightarrow> column_ok c \<Longrightarrow> list_all column_ok ps"
  by (induction ps arbitrary: start) (auto simp: slice_ok)

lemma sub_nonempty: "i < j \<Longrightarrow> j \<le> length xs \<Longrightarrow> sub i j xs \<noteq> []"
  by (simp add: sub_def)

lemma append_slices:
  assumes "i < j" "j < k" "k \<le> column_len c"
  shows "append_columns (page_shape (column_slice c i j)) (page_shape (column_slice c j k)) = Inr (page_shape (column_slice c i k))"
proof -
  have b: "page_shape (Booleans (sub i j vs)) = Booleans (sub i j vs)" if "i < j" "j \<le> length vs" for i j vs
    using sub_nonempty[OF that] by (cases "sub i j vs") auto
  show ?thesis
    using assms by (cases c) (simp_all add: append_columns_def b sub_append)
qed

section \<open>Blocks of a file\<close>

text \<open>
  A block that was written behind some bytes reads back behind any bytes of the same
  number, which is what lets the first 64 bytes of the file be filled in at the end.
\<close>

definition reads_page :: "externs \<Rightarrow> segment_writer \<Rightarrow> nat \<Rightarrow> bytes \<Rightarrow> nat \<Rightarrow> column \<Rightarrow> bool" where
  "reads_page E w base body at c \<longleftrightarrow> (\<forall>pre rest verify. length pre = base \<longrightarrow>
     read_page_maybe_encrypted E (pre @ body @ rest) at verify (w_cipher w) (w_segment_id w)
       = Inr \<lparr>page_column = page_shape c, page_rows = column_len c\<rparr>)"

definition reads_index :: "externs \<Rightarrow> segment_writer \<Rightarrow> nat \<Rightarrow> bytes \<Rightarrow> nat \<Rightarrow> column_index \<Rightarrow> bool" where
  "reads_index E w base body at i \<longleftrightarrow> (\<forall>pre rest verify. length pre = base \<longrightarrow>
     read_index_maybe_encrypted E (pre @ body @ rest) at verify (w_cipher w) (w_segment_id w) = Inr i)"

lemma reads_page_after: "reads_page E w base body at c \<Longrightarrow> reads_page E w base (body @ rest) at c"
  by (simp add: reads_page_def)

lemma reads_page_before: "reads_page E w (base + length before) body at c \<Longrightarrow> reads_page E w base (before @ body) at c"
  unfolding reads_page_def
proof (intro allI impI)
  fix pre rest verify
  assume "\<forall>pre rest verify. length pre = base + length before \<longrightarrow>
     read_page_maybe_encrypted E (pre @ body @ rest) at verify (w_cipher w) (w_segment_id w)
       = Inr \<lparr>page_column = page_shape c, page_rows = column_len c\<rparr>" "length (pre :: bytes) = base"
  from this(1)[rule_format, of "pre @ before"] this(2)
  show "read_page_maybe_encrypted E (pre @ (before @ body) @ rest) at verify (w_cipher w) (w_segment_id w)
       = Inr \<lparr>page_column = page_shape c, page_rows = column_len c\<rparr>" by simp
qed

lemma reads_index_after: "reads_index E w base body at i \<Longrightarrow> reads_index E w base (body @ rest) at i"
  by (simp add: reads_index_def)

lemma reads_index_before:
  assumes "reads_index E w (base + length before) body at i"
  shows "reads_index E w base (before @ body) at i"
  unfolding reads_index_def
proof (intro allI impI)
  fix pre :: bytes and rest verify
  assume "length pre = base"
  then show "read_index_maybe_encrypted E (pre @ (before @ body) @ rest) at verify (w_cipher w) (w_segment_id w) = Inr i"
    using assms[unfolded reads_index_def, rule_format, of "pre @ before" rest verify] by simp
qed

definition writer_ok :: "externs \<Rightarrow> (nat \<Rightarrow> bytes option) \<Rightarrow> segment_writer \<Rightarrow> bool" where
  "writer_ok E draws w \<longleftrightarrow> zstd_ok E \<and> pred_option cipher_ok (w_cipher w) \<and> (\<forall>n. draw_ok (draws n))
     \<and> length (w_segment_id w) = 16 \<and> length (w_workspace_id w) = 16 \<and> length (w_project_id w) = 16 \<and> text_ok (w_retention_class w)"

lemma page_prefix:
  assumes "write_page_maybe_encrypted E draw out c cip seg = Inr (out', n)"
  shows "\<exists>body. out' = out @ body \<and> (\<forall>pre. length pre = length out \<longrightarrow>
    write_page_maybe_encrypted E draw pre c cip seg = Inr (pre @ body, n))"
  using assms
  by (cases cip) (auto simp: write_page_maybe_encrypted_def Let_def result_convs put_u16_def put_u32_def put_u64_def split: prod.splits)

lemma index_prefix:
  assumes "write_index_maybe_encrypted E draw out i cip seg = Inr (out', n)"
  shows "\<exists>body. out' = out @ body \<and> (\<forall>pre. length pre = length out \<longrightarrow>
    write_index_maybe_encrypted E draw pre i cip seg = Inr (pre @ body, n))"
  using assms
  by (cases cip) (auto simp: write_index_maybe_encrypted_def Let_def result_convs put_u16_def put_u32_def put_u64_def split: prod.splits)


lemma write_piece_reads:
  assumes w: "writer_ok E draws w" and "column_ok c" "page_fits c" and "write_piece E draws w out c = Inr out'"
  shows "\<exists>body. out' = out @ body \<and> reads_page E w (length out) body (length out) c"
proof -
  obtain draw n where wr: "write_page_maybe_encrypted E draw out c (w_cipher w) (w_segment_id w) = Inr (out', n)" "draw_ok draw"
  proof (cases "w_cipher w")
    case None
    obtain n where "write_page_maybe_encrypted E None out c None (replicate 16 0) = Inr (write_page E out c, n)"
      using write_page_run[of E out c] by blast
    then have "write_page_maybe_encrypted E None out c None (w_segment_id w) = Inr (write_page E out c, n)"
      by (simp add: write_page_maybe_encrypted_def)
    then show ?thesis using that[of None n] assms(4) None by (simp add: write_piece_def draw_ok_def)
  next
    case (Some k)
    then show ?thesis
      using that[of "draws (length out)"] assms(4) w by (auto simp: write_piece_def writer_ok_def split: sum.splits)
  qed
  from page_prefix[OF wr(1)] obtain body where body: "out' = out @ body"
      "\<And>pre. length pre = length out \<Longrightarrow> write_page_maybe_encrypted E draw pre c (w_cipher w) (w_segment_id w) = Inr (pre @ body, n)"
    by blast
  have "reads_page E w (length out) body (length out) c"
    unfolding reads_page_def
  proof (intro allI impI)
    fix pre rest :: bytes and verify
    assume p: "length pre = length out"
    have "read_page_maybe_encrypted E ((pre @ body) @ rest) (length pre) verify (w_cipher w) (w_segment_id w)
        = Inr \<lparr>page_column = page_shape c, page_rows = column_len c\<rparr>"
      using w assms(2,3) wr(2) body(2)[OF p] by (intro read_written_page) (auto simp: writer_ok_def)
    then show "read_page_maybe_encrypted E (pre @ body @ rest) (length out) verify (w_cipher w) (w_segment_id w)
        = Inr \<lparr>page_column = page_shape c, page_rows = column_len c\<rparr>" using p by simp
  qed
  then show ?thesis using body(1) by blast
qed

lemma write_one_index_reads:
  assumes w: "writer_ok E draws w" and "index_ok i" "index_fits i" and "write_one_index E draws w out i = Inr out'"
  shows "\<exists>body. out' = out @ body \<and> reads_index E w (length out) body (length out) i"
proof -
  obtain draw n where wr: "write_index_maybe_encrypted E draw out i (w_cipher w) (w_segment_id w) = Inr (out', n)" "draw_ok draw"
  proof (cases "w_cipher w")
    case None
    have "write_index_maybe_encrypted E None out i None (w_segment_id w) = Inr (out', length out' - length out)"
      using assms(4) None by (auto simp: write_one_index_def write_index_def write_index_maybe_encrypted_def Let_def)
    then show ?thesis using that[of None] None by (simp add: draw_ok_def)
  next
    case (Some k)
    then show ?thesis
      using that[of "draws (length out)"] assms(4) w by (auto simp: write_one_index_def writer_ok_def split: sum.splits)
  qed
  from index_prefix[OF wr(1)] obtain body where body: "out' = out @ body"
      "\<And>pre. length pre = length out \<Longrightarrow> write_index_maybe_encrypted E draw pre i (w_cipher w) (w_segment_id w) = Inr (pre @ body, n)"
    by blast
  have "reads_index E w (length out) body (length out) i"
    unfolding reads_index_def
  proof (intro allI impI)
    fix pre rest :: bytes and verify
    assume p: "length pre = length out"
    have "read_index_maybe_encrypted E ((pre @ body) @ rest) (length pre) verify (w_cipher w) (w_segment_id w) = Inr i"
      using w assms(2,3) wr(2) body(2)[OF p] by (intro read_written_index(1)) (auto simp: writer_ok_def)
    then show "read_index_maybe_encrypted E (pre @ body @ rest) (length out) verify (w_cipher w) (w_segment_id w) = Inr i"
      using p by simp
  qed
  then show ?thesis using body(1) by blast
qed

section \<open>What the writer leaves behind\<close>

definition page_read :: "externs \<Rightarrow> segment_writer \<Rightarrow> nat \<Rightarrow> bytes \<Rightarrow> page_ref \<Rightarrow> column \<Rightarrow> bool" where
  "page_read E w base body r c \<longleftrightarrow> reads_page E w base body (unat (ref_offset r)) c"

lemma page_read_mono:
  "page_read E w (base + length before) body r c \<Longrightarrow> page_read E w base (before @ body @ rest) r c"
  unfolding page_read_def using reads_page_before[of E w base before "body @ rest"] reads_page_after by blast

lemma write_pieces_reads:
  assumes w: "writer_ok E draws w"
  shows "list_all column_ok ps \<Longrightarrow> list_all page_fits ps \<Longrightarrow> write_pieces E draws w ps out refs = Inr (out', refs') \<Longrightarrow> length out' < 2 ^ 64 \<Longrightarrow>
    \<exists>body rs. out' = out @ body \<and> refs' = refs @ rs \<and> list_all2 (page_read E w (length out) body) rs ps"
proof (induction ps arbitrary: out refs)
  case (Cons p ps)
  obtain out1 where o1: "write_piece E draws w out p = Inr out1"
      "write_pieces E draws w ps out1 (refs @ [\<lparr>ref_offset = word_of_nat (length out), ref_rows = word_of_nat (column_len p)\<rparr>]) = Inr (out', refs')"
    using Cons.prems(3) by (auto simp: and_then_Inr_conv)
  obtain b1 where b1: "out1 = out @ b1" "reads_page E w (length out) b1 (length out) p"
    using write_piece_reads[OF w _ _ o1(1)] Cons.prems(1,2) by auto
  obtain body rs where ih: "out' = out1 @ body"
      "refs' = (refs @ [\<lparr>ref_offset = word_of_nat (length out), ref_rows = word_of_nat (column_len p)\<rparr>]) @ rs"
      "list_all2 (page_read E w (length out1) body) rs ps"
    using Cons.IH[OF _ _ o1(2)] Cons.prems(1,2,4) by auto
  have "unat (word_of_nat (length out) :: u64) = length out"
    using Cons.prems(4) ih(1) b1(1) by (simp add: unat_of_nat)
  then have "page_read E w (length out) (b1 @ body) \<lparr>ref_offset = word_of_nat (length out), ref_rows = word_of_nat (column_len p)\<rparr> p"
    using b1(2) reads_page_after by (simp add: page_read_def)
  moreover have "list_all2 (page_read E w (length out) (b1 @ body)) rs ps"
    using ih(3) page_read_mono[of E w "length out" b1 body _ _ "[]"] by (auto simp: b1(1) elim!: list_all2_mono)
  ultimately show ?case using ih b1(1) by auto
qed auto

definition column_read :: "externs \<Rightarrow> segment_writer \<Rightarrow> nat \<Rightarrow> bytes \<Rightarrow> page_ref list \<Rightarrow> column \<Rightarrow> bool" where
  "column_read E w base body refs c \<longleftrightarrow> (\<exists>ps. slices c 0 ps \<and> list_all2 (page_read E w base body) refs ps)"

lemma column_read_mono:
  "column_read E w (base + length before) body refs c \<Longrightarrow> column_read E w base (before @ body @ rest) refs c"
  unfolding column_read_def using page_read_mono by (metis (no_types, lifting) list_all2_mono)

definition columns_read :: "externs \<Rightarrow> segment_writer \<Rightarrow> nat \<Rightarrow> bytes \<Rightarrow> (bytes \<times> page_ref list) list \<Rightarrow> (bytes \<times> column) list \<Rightarrow> bool" where
  "columns_read E w base body = list_all2 (\<lambda>(n, refs) (n', c). n = n' \<and> column_read E w base body refs c)"

lemma columns_read_mono:
  "columns_read E w (base + length before) body ps ncs \<Longrightarrow> columns_read E w base (before @ body @ rest) ps ncs"
  unfolding columns_read_def by (erule list_all2_mono) (auto simp: column_read_mono)

lemma columns_read_names: "columns_read E w base body ps ncs \<Longrightarrow> map fst ps = map fst ncs"
  unfolding columns_read_def by (induction rule: list_all2_induct) auto

definition pages_fit :: "externs \<Rightarrow> segment_writer \<Rightarrow> column \<Rightarrow> bool" where
  "pages_fit E w c \<longleftrightarrow> list_all page_fits (split_into_pages rows_that_fit E c (w_page_target_bytes w))"

lemma write_columns_reads:
  assumes w: "writer_ok E draws w"
  shows "\<forall>(n, c)\<in>set ncs. column_ok c \<and> pages_fit E w c \<Longrightarrow>
    write_columns E draws w ncs out count pages = Inr (out', count', pages') \<Longrightarrow> length out' < 2 ^ 64 \<Longrightarrow>
    \<exists>body ps. out' = out @ body \<and> pages' = foldl (\<lambda>m (n, r). bt_insert n r m) pages ps \<and> columns_read E w (length out) body ps ncs"
proof (induction ncs arbitrary: out count pages)
  case Nil
  then show ?case by (simp add: columns_read_def)
next
  case (Cons x ncs)
  obtain n c where x: "x = (n, c)" by fastforce
  let ?ps = "split_into_pages rows_that_fit E c (w_page_target_bytes w)"
  obtain out1 refs where o1: "write_pieces E draws w ?ps out [] = Inr (out1, refs)"
      "write_columns E draws w ncs out1 (count + word_of_nat (column_len c)) (bt_insert n refs pages) = Inr (out', count', pages')"
    using Cons.prems(2) by (auto simp: x and_then_Inr_conv)
  obtain body ps where ih: "out' = out1 @ body" "pages' = foldl (\<lambda>m (n, r). bt_insert n r m) (bt_insert n refs pages) ps"
      "columns_read E w (length out1) body ps ncs"
    using Cons.IH[OF _ o1(2)] Cons.prems(1,3) by auto
  have sl: "slices c 0 ?ps" by (rule split_into_pages_slices)
  obtain b1 where b1: "out1 = out @ b1" "list_all2 (page_read E w (length out) b1) refs ?ps"
    using write_pieces_reads[OF w slices_ok[OF sl] _ o1(1)] Cons.prems(1,3) ih(1) by (auto simp: x pages_fit_def)
  have "column_read E w (length out) b1 refs c" using sl b1(2) by (auto simp: column_read_def)
  then have "column_read E w (length out) (b1 @ body) refs c" using column_read_mono[of E w "length out" "[]" b1 refs c body] by simp
  moreover have "columns_read E w (length out) (b1 @ body) ps ncs"
    using columns_read_mono[of E w "length out" b1 body ps ncs "[]"] ih(3) b1(1) by simp
  ultimately have "columns_read E w (length out) (b1 @ body) ((n, refs) # ps) (x # ncs)" by (simp add: columns_read_def x)
  then show ?case using ih(1,2) b1(1) by (intro exI[of _ "b1 @ body"] exI[of _ "(n, refs) # ps"]) simp
qed

definition group_read :: "externs \<Rightarrow> (f64 \<Rightarrow> bytes) \<Rightarrow> segment_writer \<Rightarrow> nat \<Rightarrow> bytes \<Rightarrow> row_group \<Rightarrow> event_row list \<Rightarrow> bool" where
  "group_read E show_f64 w base body g rows \<longleftrightarrow>
     g_rows g = word_of_nat (length rows) \<and> columns_read E w base body (g_pages g) (table show_f64 rows)"

lemma group_read_mono:
  "group_read E show_f64 w (base + length before) body g rows \<Longrightarrow> group_read E show_f64 w base (before @ body @ rest) g rows"
  by (simp add: group_read_def columns_read_mono)

definition group_fits :: "externs \<Rightarrow> (f64 \<Rightarrow> bytes) \<Rightarrow> segment_writer \<Rightarrow> event_row list \<Rightarrow> bool" where
  "group_fits E show_f64 w rows \<longleftrightarrow> (\<forall>(n, c)\<in>set (table show_f64 rows). column_ok c \<and> pages_fit E w c)"

lemma write_groups_reads:
  assumes w: "writer_ok E draws w"
  shows "list_all (group_fits E show_f64 w) groups \<Longrightarrow>
    write_groups E show_f64 draws w groups out first_row count row_groups = Inr (out', count', row_groups') \<Longrightarrow> length out' < 2 ^ 64 \<Longrightarrow>
    \<exists>body gs. out' = out @ body \<and> row_groups' = row_groups @ gs \<and> list_all2 (group_read E show_f64 w (length out) body) gs groups"
proof (induction groups arbitrary: out first_row count row_groups)
  case (Cons rows groups)
  obtain out1 count1 pages where o1: "write_columns E draws w (table show_f64 rows) out count [] = Inr (out1, count1, pages)"
      "write_groups E show_f64 draws w groups out1 (first_row + word_of_nat (length rows)) count1
         (row_groups @ [\<lparr>g_first_row = first_row, g_rows = word_of_nat (length rows), g_pages = pages\<rparr>]) = Inr (out', count', row_groups')"
    using Cons.prems(2) by (auto simp: and_then_Inr_conv table_def)
  obtain body gs where ih: "out' = out1 @ body"
      "row_groups' = (row_groups @ [\<lparr>g_first_row = first_row, g_rows = word_of_nat (length rows), g_pages = pages\<rparr>]) @ gs"
      "list_all2 (group_read E show_f64 w (length out1) body) gs groups"
    using Cons.IH[OF _ o1(2)] Cons.prems(1,3) by auto
  have len: "length out1 < 2 ^ 64" using ih(1) Cons.prems(3) by simp
  have fits: "\<forall>(n, c)\<in>set (table show_f64 rows). column_ok c \<and> pages_fit E w c" using Cons.prems(1) by (simp add: group_fits_def)
  obtain b1 ps where b1: "out1 = out @ b1" "pages = foldl (\<lambda>m (n, r). bt_insert n r m) [] ps"
      "columns_read E w (length out) b1 ps (table show_f64 rows)"
    using write_columns_reads[OF w fits o1(1) len] by auto
  have "bt_ok ps" using columns_read_names[OF b1(3)] table_ok[of show_f64 rows] by (simp add: columns_ok_def bt_ok_def)
  then have "pages = ps" using b1(2) foldl_insert_id by simp
  then have "group_read E show_f64 w (length out) b1 \<lparr>g_first_row = first_row, g_rows = word_of_nat (length rows), g_pages = pages\<rparr> rows"
    using b1(3) by (simp add: group_read_def)
  then have "group_read E show_f64 w (length out) (b1 @ body) \<lparr>g_first_row = first_row, g_rows = word_of_nat (length rows), g_pages = pages\<rparr> rows"
    using group_read_mono[of E show_f64 w "length out" "[]" b1 _ rows body] by simp
  moreover have "list_all2 (group_read E show_f64 w (length out) (b1 @ body)) gs groups"
    using ih(3) group_read_mono[of E show_f64 w "length out" b1 body _ _ "[]"] by (auto simp: b1(1) elim!: list_all2_mono)
  ultimately show ?case using ih b1(1) by auto
qed auto

definition indexes_read ::
  "externs \<Rightarrow> segment_writer \<Rightarrow> nat \<Rightarrow> bytes \<Rightarrow> (bytes \<times> u64 \<times> index_layout) list \<Rightarrow> (bytes \<times> column_index) list \<Rightarrow> bool" where
  "indexes_read E w base body = list_all2 (\<lambda>(n, off, l) (n', i). n = n' \<and> l = layout i \<and> reads_index E w base body (unat off) i)"

lemma indexes_read_mono:
  "indexes_read E w (base + length before) body ofs is \<Longrightarrow> indexes_read E w base (before @ body @ rest) ofs is"
  unfolding indexes_read_def
  using reads_index_before[of E w base before "body @ rest"] reads_index_after
  by (elim list_all2_mono) auto

lemma indexes_read_names: "indexes_read E w base body ofs is \<Longrightarrow> map fst ofs = map fst is"
  unfolding indexes_read_def by (induction rule: list_all2_induct) auto

lemma write_indexes_reads:
  assumes w: "writer_ok E draws w"
  shows "\<forall>(n, i)\<in>set is. index_ok i \<and> index_fits i \<Longrightarrow>
    write_indexes E draws w is out offsets = Inr (out', offsets') \<Longrightarrow> length out' < 2 ^ 64 \<Longrightarrow>
    \<exists>body ofs. out' = out @ body \<and> offsets' = foldl (\<lambda>m (n, x). bt_insert n x m) offsets ofs \<and> indexes_read E w (length out) body ofs is"
proof (induction "is" arbitrary: out offsets)
  case Nil
  then show ?case by (simp add: indexes_read_def)
next
  case (Cons x "is")
  obtain n i where x: "x = (n, i)" by fastforce
  let ?o = "(word_of_nat (length out) :: u64, layout i)"
  obtain out1 where o1: "write_one_index E draws w out i = Inr out1"
      "write_indexes E draws w is out1 (bt_insert n ?o offsets) = Inr (out', offsets')"
    using Cons.prems(2) by (auto simp: x and_then_Inr_conv)
  obtain body ofs where ih: "out' = out1 @ body" "offsets' = foldl (\<lambda>m (n, x). bt_insert n x m) (bt_insert n ?o offsets) ofs"
      "indexes_read E w (length out1) body ofs is"
    using Cons.IH[OF _ o1(2)] Cons.prems(1,3) by auto
  obtain b1 where b1: "out1 = out @ b1" "reads_index E w (length out) b1 (length out) i"
    using write_one_index_reads[OF w _ _ o1(1)] Cons.prems(1) by (auto simp: x)
  have "unat (word_of_nat (length out) :: u64) = length out"
    using Cons.prems(3) ih(1) b1(1) by (simp add: unat_of_nat)
  then have "reads_index E w (length out) (b1 @ body) (unat (fst ?o)) i" using b1(2) reads_index_after by simp
  moreover have "indexes_read E w (length out) (b1 @ body) ofs is"
    using indexes_read_mono[of E w "length out" b1 body ofs "is" "[]"] ih(3) b1(1) by simp
  ultimately have "indexes_read E w (length out) (b1 @ body) ((n, ?o) # ofs) (x # is)" by (simp add: indexes_read_def x)
  then show ?case using ih(1,2) b1(1) by (intro exI[of _ "b1 @ body"] exI[of _ "(n, ?o) # ofs"]) simp
qed

section \<open>The columns a group of rows has\<close>

text \<open>What the Rust types promise of a row, as far as the file needs it.\<close>

fun value_typed :: "property_value \<Rightarrow> bool" where
  "value_typed (PDecimal v) = text_ok v"
| "value_typed (PText v) = text_ok v"
| "value_typed (PBytes v) = (length v < 2 ^ 63)"
| "value_typed _ = True"

definition row_typed :: "event_row \<Rightarrow> bool" where
  "row_typed row \<longleftrightarrow>
     length (event_id row) = 16 \<and> length (batch_id row) = 16 \<and> length (source_id row) = 16
     \<and> text_ok (ev_kind row) \<and> text_ok (ev_name row)
     \<and> pred_option text_ok (session_id row) \<and> pred_option text_ok (request_id row)
     \<and> pred_option (\<lambda>t. length t = 16) (trace_id row)
     \<and> pred_option text_ok (service_name row) \<and> pred_option text_ok (release row)
     \<and> bt_ok (properties row)
     \<and> (\<forall>(k, v, origin)\<in>set (properties row). utf8_valid k \<and> length k < 2 ^ 60 \<and> value_typed v \<and> text_ok origin)"

lemma row_typed_property:
  "row_typed row \<Longrightarrow> bt_get (properties row) key = Some (v, p) \<Longrightarrow> utf8_valid key \<and> length key < 2 ^ 60 \<and> value_typed v \<and> text_ok p"
  using map_of_SomeD[of "properties row" key "(v, p)"] by (auto simp: row_typed_def)

lemma property_keys_sound:
  "fst ` set (property_keys rows) = (\<Union>row\<in>set rows. fst ` set (properties row))"
proof -
  have a: "fst ` set (foldl note_type m ps) = fst ` set m \<union> fst ` set ps" for m ps
  proof (induction ps arbitrary: m)
    case (Cons x ps)
    have "fst ` set (note_type m x) = insert (fst x) (fst ` set m)"
      by (simp add: note_type_def fst_set_bt_insert case_prod_beta')
    then show ?case by (simp add: Cons.IH)
  qed simp
  have "fst ` set (foldl (\<lambda>m row. foldl note_type m (properties row)) m rows) = fst ` set m \<union> (\<Union>row\<in>set rows. fst ` set (properties row))" for m
    by (induction rows arbitrary: m) (auto simp: a)
  then show ?thesis by (simp add: property_keys_def)
qed

lemma table_entry:
  assumes "(n, c) \<in> set (table show_f64 rows)"
  obtains (envelope) "envelope_name n" and "bt_get (envelope_columns rows) n = Some c"
    | (property) key s row where "n = property_column key s" and "length s = 2" and "c = expected_column show_f64 rows key s"
        and "row \<in> set rows" and "key \<in> fst ` set (properties row)" and "s \<in> {TYPE_SUFFIX, ORIGIN_SUFFIX} \<union> range value_suffix"
proof -
  have ok: "columns_ok show_f64 rows (table show_f64 rows)" by (rule table_ok)
  have got: "bt_get (table show_f64 rows) n = Some c"
    using assms ok by (simp add: columns_ok_def bt_get_eq_Some)
  show thesis
  proof (cases "envelope_name n")
    case True
    then show thesis using envelope got table_envelope[of n show_f64 rows] by simp
  next
    case False
    have "n \<in> dom (bt_get (table show_f64 rows))" using got by auto
    moreover have "n \<notin> dom (bt_get (envelope_columns rows))"
    proof -
      have "bt_get (envelope_columns rows) n = None"
        using False envelope_names by (auto simp: envelope_columns_def)
      then show ?thesis by auto
    qed
    ultimately obtain key types where k: "(key, types) \<in> set (property_keys rows)"
        "n \<in> property_column key ` ({TYPE_SUFFIX, ORIGIN_SUFFIX} \<union> value_suffix ` set types)"
      unfolding table_def to_columns_def columns.simps add_all_property_columns(2)[OF envelope_columns_ok] by blast
    then obtain s where s: "n = property_column key s" "s \<in> {TYPE_SUFFIX, ORIGIN_SUFFIX} \<union> range value_suffix" by blast
    then have len: "length s = 2" by auto
    have "key \<in> fst ` set (property_keys rows)" using k(1) by force
    then obtain row where "row \<in> set rows" "key \<in> fst ` set (properties row)" unfolding property_keys_sound by blast
    moreover have "c = expected_column show_f64 rows key s"
      using ok got len s(1) unfolding columns_ok_def by blast
    ultimately show thesis using property s len by blast
  qed
qed

lemma envelope_column_cases:
  assumes "bt_get (envelope_columns rows) n = Some c"
  obtains (ids) f where "c = Identifiers (map f rows)" and "f \<in> {event_id, batch_id, source_id, \<lambda>r. case trace_id r of Some t \<Rightarrow> t | None \<Rightarrow> replicate 16 0}"
    | (texts) f where "c = column.Text (map f rows)"
        and "f \<in> {session_id, request_id, service_name, release, \<lambda>r. Some (ev_kind r), \<lambda>r. Some (ev_name r)}"
    | (times) f where "c = Timestamps (map f rows)"
  using assms unfolding envelope_columns_def bt_get_insert
  by (simp split: if_splits) (blast+)?

lemma row_typed_ids:
  assumes "row_typed r" and "f \<in> {event_id, batch_id, source_id, \<lambda>r. case trace_id r of Some t \<Rightarrow> t | None \<Rightarrow> replicate 16 0}"
  shows "length (f r) = 16"
proof -
  have "length (event_id r) = 16" "length (batch_id r) = 16" "length (source_id r) = 16"
    "length (case trace_id r of Some t \<Rightarrow> t | None \<Rightarrow> replicate 16 0) = 16"
    using assms(1) unfolding row_typed_def by (cases "trace_id r"; simp)+
  then show ?thesis using assms(2) by blast
qed

lemma row_typed_texts:
  assumes "row_typed r" and "f \<in> {session_id, request_id, service_name, release, \<lambda>r. Some (ev_kind r), \<lambda>r. Some (ev_name r)}"
  shows "pred_option text_ok (f r)"
proof -
  have "pred_option text_ok (session_id r)" "pred_option text_ok (request_id r)" "pred_option text_ok (service_name r)"
    "pred_option text_ok (release r)" "pred_option text_ok (Some (ev_kind r))" "pred_option text_ok (Some (ev_name r))"
    using assms(1) unfolding row_typed_def by simp_all
  then show ?thesis using assms(2) by blast
qed

lemma envelope_column_ok:
  assumes "bt_get (envelope_columns rows) n = Some c" and "list_all row_typed rows"
  shows "column_ok c" "column_len c = length rows" "same_column c (page_shape c)"
proof -
  have typed: "row_typed r" if "r \<in> set rows" for r using assms(2) that by (simp add: list_all_iff)
  show "column_ok c"
    using assms(1)
  proof (cases rule: envelope_column_cases)
    case (ids f)
    have "length (f r) = 16" if "r \<in> set rows" for r
      using row_typed_ids[OF typed[OF that] ids(2)] .
    then show ?thesis using ids(1) by simp
  next
    case (texts f)
    have t: "pred_option text_ok (f r)" if "r \<in> set rows" for r
      using row_typed_texts[OF typed[OF that] texts(2)] .
    have "utf8_valid b" if mem: "Some b \<in> set (map f rows)" for b
    proof -
      obtain r where "r \<in> set rows" "Some b = f r" using mem unfolding set_map image_iff by blast
      then show ?thesis using t[of r] by (simp add: text_ok_def flip: \<open>Some b = f r\<close>)
    qed
    then show ?thesis using texts(1) by (simp del: set_map)
  qed simp
  show "column_len c = length rows"
    using assms(1) by (cases rule: envelope_column_cases) simp_all
  show "same_column c (page_shape c)"
    using assms(1) by (cases rule: envelope_column_cases) (simp_all add: same_column_def)
qed


lemma utf8_append: "utf8_valid a \<Longrightarrow> utf8_valid b \<Longrightarrow> utf8_valid (a @ b)"
proof (induction a rule: length_induct)
  case (1 a)
  have ih: "utf8_valid (xs @ b)" if "utf8_valid xs" "length xs < length a" for xs
    using 1 that by blast
  show ?case
  proof (cases a)
    case (Cons x bs)
    show ?thesis
    proof (cases "x \<le> 0x7F")
      case True
      then show ?thesis using 1(2) ih[of bs] by (simp add: Cons utf8_valid.simps)
    next
      case x: False
      then obtain y cs where bs: "bs = y # cs" using 1(2) Cons by (cases bs) (auto simp: utf8_valid.simps)
      show ?thesis
      proof (cases "0xC2 \<le> x \<and> x \<le> 0xDF")
        case True
        then show ?thesis using x 1(2) ih[of cs] by (simp add: Cons bs utf8_valid.simps)
      next
        case y: False
        then obtain z ds where cs: "cs = z # ds" using x 1(2) Cons bs by (cases cs) (auto simp: utf8_valid.simps)
        show ?thesis
        proof (cases "0xE0 \<le> x \<and> x \<le> 0xEF")
          case True
          then show ?thesis
            using 1(2) ih[of ds] unfolding Cons bs cs append_Cons utf8_valid.simps(2)[of x] if_not_P[OF x] list.case if_not_P[OF y] if_P[OF True]
            by simp
        next
          case z: False
          then obtain w es where ds: "ds = w # es" using x y 1(2) Cons bs cs by (cases ds) (auto simp: utf8_valid.simps)
          show ?thesis
            using 1(2) ih[of es]
            unfolding Cons bs cs ds append_Cons utf8_valid.simps(2)[of x] if_not_P[OF x] list.case if_not_P[OF y] if_not_P[OF z]
            by simp
        qed
      qed
    qed
  qed (use 1 in simp)
qed

lemma display_typed: "value_typed v \<Longrightarrow> (\<And>f. v \<noteq> PFloat f) \<Longrightarrow> utf8_valid (to_display show_f64 v)"
  using display_text_ok[of show_f64 v] by (cases v) (auto simp: text_ok_def)

lemma stored_at_Some:
  "stored_at key s row = Some v \<Longrightarrow> \<exists>p. bt_get (properties row) key = Some (v, p) \<and> value_suffix (type_name v) = s"
  by (auto simp: stored_at_def split: option.splits if_splits)

lemma stored_text_utf8:
  assumes "row_typed row" and "s \<notin> {lit '':b'', lit '':i'', lit '':u'', lit '':f''}" and "stored_at key s row = Some v"
  shows "utf8_valid (to_display show_f64 v)"
proof (rule display_typed)
  show "value_typed v" using stored_at_Some[OF assms(3)] row_typed_property[OF assms(1)] by blast
  show "v \<noteq> PFloat f" for f
    using stored_at_Some[OF assms(3)] assms(2) by (auto simp: value_suffix_def lit_def)
qed

lemma type_column_utf8: "property_type_at key row = Some b \<Longrightarrow> utf8_valid b"
  using type_name_text_ok by (auto simp: property_type_at_def text_ok_def)

lemma origin_column_utf8: "row_typed row \<Longrightarrow> origin_at key row = Some b \<Longrightarrow> utf8_valid b"
  using row_typed_property by (fastforce simp: origin_at_def text_ok_def)

lemma text_column_ok: "(\<And>r b. r \<in> set rows \<Longrightarrow> f r = Some b \<Longrightarrow> utf8_valid b) \<Longrightarrow> column_ok (column.Text (map f rows))"
  by (auto simp: image_iff dest: sym)

lemma expected_column_ok:
  assumes "list_all row_typed rows"
  shows "column_ok (expected_column show_f64 rows key s)"
proof -
  have typed: "row_typed r" if "r \<in> set rows" for r using assms that by (simp add: list_all_iff)
  have "column_ok (column.Text (map (\<lambda>r. map_option (to_display show_f64) (stored_at key s r)) rows))"
    if "s \<notin> {lit '':b'', lit '':i'', lit '':u'', lit '':f''}"
    using stored_text_utf8[OF typed that] by (intro text_column_ok) auto
  moreover have "column_ok (column.Text (map (property_type_at key) rows))"
    using type_column_utf8 by (intro text_column_ok) auto
  moreover have "column_ok (column.Text (map (origin_at key) rows))"
    using origin_column_utf8[OF typed] by (intro text_column_ok) auto
  ultimately show ?thesis
    unfolding expected_column_def value_column_def by (simp add: comp_def del: column_ok.simps(2))
qed

lemma expected_column_shape:
  assumes "rows \<noteq> []"
  shows "column_len (expected_column show_f64 rows key s) = length rows"
    "same_column (expected_column show_f64 rows key s) (page_shape (expected_column show_f64 rows key s))"
proof -
  show "column_len (expected_column show_f64 rows key s) = length rows"
    by (simp add: expected_column_def value_column_def)
  obtain r rs where "rows = r # rs" using assms by (cases rows) auto
  then show "same_column (expected_column show_f64 rows key s) (page_shape (expected_column show_f64 rows key s))"
    by (simp add: expected_column_def value_column_def same_column_def)
qed

lemma table_column_ok:
  assumes "(n, c) \<in> set (table show_f64 rows)" and "list_all row_typed rows"
  shows "column_ok c"
  using assms(1) by (cases rule: table_entry) (auto simp: envelope_column_ok(1) expected_column_ok assms(2))

lemma table_column_shape:
  assumes "(n, c) \<in> set (table show_f64 rows)" and "list_all row_typed rows" and "rows \<noteq> []"
  shows "column_len c = length rows \<and> same_column c (page_shape c)"
  using assms(1) by (cases rule: table_entry) (auto simp: envelope_column_ok(2,3)[OF _ assms(2)] expected_column_shape assms(3))

lemma table_name_ok:
  assumes "(n, c) \<in> set (table show_f64 rows)" and "list_all row_typed rows"
  shows "text_ok n"
  using assms(1)
proof (cases rule: table_entry)
  case envelope
  have "n \<in> {EVENT_ID, BATCH_ID, SOURCE_ID, KIND, NAME, OCCURRED_AT, RECEIVED_AT, COMMITTED_AT, SESSION_ID, REQUEST_ID, TRACE_ID, SERVICE_NAME, RELEASE}"
    using envelope(2) by (auto simp: envelope_columns_def split: if_splits)
  then show ?thesis by (auto simp: column_names key_ok)
next
  case (property key s row)
  then obtain v p where "(key, v, p) \<in> set (properties row)" by auto
  then have "utf8_valid key" "length key < 2 ^ 60"
    using assms(2) property(4) by (fastforce simp: list_all_iff row_typed_def)+
  moreover have "utf8_valid s" "utf8_valid PROPERTY_PREFIX" "length PROPERTY_PREFIX = 2"
    using property(6)
    by (auto simp: TYPE_SUFFIX_def ORIGIN_SUFFIX_def value_suffix_def PROPERTY_PREFIX_def lit_def utf8_valid.simps)
  ultimately show ?thesis
    using property(1,2) by (auto simp: text_ok_def property_column_def intro!: utf8_append)
qed

section \<open>Reading the groups back\<close>

definition reads_file :: "segment_writer \<Rightarrow> nat \<Rightarrow> bytes \<Rightarrow> segment \<Rightarrow> bool" where
  "reads_file w base body s \<longleftrightarrow> (\<exists>pre rest. length pre = base \<and> sg_bytes s = pre @ body @ rest)
     \<and> sg_cipher s = w_cipher w \<and> h_segment_id (sg_header s) = w_segment_id w"

lemma page_read_file:
  "reads_file w base body s \<Longrightarrow> page_read E w base body r c \<Longrightarrow>
   read_page_maybe_encrypted E (sg_bytes s) (unat (ref_offset r)) verify (sg_cipher s) (h_segment_id (sg_header s))
     = Inr \<lparr>page_column = page_shape c, page_rows = column_len c\<rparr>"
  by (auto simp: reads_file_def page_read_def reads_page_def)

lemma merge_pages_reads:
  assumes "reads_file w base body s"
  shows "slices c start ps \<Longrightarrow> list_all2 (page_read E w base body) refs ps \<Longrightarrow> start \<le> column_len c \<Longrightarrow>
    merge_pages E s verify refs (if start = 0 then None else Some (page_shape (column_slice c 0 start)))
      = Inr (if column_len c = 0 then None else Some (page_shape c))"
proof (induction ps arbitrary: start refs)
  case Nil
  then show ?case using column_slice_all[of c] by auto
next
  case (Cons p ps)
  obtain fin where fin: "start < fin" "fin \<le> column_len c" "p = column_slice c start fin" "slices c fin ps"
    using Cons.prems(1) by auto
  obtain r rs where refs: "refs = r # rs" "page_read E w base body r p" "list_all2 (page_read E w base body) rs ps"
    using Cons.prems(2) by (auto simp: list_all2_Cons2)
  have "(case (if start = 0 then None else Some (page_shape (column_slice c 0 start))) of
      None \<Rightarrow> Inr (page_shape p) | Some d \<Rightarrow> append_columns d (page_shape p)) = Inr (page_shape (column_slice c 0 fin))"
    using append_slices[of 0 start fin c] fin by auto
  then show ?case
    using Cons.IH[OF fin(4) refs(3) fin(2)] page_read_file[OF assms refs(2)] fin(1) by (simp add: refs(1) split: if_splits)
qed

lemma group_columns_reads:
  assumes "reads_file w base body s"
  shows "columns_read E w base body ps ncs \<Longrightarrow> \<forall>(n, c)\<in>set ncs. 0 < column_len c \<Longrightarrow>
    group_columns E s verify ps m = Inr (foldl (\<lambda>m (n, c). bt_insert n c m) m (map (\<lambda>(n, c). (n, page_shape c)) ncs))"
proof (induction ncs arbitrary: ps m)
  case Nil
  then show ?case by (simp add: columns_read_def)
next
  case (Cons x ncs)
  obtain n c where x: "x = (n, c)" by fastforce
  obtain refs qs where ps: "ps = (n, refs) # qs" "column_read E w base body refs c" "columns_read E w base body qs ncs"
    using Cons.prems(1) by (auto simp: columns_read_def x list_all2_Cons2)
  obtain pieces where "slices c 0 pieces" "list_all2 (page_read E w base body) refs pieces" using ps(2) by (auto simp: column_read_def)
  from merge_pages_reads[OF assms this, where verify = verify] have "merge_pages E s verify refs None = Inr (Some (page_shape c))"
    using Cons.prems(2) by (simp add: x)
  then show ?case using Cons.IH[OF ps(3)] Cons.prems(2) by (simp add: ps(1) x)
qed

lemma row_group_reads:
  assumes s: "reads_file w base body s" and g: "group_read E show_f64 w base body g rows"
    and rows: "rows \<noteq> []" "length rows < 2 ^ 64" "list_all row_typed rows"
  shows "row_group_rows E s verify g = Inr (map (stored_row (h_workspace_id (sg_header s)) (h_project_id (sg_header s))) rows)"
proof -
  let ?m = "map (\<lambda>(n, c). (n, page_shape c)) (table show_f64 rows)"
  have shape: "\<forall>(n, c)\<in>set (table show_f64 rows). column_len c = length rows \<and> same_column c (page_shape c)"
    using table_column_shape[OF _ rows(3,1)] by blast
  have "bt_ok ?m" using table_ok[of show_f64 rows] by (simp add: columns_ok_def)
  moreover have "\<forall>(n, c)\<in>set (table show_f64 rows). 0 < column_len c" using shape rows(1) by auto
  ultimately have cols: "group_columns E s verify (g_pages g) [] = Inr ?m"
    using group_columns_reads[OF s, of E "g_pages g" "table show_f64 rows" verify "[]"] g foldl_insert_id[of ?m]
    by (simp add: group_read_def)
  have "same_table (table show_f64 rows) ?m"
    using shape by (auto simp: same_table_def list_all2_conv_all_nth dest!: bspec[OF _ nth_mem] split: prod.splits)
  moreover have "\<forall>r\<in>set rows. bt_ok (properties r)" using rows(3) by (simp add: list_all_iff row_typed_def)
  ultimately have "to_rows ?m (length rows) (h_workspace_id (sg_header s)) (h_project_id (sg_header s))
      = Inr (map (stored_row (h_workspace_id (sg_header s)) (h_project_id (sg_header s))) rows)"
    by (rule to_rows_table)
  then show ?thesis
    using cols g rows(2) by (simp add: row_group_rows_def group_read_def unat_of_nat)
qed

end
