(* ===== verification/Segment_Round_Trip.thy ===== *)
theory Segment_Round_Trip
  imports Segment_Parts "HOL-Library.Code_Target_Nat"
begin

text \<open>
  What a segment file keeps: the layout of the bytes, opening the file that was written,
  the rows and the indexes it gives back, the only way a write fails, and how long a
  file gets.
\<close>

section \<open>The layout of a file\<close>

definition file_trailer :: "externs \<Rightarrow> nat \<Rightarrow> bytes \<Rightarrow> bytes" where
  "file_trailer E offset footer_bytes =
     put_u64 [] (word_of_nat offset) @ put_u32 [] (word_of_nat (length footer_bytes)) @ put_u64 [] (page_checksum E footer_bytes)
     @ put_u32 [] (ucast FORMAT_MINOR) @ TRAILER_MAGIC"

definition file_prologue :: "nat \<Rightarrow> nat \<Rightarrow> bytes \<Rightarrow> bytes" where
  "file_prologue header_length offset address =
     MAGIC @ put_u16 [] FORMAT_MAJOR @ put_u16 [] FORMAT_MINOR @ put_u32 [] (word_of_nat header_length) @ put_u64 [] 64
     @ put_u64 [] (word_of_nat offset) @ address"

definition file_of :: "externs \<Rightarrow> (bytes \<Rightarrow> bytes) \<Rightarrow> nat \<Rightarrow> bytes \<Rightarrow> bytes \<Rightarrow> bytes \<Rightarrow> bytes" where
  "file_of E blake3 offset header body footer_bytes =
     file_prologue (length header) offset (blake3 (header @ body @ footer_bytes @ file_trailer E offset footer_bytes))
     @ header @ body @ footer_bytes @ file_trailer E offset footer_bytes"

lemma patch_at: "length b = length b' \<Longrightarrow> at = length a \<Longrightarrow> patch (a @ b @ c) at b' = a @ b' @ c"
  by (simp add: patch_def)

lemma drop_both: "length x = 32 \<Longrightarrow> drop 64 (x @ replicate 32 y @ r) = r"
  by simp

lemma length_MAGIC [simp]: "length MAGIC = 8" "length TRAILER_MAGIC = 8"
  by (simp_all add: MAGIC_def TRAILER_MAGIC_def lit_def)

lemma length_file_trailer [simp]: "length (file_trailer E offset fb) = 32"
  by (simp add: file_trailer_def)

lemma length_file_prologue: "length a = 32 \<Longrightarrow> length (file_prologue hl offset a) = 64"
  by (simp add: file_prologue_def)

lemma finish_file_layout:
  assumes "\<And>x. length (blake3 x) = 32" and len: "length (prologue @ header @ body) = offset"
  shows "finish_file E blake3 (prologue @ header @ body) (length header) f = file_of E blake3 offset header body (encode (footer_to_cbor f))"
proof -
  let ?F = "encode (footer_to_cbor f)"
  let ?rest = "header @ body @ ?F @ file_trailer E offset ?F"
  let ?h = "le_bytes 4 (unat (word_of_nat (length header) :: u32))"
  let ?o = "le_bytes 8 (unat (word_of_nat offset :: u64))"
  let ?m = "MAGIC @ put_u16 [] FORMAT_MAJOR @ put_u16 [] FORMAT_MINOR"
  let ?z = "replicate 32 0 @ ?rest"
  have p: "prologue @ ?rest = ?m @ le_bytes 4 0 @ le_bytes 8 0 @ le_bytes 8 0 @ ?z"
    by (simp add: prologue_def put_u16_def put_u32_def put_u64_def)
  have out: "put_u32 (put_u64 (put_u32 (put_u64 ((prologue @ header @ body) @ ?F) (word_of_nat offset)) (word_of_nat (length ?F)))
      (page_checksum E ?F)) (ucast FORMAT_MINOR) @ TRAILER_MAGIC = prologue @ ?rest"
    by (simp add: file_trailer_def put_u32_def put_u64_def)
  have a: "patch (prologue @ ?rest) 12 ?h = (?m @ ?h) @ le_bytes 8 0 @ le_bytes 8 0 @ ?z"
    unfolding p using patch_at[of "le_bytes 4 0" ?h 12 ?m "le_bytes 8 0 @ le_bytes 8 0 @ ?z"] by simp
  have b: "patch ((?m @ ?h) @ le_bytes 8 0 @ le_bytes 8 0 @ ?z) 16 (le_bytes 8 PROLOGUE_BYTES)
      = (?m @ ?h @ le_bytes 8 64) @ le_bytes 8 0 @ ?z"
    using patch_at[of "le_bytes 8 0" "le_bytes 8 PROLOGUE_BYTES" 16 "?m @ ?h" "le_bytes 8 0 @ ?z"] by (simp add: PROLOGUE_BYTES_def)
  have c: "patch ((?m @ ?h @ le_bytes 8 64) @ le_bytes 8 0 @ ?z) 24 ?o = (?m @ ?h @ le_bytes 8 64 @ ?o) @ replicate 32 0 @ ?rest"
    using patch_at[of "le_bytes 8 0" ?o 24 "?m @ ?h @ le_bytes 8 64" ?z] by simp
  have x: "length (?m @ ?h @ le_bytes 8 64 @ ?o) = 32" by simp
  have dr: "drop PROLOGUE_BYTES ((?m @ ?h @ le_bytes 8 64 @ ?o) @ replicate 32 0 @ ?rest) = ?rest"
    unfolding PROLOGUE_BYTES_def by (rule drop_both[OF x])
  have d: "patch ((?m @ ?h @ le_bytes 8 64 @ ?o) @ replicate 32 0 @ ?rest) 32 (blake3 ?rest)
      = (?m @ ?h @ le_bytes 8 64 @ ?o) @ blake3 ?rest @ ?rest"
    by (rule patch_at) (simp_all only: x assms(1) length_replicate)
  have "finish_file E blake3 (prologue @ header @ body) (length header) f = (?m @ ?h @ le_bytes 8 64 @ ?o) @ blake3 ?rest @ ?rest"
    by (simp only: finish_file_def Let_def len out a b c dr d)
  then show ?thesis by (simp add: file_of_def file_prologue_def put_u32_def put_u64_def)
qed

lemma u64_count: "n < 2 ^ 64 \<Longrightarrow> unat (word_of_nat n :: u64) = n"
  by (simp add: unat_of_nat)

lemma open_file_of:
  fixes header body :: bytes and E :: externs and offset :: nat
  assumes "\<And>x. length (blake3 x) = 32" and h: "header_ok h" and f: "footer_ok f"
    and count: "h_row_count h = foldl (\<lambda>listed g. saturating_add listed (g_rows g)) 0 (f_row_groups f)"
  defines "header \<equiv> encode (header_to_cbor h)" and "fb \<equiv> encode (footer_to_cbor f)"
  defines "bs \<equiv> file_of E blake3 offset header body fb"
  assumes off: "offset = 64 + length header + length body" and "length header < 2 ^ 32" and "length fb < 2 ^ 32" and "length bs < 2 ^ 64"
  shows "open_file E bs verify =
    Inr \<lparr>sg_header = h\<lparr>h_uncompressed_bytes := 0, h_compressed_bytes := word_of_nat (length bs)\<rparr>, sg_footer = f, sg_bytes = bs,
         sg_content_address = blake3 (drop 64 bs), sg_cipher = None\<rparr>"
proof -
  let ?T = "file_trailer E offset fb"
  let ?rest = "header @ body @ fb @ ?T"
  let ?P = "file_prologue (length header) offset (blake3 ?rest)"
  have P: "length ?P = 64" using length_file_prologue assms(1) by blast
  have bs: "bs = ?P @ ?rest" by (simp add: bs_def file_of_def)
  have len: "length bs = offset + length fb + 32" using P by (simp add: bs off)
  have u: "unat (word_of_nat offset :: u64) = offset" "unat (word_of_nat (length fb) :: u32) = length fb"
      "unat (word_of_nat (length header) :: u32) = length header"
    using assms(9-11) len by (simp_all add: u64_count u32_count)
  have t: "get_u64 bs (length bs - 32) = Inr (word_of_nat offset)" "get_u32 bs (length bs - 32 + 8) = Inr (word_of_nat (length fb))"
      "get_u64 bs (length bs - 32 + 12) = Inr (page_checksum E fb)" "drop (length bs - 8) bs = TRAILER_MAGIC"
  proof -
    let ?pre = "?P @ header @ body @ fb"
    have pre: "length ?pre = length bs - 32" using P len off by simp
    let ?t1 = "put_u64 [] (word_of_nat offset)" and ?t2 = "put_u32 [] (word_of_nat (length fb))" and ?t3 = "put_u64 [] (page_checksum E fb)"
    let ?t4 = "put_u32 [] (ucast FORMAT_MINOR) @ TRAILER_MAGIC"
    have e: "bs = ?pre @ ?t1 @ ?t2 @ ?t3 @ ?t4" by (simp add: bs file_trailer_def)
    show "get_u64 bs (length bs - 32) = Inr (word_of_nat offset)"
      using get_u64_put[of "length bs - 32" ?pre "word_of_nat offset" "?t2 @ ?t3 @ ?t4"] pre e by simp
    show "get_u32 bs (length bs - 32 + 8) = Inr (word_of_nat (length fb))"
      using get_u32_put[of "length bs - 32 + 8" "?pre @ ?t1" "word_of_nat (length fb)" "?t3 @ ?t4"] pre e by simp
    show "get_u64 bs (length bs - 32 + 12) = Inr (page_checksum E fb)"
      using get_u64_put[of "length bs - 32 + 12" "?pre @ ?t1 @ ?t2" "page_checksum E fb" ?t4] pre e by simp
    have "bs = (?pre @ ?t1 @ ?t2 @ ?t3 @ put_u32 [] (ucast FORMAT_MINOR)) @ TRAILER_MAGIC" by (simp add: e)
    moreover have "length (?pre @ ?t1 @ ?t2 @ ?t3 @ put_u32 [] (ucast FORMAT_MINOR)) = length bs - 8" using P len off by simp
    ultimately show "drop (length bs - 8) bs = TRAILER_MAGIC" by (metis append_eq_conv_conj)
  qed
  have p: "take 8 bs = MAGIC" "get_u16 bs 8 = Inr FORMAT_MAJOR" "get_u32 bs 12 = Inr (word_of_nat (length header))" "get_u64 bs 16 = Inr 64"
      "take 32 (drop 32 bs) = blake3 ?rest"
  proof -
    let ?p1 = "put_u16 [] FORMAT_MAJOR" and ?p2 = "put_u16 [] FORMAT_MINOR" and ?p3 = "put_u32 [] (word_of_nat (length header))"
    let ?p4 = "put_u64 [] 64" and ?p5 = "put_u64 [] (word_of_nat offset)"
    have e: "bs = MAGIC @ ?p1 @ ?p2 @ ?p3 @ ?p4 @ ?p5 @ blake3 ?rest @ ?rest" by (simp add: bs file_prologue_def)
    show "take 8 bs = MAGIC" by (simp add: e)
    show "get_u16 bs 8 = Inr FORMAT_MAJOR" unfolding e by (rule get_u16_put) simp
    show "get_u32 bs 12 = Inr (word_of_nat (length header))"
      using get_u32_put[of 12 "MAGIC @ ?p1 @ ?p2"] by (simp add: e)
    show "get_u64 bs 16 = Inr 64"
      using get_u64_put[of 16 "MAGIC @ ?p1 @ ?p2 @ ?p3"] by (simp add: e)
    show "take 32 (drop 32 bs) = blake3 ?rest" using assms(1) by (simp add: e)
  qed
  have s1: "slice bs offset (length fb) = Inr fb"
    using slice_at[of offset "?P @ header @ body" "length fb" fb ?T] P by (simp add: bs off)
  have s2: "slice bs 64 (length header) = Inr header"
    using slice_at[of 64 ?P "length header" header "body @ fb @ ?T"] P by (simp add: bs)
  have d: "drop 64 bs = ?rest" using P by (simp add: bs)
  have big: "\<not> length bs < 64 + 32" using len off by simp
  have h': "decode header = Inr (header_to_cbor h)" and f': "decode fb = Inr (footer_to_cbor f)"
    using header_read_back[OF h] footer_read_back[OF f] by (simp_all add: header_def fb_def)
  show ?thesis
    unfolding open_file_def PROLOGUE_BYTES_def TRAILER_BYTES_def Let_def
    using t p s1 s2 u big d h' f' header_from_to[OF h] footer_back[OF f] count by simp
qed

section \<open>Groups of rows\<close>

lemma concat_chunks: "0 < n \<Longrightarrow> concat (chunks n xs) = xs \<and> [] \<notin> set (chunks n xs)"
proof (induction n xs rule: chunks.induct)
  case (1 n xs)
  then show ?case by (cases "xs = []") (simp_all add: chunks.simps[of n xs] chunks.simps[of n "[]"])
qed

lemma split_rows_concat: "concat (split_rows E show_f64 w rows) = rows \<and> [] \<notin> set (split_rows E show_f64 w rows)"
  unfolding split_rows_def Let_def by (rule concat_chunks) simp

lemma listed_rows:
  "list_all2 (\<lambda>g rows. g_rows g = word_of_nat (length rows)) gs groups \<Longrightarrow> k + length (concat groups) < 2 ^ 64 \<Longrightarrow>
   foldl (\<lambda>listed g. saturating_add listed (g_rows g)) (word_of_nat k) gs = word_of_nat (k + length (concat groups))"
proof (induction gs groups arbitrary: k rule: list_all2_induct)
  case (Cons g gs rows groups)
  have "saturating_add (word_of_nat k) (g_rows g) = word_of_nat (k + length rows)"
    using Cons by (simp add: saturating_add_def u64_count)
  then show ?case using Cons.IH[of "k + length rows"] Cons.prems by (simp add: add.assoc)
qed simp

lemma length_sort_dedup: "length (sort_dedup xs) \<le> length xs"
  by (metis length_sort remdups_adj_length sort_dedup_def)

lemma slices_length: "slices c start ps \<Longrightarrow> start + length ps \<le> column_len c"
  by (induction ps arbitrary: start) (auto, fastforce)

lemma build_header_ok:
  assumes "writer_ok E draws w" and "list_all row_typed rows" and "length rows < 2 ^ 64"
  shows "header_ok (build_header w rows n)"
  using assms length_sort_dedup[of "map ev_kind rows"]
  by (auto simp: header_ok_def build_header_def writer_ok_def list_all_iff row_typed_def)

lemma group_read_ok:
  assumes g: "group_read E show_f64 w base body g rows"
    and rows: "list_all row_typed rows" "rows \<noteq> []" "length rows < 2 ^ 63" "length (table show_f64 rows) < 2 ^ 64"
  shows "group_ok g"
proof -
  note r = g[unfolded group_read_def, THEN conjunct2]
  have names: "map fst (g_pages g) = map fst (table show_f64 rows)" using columns_read_names[OF r] .
  then have "bt_ok (g_pages g)" "length (g_pages g) < 2 ^ 64"
    using table_ok[of show_f64 rows] rows(4) by (auto simp: columns_ok_def bt_ok_def dest: map_eq_imp_length_eq)
  moreover have "text_ok n \<and> 2 * length refs < 2 ^ 64" if e: "(n, refs) \<in> set (g_pages g)" for n refs
  proof -
    obtain i where i: "i < length (g_pages g)" "g_pages g ! i = (n, refs)" using e by (auto simp: in_set_conv_nth)
    then obtain c where c: "(n, c) \<in> set (table show_f64 rows)" "column_read E w base body refs c"
      using r[unfolded columns_read_def list_all2_conv_all_nth] by (fastforce simp: in_set_conv_nth)
    then obtain ps where "slices c 0 ps" "length refs = length ps" by (auto simp: column_read_def dest: list_all2_lengthD)
    then have "length refs \<le> length rows" using slices_length[of c 0 ps] table_column_shape[OF c(1) rows(1,2)] by simp
    then show ?thesis using table_name_ok[OF c(1) rows(1)] rows(3) by simp
  qed
  ultimately show ?thesis by (auto simp: group_ok_def list_all_iff)
qed

lemma build_indexes_names:
  "build_indexes E groups ncs m = Some is \<Longrightarrow> bt_ok m \<Longrightarrow> bt_ok is \<and> fst ` set is \<subseteq> fst ` set m \<union> fst ` set ncs"
proof (induction ncs arbitrary: m)
  case (Cons x ncs)
  obtain n c where x: "x = (n, c)" by fastforce
  show ?case
  proof (cases "choose_layout n c")
    case None
    then show ?thesis using Cons by (auto simp: x)
  next
    case (Some l)
    then obtain i where "build_indexes E groups ncs (bt_insert n i m) = Some is"
      using Cons.prems(1) by (auto simp: x bind_eq_Some_conv)
    from Cons.IH[OF this] show ?thesis using Cons.prems(2) by (auto simp: x fst_set_bt_insert)
  qed
qed auto

text \<open>The sizes that the widths of the format's counters allow.\<close>

definition segment_fits :: "externs \<Rightarrow> (f64 \<Rightarrow> bytes) \<Rightarrow> segment_writer \<Rightarrow> event_row list \<Rightarrow> bool" where
  "segment_fits E show_f64 w rows \<longleftrightarrow> length rows < 2 ^ 59 \<and> length (table show_f64 rows) < 2 ^ 64
     \<and> (\<forall>g\<in>set (split_rows E show_f64 w rows). length (table show_f64 g) < 2 ^ 64 \<and> (\<forall>(n, c)\<in>set (table show_f64 g). pages_fit E w c))
     \<and> (\<forall>is. build_indexes E (split_rows E show_f64 w rows) (table show_f64 rows) [] = Some is \<longrightarrow>
          (\<forall>(n, i)\<in>set is. index_ok i \<and> index_fits i))"

definition file_fits :: "segment \<Rightarrow> bool" where
  "file_fits s \<longleftrightarrow> length (encode (header_to_cbor (sg_header s))) < 2 ^ 32 \<and> length (encode (footer_to_cbor (sg_footer s))) < 2 ^ 32
     \<and> length (sg_bytes s) < 2 ^ 64"

definition open_for :: "externs \<Rightarrow> segment_writer \<Rightarrow> bytes \<Rightarrow> bool \<Rightarrow> format_error + segment" where
  "open_for E w bs verify = (case w_cipher w of None \<Rightarrow> open_file E bs verify | Some k \<Rightarrow> open_with_key E bs verify k)"


lemma patch_longer: "n \<le> length out \<Longrightarrow> n \<le> length (patch out at bs)"
  by (simp add: patch_def)

lemma finish_file_longer: "length out \<le> length (finish_file E blake3 out n f)"
  unfolding finish_file_def Let_def by (intro patch_longer) simp

text \<open>What \<open>write_segment\<close> leaves: a file of the layout above, every group and index readable in it.\<close>

lemma written_segment:
  assumes w: "writer_ok E draws w" and b: "\<And>x. length (blake3 x) = 32" and rows: "list_all row_typed rows"
    and fits: "segment_fits E show_f64 w rows" and wr: "write_segment E blake3 show_f64 draws w rows = Inr s" and ff: "file_fits s"
  obtains h offset body "is" where "h = build_header w rows (length (split_rows E show_f64 w rows))" and "rows \<noteq> []"
    and "offset = 64 + length (encode (header_to_cbor h)) + length body"
    and "sg_bytes s = file_of E blake3 offset (encode (header_to_cbor h)) body (encode (footer_to_cbor (sg_footer s)))"
    and "sg_header s = h\<lparr>h_uncompressed_bytes := h_uncompressed_bytes (sg_header s), h_compressed_bytes := word_of_nat (length (sg_bytes s))\<rparr>"
    and "list_all2 (group_read E show_f64 w (64 + length (encode (header_to_cbor h))) body) (f_row_groups (sg_footer s)) (split_rows E show_f64 w rows)"
    and "build_indexes E (split_rows E show_f64 w rows) (table show_f64 rows) [] = Some is"
    and "indexes_read E w (64 + length (encode (header_to_cbor h))) body (f_indexes (sg_footer s)) is"
    and "bt_ok (f_indexes (sg_footer s))" and "length (f_payload_hash (sg_footer s)) = 32"
proof -
  define h where "h = build_header w rows (length (split_rows E show_f64 w rows))"
  define H where "H = encode (header_to_cbor h)"
  let ?gs = "split_rows E show_f64 w rows"
  have P: "length prologue = 64" by (simp add: prologue_def)
  obtain "is" out1 count row_groups out2 offsets where
    i: "build_indexes E ?gs (table show_f64 rows) [] = Some is" and
    g: "write_groups E show_f64 draws w ?gs (prologue @ H) 0 0 [] = Inr (out1, count, row_groups)" and
    x: "write_indexes E draws w is out1 [] = Inr (out2, offsets)" and ne: "rows \<noteq> []" and
    f: "sg_footer s = \<lparr>f_row_groups = row_groups, f_indexes = offsets, f_payload_hash = blake3 (drop PROLOGUE_BYTES out2),
        f_key_reference = map_option (\<lambda>k. \<lparr>k_algorithm = ALGORITHM_AES_256_GCM, k_generation = key_generation k\<rparr>) (w_cipher w)\<rparr>" and
    bs: "sg_bytes s = finish_file E blake3 out2 (length H) (sg_footer s)" and
    hd: "sg_header s = h\<lparr>h_uncompressed_bytes := count, h_compressed_bytes := word_of_nat (length (sg_bytes s))\<rparr>"
    using wr by (auto simp: write_segment_def table_def Let_def h_def H_def result_convs split: if_splits)
  have "length (finish_file E blake3 out2 (length H) (sg_footer s)) < 2 ^ 64" using ff bs by (simp add: file_fits_def)
  then have out2: "length out2 < 2 ^ 64"
    using finish_file_longer[of out2 E blake3 "length H" "sg_footer s"] by simp
  obtain b2 ofs where b2: "out2 = out1 @ b2" "offsets = foldl (\<lambda>m (n, x). bt_insert n x m) [] ofs" "indexes_read E w (length out1) b2 ofs is"
    using write_indexes_reads[OF w _ x out2] fits i by (auto simp: segment_fits_def)
  have "list_all (group_fits E show_f64 w) ?gs"
    unfolding list_all_iff group_fits_def
  proof safe
    fix g n c assume g: "g \<in> set ?gs" and c: "(n, c) \<in> set (table show_f64 g)"
    have "set g \<subseteq> set rows" using g split_rows_concat[of E show_f64 w rows] by (metis Sup_upper image_eqI set_concat)
    then have "list_all row_typed g" using rows by (auto simp: list_all_iff)
    then show "column_ok c" using table_column_ok[OF c] by blast
    show "pages_fit E w c" using fits g c by (auto simp: segment_fits_def)
  qed
  from write_groups_reads[OF w this g] obtain b1 where
    b1: "out1 = (prologue @ H) @ b1" "list_all2 (group_read E show_f64 w (length (prologue @ H)) b1) row_groups ?gs"
    using out2 b2(1) by auto
  let ?base = "64 + length H"
  have base: "length (prologue @ H) = ?base" "length out1 = ?base + length b1" using P b1(1) by simp_all
  have groups: "list_all2 (group_read E show_f64 w ?base (b1 @ b2)) row_groups ?gs"
    using b1(2) group_read_mono[of E show_f64 w ?base "[]" b1 _ _ b2] unfolding base(1) by (auto elim!: list_all2_mono)
  have idx: "indexes_read E w ?base (b1 @ b2) ofs is"
    using indexes_read_mono[of E w ?base b1 b2 ofs "is" "[]"] b2(3) base(2) by simp
  have ok: "bt_ok ofs"
    using build_indexes_names[OF i] indexes_read_names[OF idx] by (simp add: bt_ok_def)
  then have offsets: "offsets = ofs" using b2(2) foldl_insert_id by simp
  have "out2 = prologue @ H @ b1 @ b2" using b1(1) b2(1) by simp
  then have "sg_bytes s = file_of E blake3 (64 + length H + length (b1 @ b2)) H (b1 @ b2) (encode (footer_to_cbor (sg_footer s)))"
    using bs finish_file_layout[of blake3 H "b1 @ b2" "64 + length H + length (b1 @ b2)" E "sg_footer s"] b P by simp
  then show thesis
    using that[OF h_def ne, of _ "b1 @ b2" "is"] groups idx hd f ok offsets i b by (simp add: H_def)
qed

lemma header_cbor_sizes: "header_to_cbor (h\<lparr>h_uncompressed_bytes := u, h_compressed_bytes := c\<rparr>) = header_to_cbor h"
  by (simp add: header_to_cbor_def)

lemma member_of_concat: "g \<in> set gs \<Longrightarrow> set g \<subseteq> set (concat gs) \<and> length g \<le> length (concat gs)"
  by (induction gs) auto

lemma names_fit:
  assumes "bt_ok m" and "fst ` set m \<subseteq> fst ` set m'"
  shows "length m \<le> length m'"
proof -
  have "length (map fst m) = card (set (map fst m))" using distinct_card[OF bt_ok_distinct[OF assms(1)]] by simp
  also have "\<dots> \<le> card (set (map fst m'))" using assms(2) by (intro card_mono) auto
  also have "\<dots> \<le> length (map fst m')" by (rule card_length)
  finally show ?thesis by simp
qed

lemma parts_nonempty: "[] \<notin> set gs \<Longrightarrow> length gs \<le> length (concat gs)"
proof (induction gs)
  case (Cons g gs)
  then show ?case by (cases g) auto
qed simp

lemma written_segment_opens:
  assumes w: "writer_ok E draws w" and b: "\<And>x. length (blake3 x) = 32" and rows: "list_all row_typed rows"
    and fits: "segment_fits E show_f64 w rows" and wr: "write_segment E blake3 show_f64 draws w rows = Inr s" and ff: "file_fits s"
  shows "\<exists>t. open_for E w (sg_bytes s) verify = Inr t \<and> sg_header t = (sg_header s)\<lparr>h_uncompressed_bytes := 0\<rparr>
    \<and> sg_footer t = sg_footer s \<and> sg_bytes t = sg_bytes s \<and> sg_content_address t = blake3 (drop PROLOGUE_BYTES (sg_bytes s))
    \<and> sg_cipher t = w_cipher w"
proof -
  obtain h offset body "is" where h: "h = build_header w rows (length (split_rows E show_f64 w rows))" "rows \<noteq> []"
    and off: "offset = 64 + length (encode (header_to_cbor h)) + length body"
    and bs: "sg_bytes s = file_of E blake3 offset (encode (header_to_cbor h)) body (encode (footer_to_cbor (sg_footer s)))"
    and hd: "sg_header s = h\<lparr>h_uncompressed_bytes := h_uncompressed_bytes (sg_header s), h_compressed_bytes := word_of_nat (length (sg_bytes s))\<rparr>"
    and gs: "list_all2 (group_read E show_f64 w (64 + length (encode (header_to_cbor h))) body) (f_row_groups (sg_footer s)) (split_rows E show_f64 w rows)"
    and i: "build_indexes E (split_rows E show_f64 w rows) (table show_f64 rows) [] = Some is"
    and idx: "indexes_read E w (64 + length (encode (header_to_cbor h))) body (f_indexes (sg_footer s)) is"
    and ok: "bt_ok (f_indexes (sg_footer s))" "length (f_payload_hash (sg_footer s)) = 32"
    using written_segment[OF assms] .
  have n: "length rows < 2 ^ 64" using fits by (simp add: segment_fits_def)
  have hok: "header_ok h" unfolding h(1) by (rule build_header_ok[OF w rows n])
  have groups: "list_all row_typed g \<and> g \<noteq> [] \<and> length g < 2 ^ 63 \<and> length (table show_f64 g) < 2 ^ 64"
    if "g \<in> set (split_rows E show_f64 w rows)" for g
  proof -
    have "set g \<subseteq> set rows \<and> length g \<le> length rows"
      using member_of_concat[OF that] split_rows_concat[of E show_f64 w rows] by simp
    then show ?thesis using rows fits that split_rows_concat[of E show_f64 w rows] by (auto simp: segment_fits_def list_all_iff)
  qed
  have "list_all group_ok (f_row_groups (sg_footer s))"
    unfolding list_all_length
  proof (intro allI impI)
    fix j assume j: "j < length (f_row_groups (sg_footer s))"
    then have "split_rows E show_f64 w rows ! j \<in> set (split_rows E show_f64 w rows)" using list_all2_lengthD[OF gs] by simp
    with list_all2_nthD[OF gs j] show "group_ok (f_row_groups (sg_footer s) ! j)"
      using groups group_read_ok by blast
  qed
  moreover have "length (f_row_groups (sg_footer s)) < 2 ^ 64"
    using list_all2_lengthD[OF gs] parts_nonempty[of "split_rows E show_f64 w rows"] split_rows_concat[of E show_f64 w rows] n
    by simp
  moreover have "list_all (\<lambda>(n, _). text_ok n) (f_indexes (sg_footer s)) \<and> length (f_indexes (sg_footer s)) < 2 ^ 64"
  proof -
    have names: "map fst (f_indexes (sg_footer s)) = map fst is" using indexes_read_names[OF idx] .
    have sub: "bt_ok is" "fst ` set is \<subseteq> fst ` set (table show_f64 rows)" using build_indexes_names[OF i] by auto
    have len: "length (f_indexes (sg_footer s)) = length is" using names by (rule map_eq_imp_length_eq)
    have "length is < 2 ^ 64" using names_fit[OF sub] fits by (simp add: segment_fits_def)
    moreover have "text_ok n" if m: "(n, x) \<in> set (f_indexes (sg_footer s))" for n x
    proof -
      have "n \<in> set (map fst (f_indexes (sg_footer s)))" using m by force
      then have "n \<in> fst ` set (table show_f64 rows)" using sub(2) unfolding names by auto
      then obtain c where "(n, c) \<in> set (table show_f64 rows)" by auto
      then show ?thesis using table_name_ok rows by blast
    qed
    ultimately show ?thesis unfolding len list_all_iff by blast
  qed
  ultimately have fok: "footer_ok (sg_footer s)" using ok by (simp add: footer_ok_def)
  have "h_row_count h = foldl (\<lambda>listed g. saturating_add listed (g_rows g)) 0 (f_row_groups (sg_footer s))"
    using listed_rows[of "f_row_groups (sg_footer s)" "split_rows E show_f64 w rows" 0] gs split_rows_concat[of E show_f64 w rows] n
    by (simp add: h(1) build_header_def list_all2_conv_all_nth group_read_def)
  note o = open_file_of[where ?blake3.0 = blake3 and E = E and verify = verify, OF b hok fok this off, folded bs]
  have "header_to_cbor (sg_header s) = header_to_cbor h" by (subst hd) (rule header_cbor_sizes)
  then have len: "length (encode (header_to_cbor h)) < 2 ^ 32" using ff by (simp add: file_fits_def)
  have "open_file E (sg_bytes s) verify = Inr \<lparr>sg_header = (sg_header s)\<lparr>h_uncompressed_bytes := 0\<rparr>, sg_footer = sg_footer s, sg_bytes = sg_bytes s,
      sg_content_address = blake3 (drop 64 (sg_bytes s)), sg_cipher = None\<rparr>"
    using o len ff by (subst hd) (simp add: file_fits_def)
  then show ?thesis
    by (cases "w_cipher w") (simp_all add: open_for_def open_with_key_def PROLOGUE_BYTES_def)
qed

section \<open>The indexes of a file\<close>

definition keys_between :: "column \<Rightarrow> nat \<Rightarrow> nat \<Rightarrow> bytes list" where
  "keys_between c i j = concat (map (\<lambda>k. case index_key c k of Some key \<Rightarrow> [key] | None \<Rightarrow> []) [i..<j])"

lemma keys_between_member: "i \<le> k \<Longrightarrow> k < j \<Longrightarrow> index_key c k = Some key \<Longrightarrow> key \<in> set (keys_between c i j)"
  by (force simp: keys_between_def)

lemma fill_filter_inserts: "fill_filter E c i n f = insert_all E f (keys_between c i (i + n))"
proof (induction n arbitrary: i f)
  case 0
  then show ?case by (simp add: keys_between_def insert_all_def)
next
  case (Suc n)
  have "keys_between c i (i + Suc n) = (case index_key c i of Some key \<Rightarrow> [key] | None \<Rightarrow> []) @ keys_between c (Suc i) (Suc i + n)"
    by (simp add: keys_between_def upt_conv_Cons del: upt_Suc)
  then show ?case using Suc.IH by (cases "index_key c i") (simp_all add: insert_all_Cons cong: Option.bind_cong)
qed

lemma all_positions_total: "\<forall>(word, b)\<in>set ps. word < length ws \<Longrightarrow> all_positions ps ws \<noteq> None"
  by (induction ps) auto

lemma maybe_total: "filter_ok f \<Longrightarrow> maybe E f v \<noteq> None"
  unfolding maybe_def Let_def using positions_in_range[of f "fingerprint E v"] by (intro all_positions_total) auto

lemma any_filter_finds:
  "\<forall>f\<in>set fs. filter_ok f \<Longrightarrow> f \<in> set fs \<Longrightarrow> maybe E f v = Some True \<Longrightarrow> any_filter E fs v = Some True"
proof (induction fs)
  case (Cons g fs)
  have "maybe E g v \<noteq> None" using Cons.prems(1) by (intro maybe_total) simp
  then show ?case using Cons by auto
qed simp

lemma build_filters_total:
  "\<forall>g\<in>set groups. length g < 2 ^ 59 \<Longrightarrow>
   \<exists>fs. build_filters E c i groups = Some fs \<and> (\<forall>f\<in>set fs. filter_ok f)
     \<and> (\<forall>k key. i \<le> k \<and> k < i + length (concat groups) \<and> index_key c k = Some key \<longrightarrow> (\<exists>f\<in>set fs. maybe E f key = Some True))"
proof (induction groups arbitrary: i)
  case (Cons g groups)
  obtain f where f: "fill_filter E c i (length g) (filter_new (length g)) = Some f" "filter_ok f"
      "\<forall>v\<in>set (keys_between c i (i + length g)). covers (positions f (fingerprint E v)) (words f)"
    using insert_all_total[OF filter_new_ok, of "length g" E "keys_between c i (i + length g)"] Cons.prems
    by (auto simp: fill_filter_inserts)
  obtain fs where fs: "build_filters E c (i + length g) groups = Some fs" "\<forall>f\<in>set fs. filter_ok f"
      "\<forall>k key. i + length g \<le> k \<and> k < i + length g + length (concat groups) \<and> index_key c k = Some key \<longrightarrow> (\<exists>f\<in>set fs. maybe E f key = Some True)"
    using Cons.IH[of "i + length g"] Cons.prems by auto
  have "\<exists>f'\<in>set (f # fs). maybe E f' key = Some True"
    if k: "i \<le> k" "k < i + length (concat (g # groups))" "index_key c k = Some key" for k key
  proof (cases "k < i + length g")
    case True
    then have "maybe E f key = Some True"
      using f(3) keys_between_member[OF k(1) True k(3)] by (simp add: maybe_def all_positions_covers)
    then show ?thesis by simp
  next
    case False
    then have "i + length g \<le> k \<and> k < i + length g + length (concat groups) \<and> index_key c k = Some key" using k by simp
    then obtain f' where "f' \<in> set fs" "maybe E f' key = Some True" using fs(3) by blast
    then show ?thesis by auto
  qed
  then show ?case using f(1,2) fs(1,2) by auto
qed simp

lemma build_index_total: "\<forall>g\<in>set groups. length g < 2 ^ 59 \<Longrightarrow> \<exists>i. build_index E l c groups = Some i"
  using build_filters_total[of groups E c 0] by (cases l) (auto simp: build_index_def)

lemma build_indexes_total: "\<forall>g\<in>set groups. length g < 2 ^ 59 \<Longrightarrow> \<exists>is. build_indexes E groups ncs m = Some is"
proof (induction ncs arbitrary: m)
  case (Cons x ncs)
  obtain n c where x: "x = (n, c)" by fastforce
  show ?case
  proof (cases "choose_layout n c")
    case None
    then show ?thesis using Cons by (simp add: x)
  next
    case (Some l)
    obtain i where "build_index E l c groups = Some i" using build_index_total[OF Cons.prems] by blast
    then show ?thesis using Some Cons.IH[OF Cons.prems, of "bt_insert n i m"] by (simp add: x)
  qed
qed simp

lemma build_indexes_other: "build_indexes E groups ncs m = Some is \<Longrightarrow> n \<notin> fst ` set ncs \<Longrightarrow> bt_get is n = bt_get m n"
proof (induction ncs arbitrary: m)
  case (Cons x ncs)
  obtain n' c where x: "x = (n', c)" by fastforce
  show ?case
    using Cons by (cases "choose_layout n' c") (fastforce simp: x bind_eq_Some_conv)+
qed simp

lemma build_indexes_get:
  "build_indexes E groups ncs m = Some is \<Longrightarrow> distinct (map fst ncs) \<Longrightarrow> (n, c) \<in> set ncs \<Longrightarrow>
   bt_get is n = (case choose_layout n c of None \<Rightarrow> bt_get m n | Some l \<Rightarrow> build_index E l c groups)"
proof (induction ncs arbitrary: m)
  case (Cons x ncs)
  obtain n' c' where x: "x = (n', c')" by fastforce
  show ?case
  proof (cases "n' = n")
    case True
    then have c: "c' = c" using Cons.prems(2,3) by (auto simp: x) (metis fst_conv imageI)
    show ?thesis
      using Cons.prems True build_indexes_other[of E groups ncs _ "is" n]
      by (cases "choose_layout n c") (auto simp: x c bind_eq_Some_conv)
  next
    case False
    then have e: "(n, c) \<in> set ncs" using Cons.prems(3) by (auto simp: x)
    show ?thesis
    proof (cases "choose_layout n' c'")
      case None
      then show ?thesis using Cons.IH[of m] Cons.prems(1,2) e by (simp add: x)
    next
      case (Some l)
      then obtain i where "build_indexes E groups ncs (bt_insert n' i m) = Some is"
        using Cons.prems(1) by (auto simp: x bind_eq_Some_conv)
      from Cons.IH[OF this _ e] show ?thesis using Cons.prems(2) False by (simp add: x split: option.splits)
    qed
  qed
qed simp

text \<open>An index that was built for a column answers yes for every key of the column.\<close>

definition index_holds :: "externs \<Rightarrow> column_index \<Rightarrow> bytes \<Rightarrow> bool option" where
  "index_holds E i v =
     (case i of
        BlockFilter filters \<Rightarrow> any_filter E filters v
      | TermPostings postings \<Rightarrow> Some (postings_rows postings v \<noteq> None)
      | UniqueLookup l \<Rightarrow> Some (lookup_candidates E l v \<noteq> []))"

lemma postings_hold:
  assumes "(key, row) \<in> set ws"
  shows "postings_rows (foldl (\<lambda>p (key, row). postings_add p key row) postings_new ws) key \<noteq> None"
proof -
  have "rows_of (foldl (\<lambda>p (key, row). postings_add p key row) postings_new ws) key = map snd (filter (\<lambda>(w, _). w = key) ws)"
    using postings_added[of postings_new ws key] by (simp add: postings_new_def postings_rows_def rows_of_def)
  moreover have "map snd (filter (\<lambda>(w, _). w = key) ws) \<noteq> []" using assms by (auto simp: filter_empty_conv)
  ultimately have "rows_of (foldl (\<lambda>p (key, row). postings_add p key row) postings_new ws) key \<noteq> []" by simp
  then show ?thesis by (rule contrapos_nn) (simp add: rows_of_def)
qed

lemma built_index_holds:
  assumes "\<forall>g\<in>set groups. length g < 2 ^ 59" and "build_index E l c groups = Some i" and "choose_layout n c = Some l"
    and "k < column_len c" and "length (concat groups) = column_len c" and "index_key c k = Some key"
  shows "index_holds E i key = Some True"
proof (cases l)
  case BlockFilterLayout
  then obtain fs where fs: "i = BlockFilter fs" "build_filters E c 0 groups = Some fs" using assms(2) by (auto simp: build_index_def)
  have ok: "\<forall>f\<in>set fs. filter_ok f"
    and finds: "\<forall>k key. 0 \<le> k \<and> k < 0 + length (concat groups) \<and> index_key c k = Some key \<longrightarrow> (\<exists>f\<in>set fs. maybe E f key = Some True)"
    using build_filters_total[OF assms(1), of E c 0] fs(2) by auto
  have "0 \<le> k \<and> k < 0 + length (concat groups) \<and> index_key c k = Some key" using assms(4-6) by simp
  then obtain f where "f \<in> set fs" "maybe E f key = Some True" using finds by blast
  note found = ok this
  from any_filter_finds[OF found] show ?thesis by (simp add: index_holds_def fs(1))
next
  case TermPostingsLayout
  have "(key, word_of_nat k) \<in> set (keyed_rows c)" using assms(4,6) by (force simp: keyed_rows_def)
  from postings_hold[OF this] show ?thesis using TermPostingsLayout assms(2) by (auto simp: build_index_def index_holds_def)
next
  case UniqueLookupLayout
  then show ?thesis using assms(3) by (simp add: choose_layout_def Let_def split: if_splits)
qed

section \<open>What an opened file gives back\<close>

lemma written_segment_reads:
  assumes w: "writer_ok E draws w" and b: "\<And>x. length (blake3 x) = 32" and rows: "list_all row_typed rows"
    and fits: "segment_fits E show_f64 w rows" and wr: "write_segment E blake3 show_f64 draws w rows = Inr s" and ff: "file_fits s"
    and t: "sg_header t = (sg_header s)\<lparr>h_uncompressed_bytes := 0\<rparr>" "sg_footer t = sg_footer s" "sg_bytes t = sg_bytes s"
      "sg_cipher t = w_cipher w"
  obtains base body "is" where "reads_file w base body t" and "h_workspace_id (sg_header t) = w_workspace_id w"
    and "h_project_id (sg_header t) = w_project_id w"
    and "list_all2 (group_read E show_f64 w base body) (f_row_groups (sg_footer t)) (split_rows E show_f64 w rows)"
    and "build_indexes E (split_rows E show_f64 w rows) (table show_f64 rows) [] = Some is"
    and "indexes_read E w base body (f_indexes (sg_footer t)) is"
proof -
  obtain h offset body "is" where h: "h = build_header w rows (length (split_rows E show_f64 w rows))" "rows \<noteq> []"
    and off: "offset = 64 + length (encode (header_to_cbor h)) + length body"
    and bs: "sg_bytes s = file_of E blake3 offset (encode (header_to_cbor h)) body (encode (footer_to_cbor (sg_footer s)))"
    and hd: "sg_header s = h\<lparr>h_uncompressed_bytes := h_uncompressed_bytes (sg_header s), h_compressed_bytes := word_of_nat (length (sg_bytes s))\<rparr>"
    and gs: "list_all2 (group_read E show_f64 w (64 + length (encode (header_to_cbor h))) body) (f_row_groups (sg_footer s)) (split_rows E show_f64 w rows)"
    and i: "build_indexes E (split_rows E show_f64 w rows) (table show_f64 rows) [] = Some is"
    and idx: "indexes_read E w (64 + length (encode (header_to_cbor h))) body (f_indexes (sg_footer s)) is"
    and ok: "bt_ok (f_indexes (sg_footer s))" "length (f_payload_hash (sg_footer s)) = 32"
    using written_segment[OF w b rows fits wr ff] .
  have "h_segment_id (sg_header s) = h_segment_id h \<and> h_workspace_id (sg_header s) = h_workspace_id h \<and> h_project_id (sg_header s) = h_project_id h"
    by (subst (1 2 3) hd) simp
  then have ids: "h_segment_id (sg_header t) = w_segment_id w" "h_workspace_id (sg_header t) = w_workspace_id w"
      "h_project_id (sg_header t) = w_project_id w"
    by (simp_all add: t(1) h(1) build_header_def)
  have "\<exists>pre rest. length pre = 64 + length (encode (header_to_cbor h)) \<and> sg_bytes s = pre @ body @ rest"
    unfolding bs file_of_def
    using length_file_prologue[OF b]
    by (intro exI[of _ "file_prologue _ _ _ @ encode (header_to_cbor h)"] exI[of _ "encode (footer_to_cbor (sg_footer s)) @ _"])
      (auto simp: file_of_def)
  then have "reads_file w (64 + length (encode (header_to_cbor h))) body t"
    using ids(1) t(3,4) by (simp add: reads_file_def)
  then show thesis using ids(2,3) gs i idx t(2) by (intro that) simp_all
qed

lemma segment_rows_back:
  assumes t: "reads_file w base body t" "h_workspace_id (sg_header t) = ws" "h_project_id (sg_header t) = p"
    and gs: "list_all2 (group_read E show_f64 w base body) (f_row_groups (sg_footer t)) groups"
    and groups: "[] \<notin> set groups" "list_all row_typed (concat groups)" "length (concat groups) < 2 ^ 64"
  shows "segment_rows E t verify = Inr (map (stored_row ws p) (concat groups))"
proof -
  have "row_group_rows E t verify g = Inr (map (stored_row ws p) rows)" if "group_read E show_f64 w base body g rows" "rows \<in> set groups" for g rows
  proof -
    have "rows \<noteq> []" "length rows < 2 ^ 64" "list_all row_typed rows"
      using groups that(2) member_of_concat[OF that(2)] by (auto simp: list_all_iff)
    from row_group_reads[OF t(1) that(1) this] show ?thesis by (simp add: t(2,3))
  qed
  then have "list_all2 (\<lambda>g rs. row_group_rows E t verify g = Inr rs) (f_row_groups (sg_footer t)) (map (map (stored_row ws p)) groups)"
    using gs by (auto simp: list_all2_conv_all_nth)
  then have "collect (row_group_rows E t verify) (f_row_groups (sg_footer t)) = Inr (map (map (stored_row ws p)) groups)"
    by (simp add: collect_Inr)
  then show ?thesis by (simp add: segment_rows_def map_concat)
qed

lemma indexes_read_get:
  assumes "indexes_read E w base body ofs is" and "bt_get is n = Some i"
  shows "\<exists>off l. bt_get ofs n = Some (off, l) \<and> reads_index E w base body (unat off) i"
  using assms
proof (induction ofs arbitrary: "is")
  case (Cons x ofs)
  then show ?case
    by (cases x) (auto simp: indexes_read_def list_all2_Cons1 split: if_splits)
qed (simp add: indexes_read_def)

lemma indexes_read_None: "indexes_read E w base body ofs is \<Longrightarrow> bt_get is n = None \<Longrightarrow> bt_get ofs n = None"
  using indexes_read_names[of E w base body ofs "is"] by (metis map_of_eq_None_iff set_map)

lemma may_hold_read:
  assumes t: "reads_file w base body t" and i: "indexes_read E w base body (f_indexes (sg_footer t)) is"
  shows "may_hold E t n v verify = (case bt_get is n of None \<Rightarrow> Some True | Some i \<Rightarrow> index_holds E i v)"
proof (cases "bt_get is n")
  case None
  then show ?thesis using indexes_read_None[OF i] by (simp add: may_hold_def segment_index_def)
next
  case (Some x)
  obtain off l where "bt_get (f_indexes (sg_footer t)) n = Some (off, l)" "reads_index E w base body (unat off) x"
    using indexes_read_get[OF i Some] by blast
  then have "segment_index E t n verify = Inr (Some x)"
    using t by (auto simp: segment_index_def reads_file_def reads_index_def)
  then show ?thesis using Some by (cases x) (simp_all add: may_hold_def index_holds_def)
qed

section \<open>The only failure of a write\<close>

definition key_failure :: "segment_writer \<Rightarrow> format_error \<Rightarrow> bool" where
  "key_failure w e \<longleftrightarrow> w_cipher w \<noteq> None \<and> (\<exists>k. e = Unsupported (KeyFailure k))"

lemma write_piece_fails: "write_piece E draws w out p = Inl e \<Longrightarrow> key_failure w e"
  by (auto simp: write_piece_def key_failure_def split: option.splits sum.splits prod.splits)

lemma write_one_index_fails: "write_one_index E draws w out i = Inl e \<Longrightarrow> key_failure w e"
  by (auto simp: write_one_index_def key_failure_def split: option.splits sum.splits prod.splits)

lemma write_pieces_fails: "write_pieces E draws w pieces out refs = Inl e \<Longrightarrow> key_failure w e"
  by (induction pieces arbitrary: out refs) (auto simp: and_then_Inl_conv dest: write_piece_fails)

lemma write_columns_fails: "write_columns E draws w ncs out n pages = Inl e \<Longrightarrow> key_failure w e"
  by (induction ncs arbitrary: out n pages) (auto simp: and_then_Inl_conv dest: write_pieces_fails)

lemma write_groups_fails: "write_groups E show_f64 draws w gs out first n groups = Inl e \<Longrightarrow> key_failure w e"
  by (induction gs arbitrary: out first n groups) (auto simp: and_then_Inl_conv dest: write_columns_fails)

lemma write_indexes_fails: "write_indexes E draws w nis out ofs = Inl e \<Longrightarrow> key_failure w e"
  by (induction nis arbitrary: out ofs) (auto simp: and_then_Inl_conv dest: write_one_index_fails)

lemma groups_small: "length rows < n \<Longrightarrow> g \<in> set (split_rows E show_f64 w rows) \<Longrightarrow> length g < n"
  using member_of_concat[of g "split_rows E show_f64 w rows"] split_rows_concat[of E show_f64 w rows] by simp

lemma write_segment_fails:
  assumes "rows \<noteq> []" and "length rows < 2 ^ 59" and "write_segment E blake3 show_f64 draws w rows = Inl e"
  shows "key_failure w e"
proof -
  obtain "is" where i: "build_indexes E (split_rows E show_f64 w rows) (columns_map (to_columns show_f64 rows)) [] = Some is"
    using build_indexes_total groups_small[OF assms(2)] by blast
  show ?thesis
    using assms(1,3)
    by (auto simp: write_segment_def i Let_def and_then_Inl_conv dest: write_groups_fails write_indexes_fails)
qed

text \<open>C2: Writing a segment and opening the file gives the rows back: a write of at least one row succeeds, or, for
  an encrypted segment, fails only because a block could not be sealed; and a file that was written opens, with its
  checksums verified or not, passes its content check and gives exactly the rows in their order, under the
  workspace and project of the segment.\<close>

theorem segment_round_trip:
  assumes "writer_ok E draws w" and "\<And>x. length (blake3 x) = 32" and "rows \<noteq> []" and "list_all row_typed rows"
    and "segment_fits E show_f64 w rows"
  shows "case write_segment E blake3 show_f64 draws w rows of
      Inl e \<Rightarrow> w_cipher w \<noteq> None \<and> (\<exists>k. e = Unsupported (KeyFailure k))
    | Inr s \<Rightarrow> file_fits s \<longrightarrow>
        (\<exists>t. open_for E w (sg_bytes s) verify = Inr t \<and> verify_segment blake3 t = Inr ()
          \<and> segment_rows E t verify = Inr (map (stored_row (w_workspace_id w) (w_project_id w)) rows))"
proof (cases "write_segment E blake3 show_f64 draws w rows")
  case (Inl e)
  then show ?thesis using write_segment_fails[OF assms(3) _ Inl] assms(5) by (simp add: segment_fits_def key_failure_def)
next
  case (Inr s)
  have "\<exists>t. open_for E w (sg_bytes s) verify = Inr t \<and> verify_segment blake3 t = Inr ()
          \<and> segment_rows E t verify = Inr (map (stored_row (w_workspace_id w) (w_project_id w)) rows)" if ff: "file_fits s"
  proof -
    note written = assms(1,2,4,5) Inr ff
    obtain t where t: "open_for E w (sg_bytes s) verify = Inr t" "sg_header t = (sg_header s)\<lparr>h_uncompressed_bytes := 0\<rparr>"
        "sg_footer t = sg_footer s" "sg_bytes t = sg_bytes s" "sg_cipher t = w_cipher w"
      and a: "sg_content_address t = blake3 (drop PROLOGUE_BYTES (sg_bytes s))"
      using written_segment_opens[where ?blake3.0 = blake3 and verify = verify, OF written] by blast
    obtain base body "is" where r: "reads_file w base body t" "h_workspace_id (sg_header t) = w_workspace_id w"
        "h_project_id (sg_header t) = w_project_id w"
        "list_all2 (group_read E show_f64 w base body) (f_row_groups (sg_footer t)) (split_rows E show_f64 w rows)"
      using written_segment_reads[where ?blake3.0 = blake3, OF written t(2-5)] .
    have "length rows < 2 ^ 64" using assms(5) by (simp add: segment_fits_def)
    then have "segment_rows E t verify = Inr (map (stored_row (w_workspace_id w) (w_project_id w)) rows)"
      using segment_rows_back[OF r] split_rows_concat[of E show_f64 w rows] assms(4) by simp
    then show ?thesis using t(1,4) a by (simp add: verify_segment_def)
  qed
  then show ?thesis using Inr by simp
qed

text \<open>C4: The index of a column never hides a row: in an opened file, for every column of the rows and every row
  that has a key there, asking whether the file may hold the key answers yes, whichever index the column got
  and when it got none.\<close>

theorem segment_index_never_misses:
  assumes "writer_ok E draws w" and "\<And>x. length (blake3 x) = 32" and "list_all row_typed rows"
    and "segment_fits E show_f64 w rows" and "write_segment E blake3 show_f64 draws w rows = Inr s" and "file_fits s"
    and "open_for E w (sg_bytes s) verify = Inr t"
    and "(n, c) \<in> set (columns_map (to_columns show_f64 rows))" and "k < length rows" and "index_key c k = Some key"
  shows "may_hold E t n key verify = Some True"
proof -
  have t: "sg_header t = (sg_header s)\<lparr>h_uncompressed_bytes := 0\<rparr>" "sg_footer t = sg_footer s" "sg_bytes t = sg_bytes s" "sg_cipher t = w_cipher w"
    using written_segment_opens[where ?blake3.0 = blake3 and verify = verify, OF assms(1-6)] assms(7) by auto
  obtain base body "is" where r: "reads_file w base body t"
      "build_indexes E (split_rows E show_f64 w rows) (table show_f64 rows) [] = Some is"
      "indexes_read E w base body (f_indexes (sg_footer t)) is"
    using written_segment_reads[where ?blake3.0 = blake3, OF assms(1-6) t] .
  have c: "(n, c) \<in> set (table show_f64 rows)" using assms(8) by (simp add: table_def)
  have "bt_ok (table show_f64 rows)" using table_ok[of show_f64 rows] by (simp add: columns_ok_def)
  then have "bt_get is n = (case choose_layout n c of None \<Rightarrow> None | Some l \<Rightarrow> build_index E l c (split_rows E show_f64 w rows))"
    using build_indexes_get[OF r(2) _ c] by (simp add: bt_ok_distinct split: option.split)
  moreover have small: "\<forall>g\<in>set (split_rows E show_f64 w rows). length g < 2 ^ 59"
    using groups_small assms(4) by (auto simp: segment_fits_def)
  have "rows \<noteq> []" using assms(9) by auto
  then have "column_len c = length rows" using table_column_shape[OF c assms(3)] by blast
  then have "k < column_len c" "length (concat (split_rows E show_f64 w rows)) = column_len c"
    using assms(9) split_rows_concat[of E show_f64 w rows] by simp_all
  note holds = built_index_holds[OF small _ _ this assms(10)]
  ultimately show ?thesis
    using holds build_index_total[OF small, of E _ c] by (auto simp: may_hold_read[OF r(1,3)] split: option.splits)
qed

section \<open>How long a file gets\<close>

text \<open>An upper bound for the length of an encoded value, which needs no sorting of keys.\<close>

fun weight :: "cbor_value \<Rightarrow> nat" where
  "weight (cbor_value.Bytes v) = 9 + length v"
| "weight (cbor_value.Text v) = 9 + length v"
| "weight (Array items) = 9 + sum_list (map weight items)"
| "weight (Map es) = 9 + sum_list (map (\<lambda>(k, v). 9 + length k + weight v) es)"
| "weight _ = 9"

definition entries_weight :: "(bytes \<times> cbor_value) list \<Rightarrow> nat" where
  "entries_weight es = sum_list (map (\<lambda>(k, v). 9 + length k + weight v) es)"

lemma length_head: "length (head m a []) \<le> 9"
  by (simp add: head_def Let_def)

lemma sum_list_insort: "sum_list (map f (insort_key g x xs)) = f x + sum_list (map (f :: _ \<Rightarrow> nat) xs)"
  by (induction xs) auto

lemma sum_list_sorted: "sum_list (map f (sort_key g xs)) = sum_list (map (f :: _ \<Rightarrow> nat) xs)"
  by (induction xs) (auto simp: sum_list_insort)

lemma length_write_value: "length (write_value v) \<le> weight v"
proof (induction v)
  case (Array items)
  then have "sum_list (map (length \<circ> write_value) items) \<le> sum_list (map weight items)" by (intro sum_list_mono) simp
  then show ?case using length_head[of 4 "word_of_nat (length items)"] by (simp add: length_concat comp_def)
next
  case (Map es)
  have "sum_list (map (length \<circ> write_entry) es) \<le> sum_list (map (\<lambda>(k, v). 9 + length k + weight v) es)"
  proof (intro sum_list_mono)
    fix e assume "e \<in> set es"
    moreover obtain k v where e: "e = (k, v)" by fastforce
    ultimately have "length (write_value v) \<le> weight v" using Map by auto
    then show "(length \<circ> write_entry) e \<le> (case e of (k, v) \<Rightarrow> 9 + length k + weight v)"
      using length_head[of 3 "word_of_nat (length k)"] by (simp add: e)
  qed
  then show ?case
    using length_head[of 5 "word_of_nat (length es)"]
    by (simp add: write_value_Map length_concat sum_list_sorted comp_def)
qed (use length_head in \<open>auto intro: order.trans\<close>)

lemma length_encode: "length (encode v) \<le> weight v"
  using length_write_value[of v] by (simp add: encode_def write_to_def)

lemma entries_weight_put: "entries_weight (put k v m) \<le> 9 + length k + weight v + entries_weight m"
  unfolding put_def entries_weight_def
  by (induction m rule: bt_insert.induct) auto

lemma length_write_page: "length (write_page E out c) = length out + length (write_page E [] c)"
  by (auto simp: write_page_def write_page_maybe_encrypted_def Let_def put_u16_def put_u32_def put_u64_def split: prod.splits)

lemma length_write_index: "length (write_index E out i) = length out + length (write_index E [] i)"
  by (auto simp: write_index_def write_index_maybe_encrypted_def Let_def put_u16_def put_u32_def put_u64_def split: prod.splits)

definition pages_bytes :: "externs \<Rightarrow> segment_writer \<Rightarrow> (bytes \<times> column) list \<Rightarrow> nat" where
  "pages_bytes E w ncs =
     sum_list (map (\<lambda>(n, c). sum_list (map (\<lambda>p. length (write_page E [] p)) (split_into_pages rows_that_fit E c (w_page_target_bytes w)))) ncs)"

lemma write_pieces_length:
  "w_cipher w = None \<Longrightarrow> write_pieces E draws w ps out refs = Inr (out', refs') \<Longrightarrow>
   length out' = length out + sum_list (map (\<lambda>p. length (write_page E [] p)) ps)"
proof (induction ps arbitrary: out refs)
  case (Cons p ps)
  then show ?case using length_write_page[of E out p] by (fastforce simp: write_piece_def)
qed simp

lemma write_columns_length:
  "w_cipher w = None \<Longrightarrow> write_columns E draws w ncs out u pages = Inr (out', u', pages') \<Longrightarrow>
   length out' = length out + pages_bytes E w ncs"
proof (induction ncs arbitrary: out u pages)
  case (Cons x ncs)
  then show ?case by (cases x) (fastforce simp: result_convs pages_bytes_def dest: write_pieces_length)
qed (simp add: pages_bytes_def)

lemma write_groups_length:
  "w_cipher w = None \<Longrightarrow> write_groups E show_f64 draws w gs out first u groups = Inr (out', u', groups') \<Longrightarrow>
   length out' = length out + sum_list (map (\<lambda>g. pages_bytes E w (table show_f64 g)) gs)"
proof (induction gs arbitrary: out first u groups)
  case (Cons g gs)
  then show ?case by (fastforce simp: result_convs table_def dest: write_columns_length)
qed simp

lemma write_indexes_length:
  "w_cipher w = None \<Longrightarrow> write_indexes E draws w nis out ofs = Inr (out', ofs') \<Longrightarrow>
   length out' = length out + sum_list (map (\<lambda>(n, i). length (write_index E [] i)) nis)"
proof (induction nis arbitrary: out ofs)
  case (Cons x nis)
  then show ?case using length_write_index[of E out "snd x"] by (cases x) (fastforce simp: write_one_index_def)
qed simp

lemma finish_file_length:
  assumes "\<And>x. length (blake3 x) = 32" and "64 \<le> length out"
  shows "length (finish_file E blake3 out n f) = length out + length (encode (footer_to_cbor f)) + 32"
  using assms by (simp add: finish_file_def patch_def Let_def PROLOGUE_BYTES_def)

definition refs_bytes :: "(bytes \<times> page_ref list) list \<Rightarrow> nat" where
  "refs_bytes pages = sum_list (map (\<lambda>(n, refs). 18 + length n + 18 * length refs) pages)"

definition groups_bytes :: "row_group list \<Rightarrow> nat" where
  "groups_bytes groups = sum_list (map (\<lambda>g. 77 + refs_bytes (g_pages g)) groups)"

definition entries_bytes :: "(bytes \<times> u64 \<times> index_layout) list \<Rightarrow> nat" where
  "entries_bytes ofs = sum_list (map (\<lambda>(n, _). 36 + length n) ofs)"

lemma refs_bytes_insert: "refs_bytes (bt_insert n refs pages) \<le> 18 + length n + 18 * length refs + refs_bytes pages"
  by (induction pages rule: bt_insert.induct) (auto simp: refs_bytes_def)

lemma entries_bytes_insert: "entries_bytes (bt_insert n x ofs) \<le> 36 + length n + entries_bytes ofs"
  by (induction ofs rule: bt_insert.induct) (auto simp: entries_bytes_def)

lemma write_pieces_refs: "write_pieces E draws w ps out refs = Inr (out', refs') \<Longrightarrow> length refs' = length refs + length ps"
  by (induction ps arbitrary: out refs) (fastforce simp: result_convs)+

definition table_refs :: "externs \<Rightarrow> segment_writer \<Rightarrow> (bytes \<times> column) list \<Rightarrow> nat" where
  "table_refs E w ncs =
     sum_list (map (\<lambda>(n, c). 18 + length n + 18 * length (split_into_pages rows_that_fit E c (w_page_target_bytes w))) ncs)"

lemma write_columns_refs:
  "write_columns E draws w ncs out u pages = Inr (out', u', pages') \<Longrightarrow> refs_bytes pages' \<le> refs_bytes pages + table_refs E w ncs"
proof (induction ncs arbitrary: out u pages)
  case (Cons x ncs)
  obtain n c where x: "x = (n, c)" by fastforce
  obtain out1 refs where w: "write_pieces E draws w (split_into_pages rows_that_fit E c (w_page_target_bytes w)) out [] = Inr (out1, refs)"
      "write_columns E draws w ncs out1 (u + word_of_nat (column_len c)) (bt_insert n refs pages) = Inr (out', u', pages')"
    using Cons.prems by (auto simp: x result_convs)
  have "length refs = length (split_into_pages rows_that_fit E c (w_page_target_bytes w))" using write_pieces_refs[OF w(1)] by simp
  then show ?case using Cons.IH[OF w(2)] refs_bytes_insert[of n refs pages] by (simp add: x table_refs_def)
qed (simp add: table_refs_def)

lemma write_groups_refs:
  "write_groups E show_f64 draws w gs out first u groups = Inr (out', u', groups') \<Longrightarrow>
   groups_bytes groups' \<le> groups_bytes groups + sum_list (map (\<lambda>g. 77 + table_refs E w (table show_f64 g)) gs)"
proof (induction gs arbitrary: out first u groups)
  case (Cons g gs)
  obtain out1 u1 pages where w: "write_columns E draws w (table show_f64 g) out u [] = Inr (out1, u1, pages)"
      "write_groups E show_f64 draws w gs out1 (first + word_of_nat (length g)) u1
         (groups @ [\<lparr>g_first_row = first, g_rows = word_of_nat (length g), g_pages = pages\<rparr>]) = Inr (out', u', groups')"
    using Cons.prems by (auto simp: result_convs table_def)
  show ?case using Cons.IH[OF w(2)] write_columns_refs[OF w(1)] by (simp add: groups_bytes_def refs_bytes_def)
qed simp

lemma write_indexes_entries:
  "write_indexes E draws w nis out ofs = Inr (out', ofs') \<Longrightarrow> entries_bytes ofs' \<le> entries_bytes ofs + sum_list (map (\<lambda>(n, i). 36 + length n) nis)"
proof (induction nis arbitrary: out ofs)
  case (Cons x nis)
  obtain n i where x: "x = (n, i)" by fastforce
  obtain out1 where "write_indexes E draws w nis out1 (bt_insert n (word_of_nat (length out), layout i) ofs) = Inr (out', ofs')"
    using Cons.prems by (auto simp: x result_convs)
  from Cons.IH[OF this] show ?case
    using entries_bytes_insert[of n "(word_of_nat (length out), layout i)" ofs] by (simp add: x)
qed simp

lemma weight_build: "weight (build m) = 9 + entries_weight m"
  by (simp add: build_def entries_weight_def)

lemma entries_weight_Nil [simp]: "entries_weight [] = 0"
  by (simp add: entries_weight_def)

lemma refs_weight: "weight (refs_to_cbor refs) = 9 + 18 * length refs"
  by (induction refs) (simp_all add: refs_to_cbor_def)

lemma group_weight: "weight (group_to_cbor g) \<le> 77 + refs_bytes (g_pages g)"
proof -
  have "weight (Map (map (\<lambda>(n, refs). (n, refs_to_cbor refs)) (g_pages g))) = 9 + refs_bytes (g_pages g)"
    by (auto simp: refs_bytes_def comp_def case_prod_unfold refs_weight intro!: arg_cong[of _ _ sum_list] map_cong)
  moreover have "entries_weight (put (lit ''rows'') (cbor_value.Unsigned (g_rows g)) (put (lit ''first'') (cbor_value.Unsigned (g_first_row g)) [])) \<le> 45"
    using entries_weight_put[of "lit ''rows''" "cbor_value.Unsigned (g_rows g)" "put (lit ''first'') (cbor_value.Unsigned (g_first_row g)) []"]
      entries_weight_put[of "lit ''first''" "cbor_value.Unsigned (g_first_row g)" "[]"] by (simp add: lit_def)
  ultimately show ?thesis
    unfolding group_to_cbor_def weight_build
    by (intro order.trans[OF add_left_mono[OF entries_weight_put]]) (simp add: lit_def)
qed

lemma footer_weight:
  assumes "f_key_reference f = None"
  shows "weight (footer_to_cbor f) \<le> 100 + length (f_payload_hash f) + groups_bytes (f_row_groups f) + entries_bytes (f_indexes f)"
proof -
  have "weight (Array (map group_to_cbor (f_row_groups f))) \<le> 9 + groups_bytes (f_row_groups f)"
    using sum_list_mono[of "f_row_groups f" "\<lambda>g. weight (group_to_cbor g)" "\<lambda>g. 77 + refs_bytes (g_pages g)"] group_weight
    by (simp add: groups_bytes_def comp_def)
  then have a: "entries_weight (put (lit ''rg'') (Array (map group_to_cbor (f_row_groups f))) []) \<le> 20 + groups_bytes (f_row_groups f)"
    by (intro order.trans[OF entries_weight_put]) (simp add: lit_def)
  define m where "m = put (lit ''rg'') (Array (map group_to_cbor (f_row_groups f))) []"
  define x where "x = Map (map (\<lambda>(n, offset, l). (n, Array [cbor_value.Unsigned offset, cbor_value.Unsigned (ucast (layout_number l))])) (f_indexes f))"
  have "weight x = 9 + entries_bytes (f_indexes f)"
    by (auto simp: x_def entries_bytes_def comp_def case_prod_unfold intro!: arg_cong[of _ _ sum_list] map_cong)
  moreover have "footer_to_cbor f = build (put (lit ''hash'') (cbor_value.Bytes (f_payload_hash f)) (put (lit ''idx'') x m))"
    by (simp add: footer_to_cbor_def assms put_some_def x_def m_def)
  moreover have "length (lit ''hash'') = 4" "length (lit ''idx'') = 3" by (simp_all add: lit_def)
  ultimately show ?thesis
    using entries_weight_put[of "lit ''hash''" "cbor_value.Bytes (f_payload_hash f)" "put (lit ''idx'') x m"]
      entries_weight_put[of "lit ''idx''" x m] a[folded m_def]
    by (simp add: weight_build)
qed

lemma plain_file_fits:
  assumes wr: "write_segment E blake3 show_f64 draws w rows = Inr s" and w: "w_cipher w = None" and b: "\<And>x. length (blake3 x) = 32"
    and i: "build_indexes E (split_rows E show_f64 w rows) (table show_f64 rows) [] = Some is"
    and "weight (header_to_cbor (build_header w rows (length (split_rows E show_f64 w rows)))) < 2 ^ 31"
    and "sum_list (map (\<lambda>g. 77 + table_refs E w (table show_f64 g)) (split_rows E show_f64 w rows)) < 2 ^ 30"
    and "sum_list (map (\<lambda>(n, i). 36 + length n) is) < 2 ^ 30"
    and "sum_list (map (\<lambda>g. pages_bytes E w (table show_f64 g)) (split_rows E show_f64 w rows)) < 2 ^ 62"
    and "sum_list (map (\<lambda>(n, i). length (write_index E [] i)) is) < 2 ^ 62"
  shows "file_fits s"
proof -
  define h where "h = build_header w rows (length (split_rows E show_f64 w rows))"
  define H where "H = encode (header_to_cbor h)"
  have P: "length prologue = 64" by (simp add: prologue_def)
  obtain out1 count row_groups out2 offsets where
    g: "write_groups E show_f64 draws w (split_rows E show_f64 w rows) (prologue @ H) 0 0 [] = Inr (out1, count, row_groups)" and
    x: "write_indexes E draws w is out1 [] = Inr (out2, offsets)" and
    f: "sg_footer s = \<lparr>f_row_groups = row_groups, f_indexes = offsets, f_payload_hash = blake3 (drop PROLOGUE_BYTES out2), f_key_reference = None\<rparr>" and
    bs: "sg_bytes s = finish_file E blake3 out2 (length H) (sg_footer s)" and
    hd: "sg_header s = h\<lparr>h_uncompressed_bytes := count, h_compressed_bytes := word_of_nat (length (sg_bytes s))\<rparr>"
    using wr i w by (auto simp: write_segment_def table_def Let_def h_def H_def result_convs split: if_splits)
  have H: "length H < 2 ^ 31" using length_encode[of "header_to_cbor h"] assms(5) by (simp add: H_def h_def)
  have out2: "length out2 < 2 ^ 63 + 2 ^ 32" "64 \<le> length out2"
    using write_groups_length[OF w g] write_indexes_length[OF w x] H assms(8,9) P by simp_all
  have "groups_bytes row_groups < 2 ^ 30" "entries_bytes offsets < 2 ^ 30"
    using write_groups_refs[OF g] write_indexes_entries[OF x] assms(6,7) by (simp_all add: groups_bytes_def entries_bytes_def)
  then have F: "length (encode (footer_to_cbor (sg_footer s))) < 2 ^ 32"
    using footer_weight[of "sg_footer s"] length_encode[of "footer_to_cbor (sg_footer s)"] b by (simp add: f)
  have "length (sg_bytes s) < 2 ^ 64"
    using finish_file_length[where ?blake3.0 = blake3, OF b out2(2), of E "length H" "sg_footer s"] bs out2(1) F by simp
  moreover have "header_to_cbor (sg_header s) = header_to_cbor h" by (subst hd) (rule header_cbor_sizes)
  ultimately show ?thesis using F H by (simp add: file_fits_def H_def)
qed

lemma split_rows_one: "split_rows E show_f64 w [row] = [[row]]"
proof -
  have "chunks n [row] = [[row]]" if "0 < n" for n using that by (simp add: chunks.simps)
  then show ?thesis by (simp add: split_rows_def Let_def)
qed

text \<open>A bound for a page, from the sizes of the values.\<close>

definition column_weight :: "column \<Rightarrow> nat" where
  "column_weight c =
     (case c of
        Identifiers vs \<Rightarrow> 18 * length vs
      | column.Text vs \<Rightarrow> sum_list (map (\<lambda>v. 10 + length (text_bytes v)) vs)
      | column.Bytes vs \<Rightarrow> sum_list (map (\<lambda>v. 10 + length (text_bytes v)) vs)
      | _ \<Rightarrow> 10 * column_len c)"

lemma length_put_varint_le: "length (put_varint out v) \<le> length out + 10"
  using length_put_varint[of v] by (metis add_left_mono length_append put_varint_append)

lemma length_put_deltas: "length (put_deltas out previous vs) \<le> length out + 10 * length vs"
proof (induction vs arbitrary: out previous)
  case (Cons v vs)
  show ?case
    using Cons.IH[of "put_varint out (zigzag (v - previous))" v] length_put_varint_le[of out "zigzag (v - previous)"] by simp
qed simp

lemma length_foldl_le:
  "(\<And>out v. length (f out v) \<le> length out + g v) \<Longrightarrow> length (foldl f out vs) \<le> length out + sum_list (map (g :: _ \<Rightarrow> nat) vs)"
proof (induction vs arbitrary: out)
  case (Cons v vs)
  then show ?case using Cons.IH[of "f out v"] Cons.prems[of out v] by fastforce
qed simp

lemma length_text_values:
  "length (foldl (\<lambda>out v. put_varint out (word_of_nat (length (text_bytes v)))) [] vs @ concat (map text_bytes vs))
     \<le> sum_list (map (\<lambda>v. 10 + length (text_bytes v)) vs)"
proof -
  have "length (foldl (\<lambda>out v. put_varint out (word_of_nat (length (text_bytes v)))) [] vs) \<le> length ([] :: bytes) + sum_list (map (\<lambda>v. 10) vs)"
    by (rule length_foldl_le) (rule length_put_varint_le)
  then show ?thesis by (simp add: length_concat sum_list_addf comp_def)
qed

lemma length_encode_values: "length (encode_values c) \<le> column_weight c"
proof (cases c)
  case (Identifiers vs)
  have "length (encode_values c) \<le> length (put_deltas [] 0 (map id_head vs)) + sum_list (map (\<lambda>v. 8) vs)"
    unfolding Identifiers encode_values.simps by (rule length_foldl_le) simp
  then show ?thesis using length_put_deltas[of "[]" 0 "map id_head vs"] by (simp add: Identifiers column_weight_def sum_list_triv)
next
  case (Floats vs)
  have "length (encode_values c) \<le> length ([] :: bytes) + sum_list (map (\<lambda>v. 8) vs)"
    unfolding Floats encode_values.simps by (rule length_foldl_le) simp
  then show ?thesis by (simp add: Floats column_weight_def sum_list_triv)
next
  case (Unsigned vs)
  have "length (encode_values c) \<le> length ([] :: bytes) + sum_list (map (\<lambda>v. 10) vs)"
    unfolding Unsigned encode_values.simps by (rule length_foldl_le) (rule length_put_varint_le)
  then show ?thesis by (simp add: Unsigned column_weight_def sum_list_triv)
next
  case (Timestamps vs)
  then show ?thesis using length_put_deltas[of "[]" 0 vs] by (simp add: column_weight_def)
next
  case (Integers vs)
  then show ?thesis using length_put_deltas[of "[]" 0 vs] by (simp add: column_weight_def)
next
  case (Booleans vs)
  then show ?thesis by (simp add: column_weight_def pack_bits_def div_ceil_def)
qed (use length_text_values in \<open>auto simp: column_weight_def\<close>)

lemma length_write_page_le: "length (write_page E [] c) \<le> 25 + column_len c + column_weight c"
  using length_encode_values[of c] length_page_body[of E c]
  by (simp add: write_page_def write_page_layout page_plain_def div_ceil_def)

lemma one_page:
  assumes "25 + column_len c + column_weight c \<le> w_page_target_bytes w" and "w_page_target_bytes w \<le> 2 ^ 26"
  shows "split_into_pages rows_that_fit E c (w_page_target_bytes w) = (if is_empty c then [] else [c]) \<and> pages_fit E w c"
  using assms length_write_page_le[of E c] length_encode_values[of c]
  by (simp add: pages_fit_def split_into_pages_def page_fits_def MAX_UNCOMPRESSED_PAGE_BYTES_def)

definition one_page_each :: "segment_writer \<Rightarrow> (bytes \<times> column) list \<Rightarrow> bool" where
  "one_page_each w ncs \<longleftrightarrow> w_page_target_bytes w \<le> 2 ^ 26
     \<and> list_all (\<lambda>(n, c). 25 + column_len c + column_weight c \<le> w_page_target_bytes w) ncs"

lemma one_page_each_pages: "one_page_each w ncs \<Longrightarrow> (n, c) \<in> set ncs \<Longrightarrow> pages_fit E w c"
  using one_page[of c w E] by (auto simp: one_page_each_def list_all_iff)

lemma one_page_each_bytes:
  "one_page_each w ncs \<Longrightarrow> pages_bytes E w ncs \<le> sum_list (map (\<lambda>(n, c). 25 + column_len c + column_weight c) ncs)"
proof (induction ncs)
  case (Cons x ncs)
  then show ?case
    using one_page[of "snd x" w E] length_write_page_le[of E "snd x"]
    by (cases x) (auto simp: one_page_each_def pages_bytes_def intro!: add_mono)
qed (simp add: pages_bytes_def)

lemma one_page_each_refs: "one_page_each w ncs \<Longrightarrow> table_refs E w ncs \<le> sum_list (map (\<lambda>(n, c). 36 + length n) ncs)"
proof (induction ncs)
  case (Cons x ncs)
  then show ?case using one_page[of "snd x" w E] by (cases x) (auto simp: one_page_each_def table_refs_def)
qed (simp add: table_refs_def)

definition small_row :: event_row where
  "small_row = (row_new (replicate 16 7) (lit ''page'') (lit ''view'') 5)\<lparr>trace_id := Some (replicate 16 9),
     properties := [(lit ''plan'', (PText (lit ''pro''), lit ''client''))]\<rparr>"

definition small_writer :: segment_writer where
  "small_writer = \<lparr>w_segment_id = replicate 16 3, w_tablet_id = 1, w_virtual_shard = 2, w_workspace_id = replicate 16 4,
     w_project_id = replicate 16 5, w_retention_class = lit ''standard'', w_log_range = (0, 1), w_projector_version = 1,
     w_row_group_target_bytes = 1000000, w_page_target_bytes = 100000, w_cipher = None\<rparr>"

definition still_externs :: externs where
  "still_externs = \<lparr>xxh3 = (\<lambda>_. 0), zstd_encode = (\<lambda>_ _. None), zstd_decompress = (\<lambda>_ _. None)\<rparr>"

lemma small_row_typed: "row_typed small_row"
proof -
  have "text_ok (lit s)" if "s \<in> {''page'', ''view'', ''plan'', ''pro'', ''client''}" for s
    using that by (intro key_ok) auto
  moreover have "length (lit ''plan'') = 4" by (simp add: lit_def)
  ultimately show ?thesis by (simp add: row_typed_def small_row_def row_new_def bt_ok_def text_ok_def)
qed

lemma small_writer_ok: "writer_ok still_externs (\<lambda>_. None) small_writer"
proof -
  have "text_ok (lit ''standard'')" by (rule key_ok) simp_all
  then show ?thesis by (simp add: writer_ok_def small_writer_def still_externs_def zstd_ok_def draw_ok_def)
qed

lemma small_pages: "one_page_each small_writer (table (\<lambda>_. []) [small_row])"
  by code_simp

lemma small_table: "length (table (\<lambda>_. []) [small_row]) < 1000
   \<and> sum_list (map (\<lambda>(n, c). 25 + column_len c + column_weight c) (table (\<lambda>_. []) [small_row])) < 100000
   \<and> sum_list (map (\<lambda>(n, c). 36 + length n) (table (\<lambda>_. []) [small_row])) < 100000"
  by code_simp

definition small_index :: "column_index \<Rightarrow> bool" where
  "small_index i \<longleftrightarrow> length (index_body i) < 100000 \<and>
     (case i of BlockFilter fs \<Rightarrow> length fs < 1000 \<and> list_all (\<lambda>f. length (words f) < 100000) fs
      | TermPostings p \<Rightarrow> terms p = [] | UniqueLookup l \<Rightarrow> False)"

lemma small_indexes:
  "case build_indexes still_externs [[small_row]] (table (\<lambda>_. []) [small_row]) [] of
     None \<Rightarrow> False
   | Some is \<Rightarrow> list_all (\<lambda>(n, i). small_index i) is \<and> sum_list (map (\<lambda>(n, i). 36 + length n) is) < 100000
      \<and> sum_list (map (\<lambda>(n, i). length (write_index still_externs [] i)) is) < 1000000"
  by code_simp

lemma small_index_ok: "small_index i \<Longrightarrow> index_ok i \<and> index_fits i"
  by (cases i) (auto simp: small_index_def index_fits_def postings_ok_def OVERHEAD_BYTES_def NONCE_BYTES_def TAG_BYTES_def list_all_iff bt_ok_def)

lemma small_header: "weight (header_to_cbor (build_header small_writer [small_row] 1)) < 2 ^ 31"
  by (simp add: header_to_cbor_def build_header_def small_writer_def small_row_def row_new_def weight_build put_def lit_def entries_weight_def
      fold_range_def range_to_cbor_def sort_dedup_def integer_def)

lemma small_segment_fits: "segment_fits still_externs (\<lambda>_. []) small_writer [small_row]"
  unfolding segment_fits_def split_rows_one
  using small_table small_indexes one_page_each_pages[OF small_pages]
  by (auto simp: list_all_iff dest!: small_index_ok)

lemma small_file:
  obtains s where "write_segment still_externs (\<lambda>_. replicate 32 0) (\<lambda>_. []) (\<lambda>_. None) small_writer [small_row] = Inr s" and "file_fits s"
proof (cases "write_segment still_externs (\<lambda>_. replicate 32 0) (\<lambda>_. []) (\<lambda>_. None) small_writer [small_row]")
  case (Inl e)
  then show ?thesis using write_segment_fails[OF _ _ Inl] by (simp add: key_failure_def small_writer_def)
next
  case (Inr s)
  obtain "is" where i: "build_indexes still_externs [[small_row]] (table (\<lambda>_. []) [small_row]) [] = Some is"
      "sum_list (map (\<lambda>(n, i). 36 + length n) is) < 100000" "sum_list (map (\<lambda>(n, i). length (write_index still_externs [] i)) is) < 1000000"
    using small_indexes by (auto split: option.splits)
  have "file_fits s"
    using plain_file_fits[where ?blake3.0 = "\<lambda>_. replicate 32 0", OF Inr, of "is"] i small_header small_table
      one_page_each_bytes[OF small_pages, of still_externs] one_page_each_refs[OF small_pages, of still_externs]
    by (simp add: split_rows_one small_writer_def)
  then show ?thesis using that Inr by blast
qed

theorem segment_round_trip_witness:
  "\<exists>s t. write_segment still_externs (\<lambda>_. replicate 32 0) (\<lambda>_. []) (\<lambda>_. None) small_writer [small_row] = Inr s
    \<and> open_for still_externs small_writer (sg_bytes s) True = Inr t
    \<and> segment_rows still_externs t True = Inr [small_row\<lparr>workspace_id := replicate 16 4, ev_project_id := replicate 16 5\<rparr>]"
proof -
  obtain s where s: "write_segment still_externs (\<lambda>_. replicate 32 0) (\<lambda>_. []) (\<lambda>_. None) small_writer [small_row] = Inr s" "file_fits s"
    by (rule small_file)
  have "stored_row (w_workspace_id small_writer) (w_project_id small_writer) small_row
      = small_row\<lparr>workspace_id := replicate 16 4, ev_project_id := replicate 16 5\<rparr>"
    by (simp add: stored_row_def small_row_def small_writer_def)
  then show ?thesis
    using segment_round_trip[where ?blake3.0 = "\<lambda>_. replicate 32 0" and verify = True, OF small_writer_ok _ _ _ small_segment_fits]
      small_row_typed s by auto
qed

theorem segment_index_never_misses_witness:
  "\<exists>s t. write_segment still_externs (\<lambda>_. replicate 32 0) (\<lambda>_. []) (\<lambda>_. None) small_writer [small_row] = Inr s
    \<and> open_for still_externs small_writer (sg_bytes s) True = Inr t
    \<and> may_hold still_externs t EVENT_ID (replicate 16 7) True = Some True"
proof -
  obtain s where s: "write_segment still_externs (\<lambda>_. replicate 32 0) (\<lambda>_. []) (\<lambda>_. None) small_writer [small_row] = Inr s" "file_fits s"
    by (rule small_file)
  obtain t where t: "open_for still_externs small_writer (sg_bytes s) True = Inr t"
    using written_segment_opens[where ?blake3.0 = "\<lambda>_. replicate 32 0" and verify = True, OF small_writer_ok _ _ small_segment_fits s]
      small_row_typed by auto
  have c: "(EVENT_ID, Identifiers [replicate 16 7]) \<in> set (columns_map (to_columns (\<lambda>_. []) [small_row]))"
    by code_simp
  show ?thesis
    using segment_index_never_misses[where ?blake3.0 = "\<lambda>_. replicate 32 0", OF small_writer_ok _ _ small_segment_fits s t c, of 0 "replicate 16 7"]
      small_row_typed s t by (simp add: index_key_def nth_opt_def)
qed

end
