(* ===== verification/Wal.thy ===== *)
theory Wal
  imports Page "HOL-Library.Code_Target_Nat"
begin

text \<open>
  The append log, \<^verbatim>\<open>tallyowl-store/src/wal.rs\<close>: frames, recovery after a crash, group commit by
  whichever caller finds no committer at work, reclamation and truncation.

  The code that runs under the lock is one definition for each stretch between two releases of
  the lock. A call to the device is either done or, when its argument names that call, refused.
  Positions are \<open>u64\<close>; offsets and lengths are natural numbers, because a file is shorter than
  \<open>2 ^ 64\<close> bytes. What the process writes is in \<open>wal_file\<close>; only the first \<open>durable_upto\<close> bytes
  of it are sure to be there after a power loss.
\<close>
section \<open>Frames\<close>

definition WAL_MAGIC :: bytes where
  "WAL_MAGIC = lit ''TOWLWAL2''"

definition WAL_MAGIC_V1 :: bytes where
  "WAL_MAGIC_V1 = lit ''TOWLWAL1''"

definition FRAME_HEADER_BYTES :: nat where
  "FRAME_HEADER_BYTES = 20"

record frame =
  position :: u64
  payload :: bytes

datatype wal_message =
    FromFormat format_message
  | DirectoryNotCreated
  | NotOpened
  | NotTrimmed
  | NotStarted
  | NotFlushed
  | NotRead
  | NotALog
  | DamagedInTheMiddle nat u64
  | NotRewritten
  | NotReplaced
  | DirectoryNotFlushed
  | NotDurable
  | NothingLeftToWrite
  | TakingWrites

datatype wal_error = Unavailable wal_message | WalDamaged wal_message

text \<open>The conversion of a format error; reading a number never panics.\<close>

fun from_format :: "format_error \<Rightarrow> wal_error" where
  "from_format (Damaged m) = WalDamaged (FromFormat m)"
| "from_format (Unsupported m) = WalDamaged (FromFormat m)"
| "from_format (Incomplete m) = WalDamaged (FromFormat m)"
| "from_format Panicked = WalDamaged (FromFormat FileStops)"

definition in_log :: "format_error + 'a \<Rightarrow> wal_error + 'a" where
  "in_log r = (case r of Inl e \<Rightarrow> Inl (from_format e) | Inr x \<Rightarrow> Inr x)"

definition frame_checksum :: "externs \<Rightarrow> u32 \<Rightarrow> u64 \<Rightarrow> bytes \<Rightarrow> bool \<Rightarrow> u64" where
  "frame_checksum E len pos body header_checksummed =
     (if \<not> header_checksummed then page_checksum E body
      else page_checksum E (put_u64 (put_u32 [] len) pos @ body))"

definition encode_frame :: "externs \<Rightarrow> u64 \<Rightarrow> bytes \<Rightarrow> bool \<Rightarrow> bytes" where
  "encode_frame E pos body header_checksummed =
     put_u64 (put_u64 (put_u32 [] (word_of_nat (length body))) pos)
       (frame_checksum E (word_of_nat (length body)) pos body header_checksummed) @ body"

definition frame_at :: "externs \<Rightarrow> bytes \<Rightarrow> nat \<Rightarrow> bool \<Rightarrow> (u64 \<times> nat) option" where
  "frame_at E bs at header_checksummed =
     (case get_u32 bs at of
        Inl _ \<Rightarrow> None
      | Inr len \<Rightarrow>
          case get_u64 bs (at + 4) of
            Inl _ \<Rightarrow> None
          | Inr pos \<Rightarrow>
              case get_u64 bs (at + 12) of
                Inl _ \<Rightarrow> None
              | Inr checksum \<Rightarrow>
                  let body_at = at + FRAME_HEADER_BYTES; end = body_at + unat len
                  in if length bs < end then None
                     else if frame_checksum E len pos (take (unat len) (drop body_at bs)) header_checksummed = checksum
                     then Some (pos, end) else None)"

function frames_in :: "bytes \<Rightarrow> nat \<Rightarrow> nat" where
  "frames_in bs at =
     (case get_u32 bs at of
        Inl _ \<Rightarrow> 0
      | Inr len \<Rightarrow>
          let next = at + FRAME_HEADER_BYTES + unat len
          in if length bs < next then 0 else Suc (frames_in bs next))"
  by pat_completeness auto
termination
  by (relation "measure (\<lambda>(bs, at). length bs - at)") (auto simp: FRAME_HEADER_BYTES_def)

function last_position_in :: "bytes \<Rightarrow> nat \<Rightarrow> u64 option \<Rightarrow> u64 option" where
  "last_position_in bs at found =
     (case get_u32 bs at of
        Inl _ \<Rightarrow> found
      | Inr len \<Rightarrow>
          case get_u64 bs (at + 4) of
            Inl _ \<Rightarrow> found
          | Inr pos \<Rightarrow>
              let next = at + FRAME_HEADER_BYTES + unat len
              in if length bs < next then found else last_position_in bs next (Some pos))"
  by pat_completeness auto
termination
  by (relation "measure (\<lambda>(bs, at, found). length bs - at)") (auto simp: FRAME_HEADER_BYTES_def)

function frame_boundary_before :: "bytes \<Rightarrow> nat \<Rightarrow> nat \<Rightarrow> nat" where
  "frame_boundary_before bs limit at =
     (case get_u32 bs at of
        Inl _ \<Rightarrow> at
      | Inr len \<Rightarrow>
          let next = at + FRAME_HEADER_BYTES + unat len
          in if length bs < next \<or> limit < next then (if at = 0 then min next (length bs) else at)
             else frame_boundary_before bs limit next)"
  by pat_completeness auto
termination
  by (relation "measure (\<lambda>(bs, limit, at). length bs - at)") (auto simp: FRAME_HEADER_BYTES_def)

function reencode :: "externs \<Rightarrow> bytes \<Rightarrow> nat \<Rightarrow> bytes \<Rightarrow> wal_error + bytes" where
  "reencode E bs at out =
     (if at < length bs then
        and_then (in_log (get_u32 bs at)) (\<lambda>len.
        and_then (in_log (get_u64 bs (at + 4))) (\<lambda>pos.
          let next = at + FRAME_HEADER_BYTES + unat len
          in if length bs < next then Inr out
             else reencode E bs next
               (out @ encode_frame E pos (take (unat len) (drop (at + FRAME_HEADER_BYTES) bs)) True)))
      else Inr out)"
  by pat_completeness auto
termination
  by (relation "measure (\<lambda>(E, bs, at, out). length bs - at)") (auto simp: FRAME_HEADER_BYTES_def)

declare frames_in.simps [simp del] last_position_in.simps [simp del] frame_boundary_before.simps [simp del] reencode.simps [simp del]

section \<open>Recovery\<close>

datatype log_file = NoFile | Unreadable | File bytes

record recovered =
  r_frames :: "frame list"
  r_durable_bytes :: nat
  r_next_position :: u64
  r_header_checksummed :: bool

definition nothing :: recovered where
  "nothing = \<lparr>r_frames = [], r_durable_bytes = 0, r_next_position = 0, r_header_checksummed = True\<rparr>"

text \<open>The scan: the frames from an offset on, where they end and the position after them.\<close>

lemma frame_at_end: "frame_at E bs at hc = Some (pos, end) \<Longrightarrow> at < end \<and> end \<le> length bs"
  by (auto simp: frame_at_def FRAME_HEADER_BYTES_def Let_def split: sum.splits if_splits)

function scan :: "externs \<Rightarrow> bytes \<Rightarrow> bool \<Rightarrow> nat \<Rightarrow> frame list \<Rightarrow> u64 \<Rightarrow> frame list \<times> nat \<times> u64" where
  "scan E bs header_checksummed at frames next_pos =
     (if at < length bs then
        (case frame_at E bs at header_checksummed of
           None \<Rightarrow> (frames, at, next_pos)
         | Some (pos, end) \<Rightarrow>
             scan E bs header_checksummed end
               (frames @ [\<lparr>position = pos, payload = take (end - (at + FRAME_HEADER_BYTES)) (drop (at + FRAME_HEADER_BYTES) bs)\<rparr>])
               (max next_pos (pos + 1)))
      else (frames, at, next_pos))"
  by pat_completeness auto
termination
  by (relation "measure (\<lambda>(E, bs, hc, at, frames, next_pos). length bs - at)") (auto dest: frame_at_end)

declare scan.simps [simp del]

definition beyond :: "externs \<Rightarrow> bytes \<Rightarrow> bool \<Rightarrow> nat \<Rightarrow> u64 \<Rightarrow> u64 \<Rightarrow> u64 list" where
  "beyond E bs header_checksummed complete next_pos acknowledged =
     List.map_filter (\<lambda>offset. map_option fst (frame_at E bs offset header_checksummed))
       (filter (\<lambda>offset. case get_u64 bs (offset + 4) of
            Inr pos \<Rightarrow> next_pos \<le> pos \<and> pos \<le> acknowledged
          | Inl _ \<Rightarrow> False)
         [complete + 1 ..< length bs])"

definition recover :: "externs \<Rightarrow> log_file \<Rightarrow> u64 option \<Rightarrow> wal_error + recovered" where
  "recover E f acknowledged_through =
     (case f of
        NoFile \<Rightarrow> Inr nothing
      | Unreadable \<Rightarrow> Inl (Unavailable NotRead)
      | File bs \<Rightarrow>
          if length bs < length WAL_MAGIC then Inr nothing
          else if take 8 bs \<noteq> WAL_MAGIC \<and> take 8 bs \<noteq> WAL_MAGIC_V1 then Inl (WalDamaged NotALog)
          else let header_checksummed = (take 8 bs = WAL_MAGIC);
                   (frames, complete, next_pos) = scan E bs header_checksummed (length WAL_MAGIC) [] 0
               in case (acknowledged_through, complete < length bs) of
                    (Some acknowledged, True) \<Rightarrow>
                      (case beyond E bs header_checksummed complete next_pos acknowledged of
                         pos # _ \<Rightarrow> Inl (WalDamaged (DamagedInTheMiddle complete pos))
                       | [] \<Rightarrow> Inr \<lparr>r_frames = frames, r_durable_bytes = complete, r_next_position = next_pos,
                                   r_header_checksummed = header_checksummed\<rparr>)
                  | _ \<Rightarrow> Inr \<lparr>r_frames = frames, r_durable_bytes = complete, r_next_position = next_pos,
                             r_header_checksummed = header_checksummed\<rparr>)"

section \<open>The log under its lock\<close>

record group_commit =
  lingers :: bool
  max_group_bytes :: nat
  max_group_frames :: nat
  min_reclaim_bytes :: nat

record wal_statistics =
  st_frames :: nat
  st_bytes :: nat
  st_fsyncs :: nat
  st_largest_group :: nat

record shared =
  wal_file :: bytes
  pending :: bytes
  pending_frames :: nat
  write_offset :: nat
  durable_upto :: nat
  durable_before :: u64
  committing :: bool
  reclaim_wanted :: nat
  next_position :: u64
  statistics :: wal_statistics
  failure :: "wal_message option"
  header_checksummed :: bool

datatype device_call =
    CreateDirectory
  | OpenLog
  | TrimLog
  | EmptyLog
  | WriteMagic
  | FlushLog
  | FlushDirectory
  | ReadLog
  | OpenRewrite
  | WriteRewrite
  | FlushRewrite
  | RenameRewrite

definition set_len :: "bytes \<Rightarrow> nat \<Rightarrow> bytes" where
  "set_len bs n = take n bs @ replicate (n - length bs) 0"

definition write_all_at :: "bytes \<Rightarrow> bytes \<Rightarrow> nat \<Rightarrow> bytes" where
  "write_all_at bs new at = set_len bs at @ new @ drop (at + length new) bs"

text \<open>Opening: what is on the device afterwards, and the log or the error. The call
  \<open>refused\<close> names, if it is made, is the one the device refuses.\<close>

definition opened :: "recovered \<Rightarrow> bytes \<Rightarrow> bool \<Rightarrow> shared" where
  "opened r bs checksummed =
     \<lparr>wal_file = bs, pending = [], pending_frames = 0, write_offset = max (r_durable_bytes r) (length WAL_MAGIC),
      durable_upto = max (r_durable_bytes r) (length WAL_MAGIC), durable_before = r_next_position r, committing = False,
      reclaim_wanted = 0, next_position = r_next_position r,
      statistics = \<lparr>st_frames = 0, st_bytes = 0, st_fsyncs = 0, st_largest_group = 0\<rparr>, failure = None, header_checksummed = checksummed\<rparr>"

definition open_acknowledged :: "externs \<Rightarrow> u64 option \<Rightarrow> log_file \<Rightarrow> device_call option \<Rightarrow> log_file \<times> (wal_error + shared)" where
  "open_acknowledged E acknowledged_through f refused =
     (if refused = Some CreateDirectory then (f, Inl (Unavailable DirectoryNotCreated))
      else case recover E f acknowledged_through of
        Inl e \<Rightarrow> (f, Inl e)
      | Inr r \<Rightarrow>
          if refused = Some OpenLog then (f, Inl (Unavailable NotOpened))
          else let bs = (case f of File bs \<Rightarrow> bs | _ \<Rightarrow> []);
                   trimmed = set_len bs (r_durable_bytes r);
                   finish = (\<lambda>bs checksummed.
                     if f = NoFile \<and> refused = Some FlushDirectory then (File bs, Inl (Unavailable DirectoryNotFlushed))
                     else (File bs, Inr (opened r bs checksummed)))
               in if refused = Some TrimLog then (File bs, Inl (Unavailable NotTrimmed))
                  else if r_frames r = [] then
                    if refused = Some EmptyLog then (File trimmed, Inl (Unavailable NotTrimmed))
                    else if refused = Some WriteMagic then (File [], Inl (Unavailable NotStarted))
                    else if refused = Some FlushLog then (File WAL_MAGIC, Inl (Unavailable NotFlushed))
                    else finish WAL_MAGIC True
                  else finish trimmed (r_header_checksummed r))"

definition start_at_least :: "shared \<Rightarrow> u64 \<Rightarrow> shared" where
  "start_at_least s floor =
     (if next_position s < floor then
        let s = s\<lparr>next_position := floor\<rparr>
        in if pending s = [] then s\<lparr>durable_before := max (durable_before s) floor\<rparr> else s
      else s)"

text \<open>Where a caller of \<open>append\<close> is: waiting for the condition, in the linger, writing a group, or
  done.\<close>

datatype append_pc =
    Waiting u64
  | Lingering u64
  | Writing u64 nat bytes "u64 option"
  | Returned "wal_error + u64"

definition take_group :: "group_commit \<Rightarrow> shared \<Rightarrow> bytes \<times> shared" where
  "take_group g s =
     (if max_group_bytes g < length (pending s) \<or> max_group_frames g < pending_frames s then
        let cut = frame_boundary_before (pending s) (max_group_bytes g) 0;
            taken = take cut (pending s)
        in (taken, s\<lparr>pending := drop cut (pending s), pending_frames := pending_frames s - frames_in taken 0\<rparr>)
      else (pending s, s\<lparr>pending := [], pending_frames := 0\<rparr>))"

text \<open>The committer's loop, from its top to the release of the lock.\<close>

definition commit_round :: "group_commit \<Rightarrow> shared \<Rightarrow> u64 \<Rightarrow> shared \<times> append_pc" where
  "commit_round g s pos =
     (if 0 < reclaim_wanted s \<and> pos < durable_before s then (s\<lparr>committing := False\<rparr>, Returned (Inr pos))
      else let (taken, s) = take_group g s
           in if taken = [] then
                (s\<lparr>committing := False\<rparr>,
                 Returned (if pos < durable_before s then Inr pos
                   else Inl (Unavailable (case failure s of Some m \<Rightarrow> m | None \<Rightarrow> NothingLeftToWrite))))
              else let at = write_offset s
                   in (s\<lparr>write_offset := at + length taken,
                         statistics := (statistics s)\<lparr>st_largest_group := max (st_largest_group (statistics s)) (frames_in taken 0)\<rparr>\<rparr>,
                       Writing pos at taken (last_position_in taken 0 None)))"

text \<open>The wait loop, from the moment the caller holds the lock.\<close>

definition append_wait :: "group_commit \<Rightarrow> shared \<Rightarrow> u64 \<Rightarrow> shared \<times> append_pc" where
  "append_wait g s pos =
     (if pos < durable_before s then (s, Returned (Inr pos))
      else case failure s of
        Some m \<Rightarrow> (s, Returned (Inl (Unavailable m)))
      | None \<Rightarrow>
          if \<not> committing s \<and> reclaim_wanted s = 0 then
            let s = s\<lparr>committing := True\<rparr>
            in if lingers g then (s, Lingering pos) else commit_round g s pos
          else (s, Waiting pos))"

definition append_start :: "externs \<Rightarrow> group_commit \<Rightarrow> shared \<Rightarrow> bytes \<Rightarrow> shared \<times> append_pc" where
  "append_start E g s body =
     (case failure s of
        Some m \<Rightarrow> (s, Returned (Inl (Unavailable m)))
      | None \<Rightarrow>
          let pos = next_position s
          in append_wait g
               (s\<lparr>next_position := pos + 1, pending := pending s @ encode_frame E pos body (header_checksummed s),
                  pending_frames := pending_frames s + 1\<rparr>) pos)"

text \<open>After the device has taken and flushed the group, and after it has refused it. A refused
  write leaves \<open>left\<close> on the device.\<close>

definition commit_written :: "group_commit \<Rightarrow> shared \<Rightarrow> u64 \<Rightarrow> nat \<Rightarrow> bytes \<Rightarrow> u64 option \<Rightarrow> shared \<times> append_pc" where
  "commit_written g s pos at taken covers =
     (let s = s\<lparr>wal_file := write_all_at (wal_file s) taken at,
                statistics := (statistics s)\<lparr>st_fsyncs := st_fsyncs (statistics s) + 1, st_bytes := st_bytes (statistics s) + length taken\<rparr>,
                durable_upto := max (durable_upto s) (at + length taken),
                durable_before := (case covers of Some c \<Rightarrow> max (durable_before s) (c + 1) | None \<Rightarrow> durable_before s)\<rparr>
      in if pos < durable_before s \<and> pending s = [] then (s\<lparr>committing := False\<rparr>, Returned (Inr pos))
         else commit_round g s pos)"

definition commit_refused :: "shared \<Rightarrow> bytes \<Rightarrow> shared \<times> append_pc" where
  "commit_refused s left =
     (s\<lparr>wal_file := left, failure := Some NotDurable, pending := [], pending_frames := 0, committing := False\<rparr>,
      Returned (Inl (Unavailable NotDurable)))"

section \<open>Reclamation and truncation\<close>

function reclaim_scan :: "bytes \<Rightarrow> u64 \<Rightarrow> nat \<Rightarrow> wal_error + nat" where
  "reclaim_scan bs through at =
     (if at < length bs then
        and_then (in_log (get_u32 bs at)) (\<lambda>len.
        and_then (in_log (get_u64 bs (at + 4))) (\<lambda>pos.
          if through < pos then Inr at
          else let next = at + FRAME_HEADER_BYTES + unat len
               in if length bs < next then Inr at else reclaim_scan bs through next))
      else Inr at)"
  by pat_completeness auto
termination
  by (relation "measure (\<lambda>(bs, through, at). length bs - at)") (auto simp: FRAME_HEADER_BYTES_def)

declare reclaim_scan.simps [simp del]

text \<open>The rewrite, with the lock held throughout: the state, whether a new file has taken the name
  of the log, and the answer.\<close>

definition reclaim_rewrite :: "shared \<Rightarrow> bytes \<Rightarrow> nat \<Rightarrow> device_call option \<Rightarrow> shared \<times> bool \<times> (wal_error + nat)" where
  "reclaim_rewrite s tail at refused =
     (if refused = Some OpenRewrite \<or> refused = Some WriteRewrite then (s, False, Inl (Unavailable NotRewritten))
      else if refused = Some FlushRewrite then (s, False, Inl (Unavailable NotFlushed))
      else if refused = Some RenameRewrite then (s, False, Inl (Unavailable NotReplaced))
      else let s = s\<lparr>wal_file := WAL_MAGIC @ tail, write_offset := length WAL_MAGIC + length tail,
                     durable_upto := length WAL_MAGIC + length tail, header_checksummed := True\<rparr>
           in if refused = Some FlushDirectory
              then (s\<lparr>failure := Some DirectoryNotFlushed\<rparr>, True, Inl (Unavailable DirectoryNotFlushed))
              else (s, True, Inr at))"

definition reclaim_now :: "externs \<Rightarrow> group_commit \<Rightarrow> shared \<Rightarrow> u64 \<Rightarrow> device_call option \<Rightarrow> shared \<times> bool \<times> (wal_error + nat)" where
  "reclaim_now E g s through refused =
     (let s = s\<lparr>reclaim_wanted := reclaim_wanted s - 1\<rparr>; magic = length WAL_MAGIC
      in if durable_upto s \<le> magic then (s, False, Inr 0)
         else if refused = Some ReadLog \<or> length (wal_file s) < durable_upto s then (s, False, Inl (Unavailable NotRead))
         else let bs = take (durable_upto s - magic) (drop magic (wal_file s))
              in case reclaim_scan bs through 0 of
                   Inl e \<Rightarrow> (s, False, Inl e)
                 | Inr at \<Rightarrow>
                     if at = 0 then (s, False, Inr 0)
                     else if at < length bs - at \<and> at < min_reclaim_bytes g then (s, False, Inr 0)
                     else if header_checksummed s then reclaim_rewrite s (drop at bs) at refused
                     else (case reencode E (drop at bs) 0 [] of
                             Inl e \<Rightarrow> (s, False, Inl e)
                           | Inr tail \<Rightarrow> reclaim_rewrite s tail at refused))"

text \<open>A caller of \<open>reclaim_through\<close> waits while a group is written, and gives up after a while.\<close>

datatype reclaim_pc = ReclaimWaiting u64 | ReclaimReturned "wal_error + nat"

definition reclaim_start :: "shared \<Rightarrow> shared" where
  "reclaim_start s = s\<lparr>reclaim_wanted := reclaim_wanted s + 1\<rparr>"

definition reclaim_timed_out :: "shared \<Rightarrow> shared" where
  "reclaim_timed_out s = s\<lparr>reclaim_wanted := reclaim_wanted s - 1\<rparr>"

definition truncate_to_empty :: "shared \<Rightarrow> device_call option \<Rightarrow> shared \<times> (wal_error + unit)" where
  "truncate_to_empty s refused =
     (if committing s \<or> pending s \<noteq> [] then (s, Inl (Unavailable TakingWrites))
      else if refused = Some TrimLog then (s, Inl (Unavailable NotTrimmed))
      else let s = s\<lparr>wal_file := set_len (wal_file s) (length WAL_MAGIC)\<rparr>
           in if \<not> header_checksummed s \<and> refused = Some WriteMagic then (s, Inl (Unavailable NotStarted))
              else let s = (if header_checksummed s then s
                            else s\<lparr>wal_file := write_all_at (wal_file s) WAL_MAGIC 0, header_checksummed := True\<rparr>)
                   in if refused = Some FlushLog then (s, Inl (Unavailable NotFlushed))
                      else (s\<lparr>write_offset := length WAL_MAGIC, durable_upto := length WAL_MAGIC\<rparr>, Inr ()))"

definition replay :: "externs \<Rightarrow> shared \<Rightarrow> u64 \<Rightarrow> wal_error + frame list" where
  "replay E s from =
     and_then (recover E (File (wal_file s)) None) (\<lambda>r. Inr (filter (\<lambda>f. from \<le> position f) (r_frames r)))"

section \<open>Reading frames back\<close>

definition frame_bytes :: "externs \<Rightarrow> frame \<Rightarrow> bytes" where
  "frame_bytes E f = encode_frame E (position f) (payload f) True"

definition frames_bytes :: "externs \<Rightarrow> frame list \<Rightarrow> bytes" where
  "frames_bytes E fs = concat (map (frame_bytes E) fs)"

abbreviation small :: "frame \<Rightarrow> bool" where
  "small f \<equiv> length (payload f) < 2 ^ 32"

lemma frames_bytes_simps [simp]:
  "frames_bytes E [] = []" "frames_bytes E (f # fs) = frame_bytes E f @ frames_bytes E fs"
  "frames_bytes E (fs @ gs) = frames_bytes E fs @ frames_bytes E gs"
  by (simp_all add: frames_bytes_def)

lemma length_frame_bytes [simp]: "length (frame_bytes E f) = 20 + length (payload f)"
  by (simp add: frame_bytes_def encode_frame_def)

lemma drop_frame_bytes [simp]: "drop 20 (frame_bytes E f) = payload f"
  by (simp add: frame_bytes_def encode_frame_def)

lemma frame_bytes_ne [simp]: "frame_bytes E f \<noteq> []"
  using length_frame_bytes[of E f] by (metis add_is_0 length_0_conv numeral_eq_Suc old.nat.distinct(2))

lemma frames_bytes_Nil_iff [simp]: "frames_bytes E fs = [] \<longleftrightarrow> fs = []" "[] = frames_bytes E fs \<longleftrightarrow> fs = []"
  by (cases fs; auto)+

lemma frame_parts:
  assumes "at = length pre" and "length b < 2 ^ 32"
  shows "get_u32 (pre @ encode_frame E p b hc @ rest) at = Inr (word_of_nat (length b))
    \<and> get_u64 (pre @ encode_frame E p b hc @ rest) (at + 4) = Inr p
    \<and> get_u64 (pre @ encode_frame E p b hc @ rest) (at + 12) = Inr (frame_checksum E (word_of_nat (length b)) p b hc)
    \<and> unat (word_of_nat (length b) :: u32) = length b
    \<and> take (length b) (drop (at + 20) (pre @ encode_frame E p b hc @ rest)) = b
    \<and> at + 20 + length b \<le> length (pre @ encode_frame E p b hc @ rest)"
proof -
  let ?l = "put_u32 [] (word_of_nat (length b))" and ?c = "frame_checksum E (word_of_nat (length b)) p b hc"
  have bs: "pre @ encode_frame E p b hc @ rest = pre @ ?l @ put_u64 [] p @ put_u64 [] ?c @ b @ rest"
    by (simp add: encode_frame_def put_u32_def put_u64_def)
  show ?thesis
    unfolding bs
    using assms get_u64_put[of "at + 4" "pre @ ?l" p] get_u64_put[of "at + 12" "pre @ ?l @ put_u64 [] p" ?c]
    by (simp add: unat_of_nat)
qed

lemma frame_at_written:
  "at = length pre \<Longrightarrow> small f \<Longrightarrow>
   frame_at E (pre @ frame_bytes E f @ rest) at True = Some (position f, at + 20 + length (payload f))"
  using frame_parts[of at pre "payload f" E "position f" True rest]
  by (simp add: frame_at_def frame_bytes_def FRAME_HEADER_BYTES_def Let_def)

lemma scan_frames:
  "list_all small fs \<Longrightarrow>
   scan E (pre @ frames_bytes E fs @ rest) True (length pre) acc n
     = scan E (pre @ frames_bytes E fs @ rest) True (length pre + length (frames_bytes E fs)) (acc @ fs)
         (foldl (\<lambda>n f. max n (position f + 1)) n fs)"
proof (induction fs arbitrary: pre acc n)
  case (Cons f fs)
  have f: "frame_at E (pre @ frame_bytes E f @ frames_bytes E fs @ rest) (length pre) True = Some (position f, length pre + 20 + length (payload f))"
    using Cons.prems by (intro frame_at_written) simp_all
  have x: "\<lparr>position = position f, payload = payload f\<rparr> = f" by simp
  have "scan E (pre @ frame_bytes E f @ frames_bytes E fs @ rest) True (length pre) acc n
    = scan E (pre @ frame_bytes E f @ frames_bytes E fs @ rest) True (length pre + 20 + length (payload f)) (acc @ [f]) (max n (position f + 1))"
    by (subst scan.simps) (simp add: f FRAME_HEADER_BYTES_def x)
  also have "\<dots> = scan E ((pre @ frame_bytes E f) @ frames_bytes E fs @ rest) True (length (pre @ frame_bytes E f)) (acc @ [f]) (max n (position f + 1))"
    by (simp add: ac_simps)
  also note Cons.IH
  finally show ?case using Cons.prems by (simp add: ac_simps)
qed simp

lemma scan_extends:
  "scan E bs hc at acc n = (fs, complete, m) \<Longrightarrow> (\<exists>gs. fs = acc @ gs) \<and> n \<le> m \<and> (at \<le> length bs \<longrightarrow> at \<le> complete \<and> complete \<le> length bs)"
proof (induction E bs hc at acc n rule: scan.induct)
  case (1 E bs hc at acc n)
  show ?case
  proof (cases "at < length bs \<and> frame_at E bs at hc \<noteq> None")
    case True
    then obtain pos "end" where f: "frame_at E bs at hc = Some (pos, end)" by auto
    define x where "x = \<lparr>position = pos, payload = take (end - (at + FRAME_HEADER_BYTES)) (drop (at + FRAME_HEADER_BYTES) bs)\<rparr>"
    have "scan E bs hc end (acc @ [x]) (max n (pos + 1)) = (fs, complete, m)"
      using "1.prems" True f by (subst (asm) scan.simps) (simp add: x_def)
    from "1.IH"[OF _ f refl, folded x_def, OF _ this] True frame_at_end[OF f] show ?thesis by auto
  next
    case False
    then show ?thesis using "1.prems" by (subst (asm) scan.simps) (auto split: if_splits option.splits)
  qed
qed

lemma length_WAL_MAGIC [simp]: "length WAL_MAGIC = 8" "length WAL_MAGIC_V1 = 8"
  by (simp_all add: WAL_MAGIC_def WAL_MAGIC_V1_def lit_def)

abbreviation position_after :: "u64 \<Rightarrow> frame list \<Rightarrow> u64" where
  "position_after \<equiv> foldl (\<lambda>n f. max n (position f + 1))"

lemma position_after_ge: "n \<le> position_after n fs"
  by (induction fs arbitrary: n) (auto intro: order.trans[OF max.cobounded1])

lemma less_plus_one: "p \<noteq> - 1 \<Longrightarrow> (p :: u64) < p + 1"
proof -
  assume "p \<noteq> - 1"
  then have "1 + p \<noteq> 0" by (metis add.commute eq_neg_iff_add_eq_0)
  then show ?thesis using unatSuc[of p] by (simp add: word_less_nat_alt add.commute)
qed

lemma position_after_gt: "f \<in> set fs \<Longrightarrow> position f \<noteq> - 1 \<Longrightarrow> position f < position_after n fs"
proof (induction fs arbitrary: n)
  case (Cons g fs)
  show ?case
  proof (cases "f = g")
    case True
    have "position f < max n (position g + 1)" using less_plus_one[OF Cons.prems(2)] True by (simp add: less_max_iff_disj)
    also note position_after_ge
    finally show ?thesis by simp
  qed (use Cons in simp)
qed simp

lemma recover_frames:
  assumes "list_all small fs"
  shows "\<exists>r. recover E (File (WAL_MAGIC @ frames_bytes E fs @ junk)) None = Inr r \<and> (\<exists>gs. r_frames r = fs @ gs)
    \<and> position_after 0 fs \<le> r_next_position r \<and> r_header_checksummed r"
proof -
  let ?bs = "WAL_MAGIC @ frames_bytes E fs @ junk"
  obtain ffs complete m where s: "scan E ?bs True (length WAL_MAGIC) [] 0 = (ffs, complete, m)" by (metis surj_pair)
  then have "scan E ?bs True (8 + length (frames_bytes E fs)) fs (position_after 0 fs) = (ffs, complete, m)"
    using scan_frames[OF assms, of E WAL_MAGIC junk "[]" 0] by simp
  from scan_extends[OF this] s show ?thesis by (auto simp: recover_def)
qed

text \<open>A tail that is the beginning of a frame is not a frame.\<close>

lemma torn_frame:
  assumes "small f" and "frame_bytes E f = torn @ lost" and "lost \<noteq> []" and "at = length pre"
  shows "frame_at E (pre @ torn) at True = None"
proof (cases "20 \<le> length torn")
  case True
  have len: "length torn < 20 + length (payload f)" using assms(2,3) length_frame_bytes[of E f] by (cases lost) auto
  have "get_u32 (pre @ frame_bytes E f) at = Inr (word_of_nat (length (payload f)))" "unat (word_of_nat (length (payload f)) :: u32) = length (payload f)"
    using frame_parts[OF assms(4,1), of E "position f" True "[]"] by (simp_all add: frame_bytes_def)
  moreover have "get_u32 (pre @ frame_bytes E f) at = get_u32 (pre @ torn) at"
    using True assms(4) by (simp add: assms(2) get_u32_def slice_def)
  ultimately show ?thesis using len assms(4) by (auto simp: frame_at_def FRAME_HEADER_BYTES_def split: sum.splits)
next
  case False
  then have "get_u64 (pre @ torn) (at + 12) = Inl (Incomplete FileStops)" using assms(4) by (simp add: get_u64_def slice_def)
  then show ?thesis by (auto simp: frame_at_def split: sum.splits)
qed

lemma recover_torn:
  assumes "list_all small fs" and "small f" and "frame_bytes E f = torn @ lost" and "lost \<noteq> []"
  shows "recover E (File (WAL_MAGIC @ frames_bytes E fs @ torn)) None
    = Inr \<lparr>r_frames = fs, r_durable_bytes = 8 + length (frames_bytes E fs), r_next_position = position_after 0 fs, r_header_checksummed = True\<rparr>"
proof -
  let ?bs = "WAL_MAGIC @ frames_bytes E fs @ torn"
  have "frame_at E ?bs (8 + length (frames_bytes E fs)) True = None"
    using torn_frame[OF assms(2-4), of "8 + length (frames_bytes E fs)" "WAL_MAGIC @ frames_bytes E fs"] by simp
  then have "scan E ?bs True (8 + length (frames_bytes E fs)) fs (position_after 0 fs) = (fs, 8 + length (frames_bytes E fs), position_after 0 fs)"
    by (subst scan.simps) simp
  then have "scan E ?bs True 8 [] 0 = (fs, 8 + length (frames_bytes E fs), position_after 0 fs)"
    using scan_frames[OF assms(1), of E WAL_MAGIC torn "[]" 0] by simp
  then show ?thesis by (simp add: recover_def)
qed

section \<open>Groups\<close>

lemma get_frame_end: "at = length bs \<Longrightarrow> get_u32 bs at = Inl (Incomplete FileStops)"
  by (simp add: get_u32_def slice_def)

lemma frame_header:
  assumes "small f" and "at = length pre"
  shows "get_u32 (pre @ frame_bytes E f @ rest) at = Inr (word_of_nat (length (payload f)))"
    and "get_u64 (pre @ frame_bytes E f @ rest) (at + 4) = Inr (position f)"
    and "unat (word_of_nat (length (payload f)) :: u32) = length (payload f)"
  using frame_parts[OF assms(2,1), of E "position f" True rest] by (simp_all add: frame_bytes_def)

lemma frames_in_frames: "list_all small fs \<Longrightarrow> frames_in (pre @ frames_bytes E fs) (length pre) = length fs"
proof (induction fs arbitrary: pre)
  case Nil
  then show ?case by (subst frames_in.simps) (simp add: get_frame_end)
next
  case (Cons f fs)
  then show ?case
    using Cons.IH[of "pre @ frame_bytes E f"]
    by (subst frames_in.simps) (simp add: frame_header FRAME_HEADER_BYTES_def ac_simps)
qed

lemma last_position_frames:
  "list_all small fs \<Longrightarrow>
   last_position_in (pre @ frames_bytes E fs) (length pre) found = (if fs = [] then found else Some (position (last fs)))"
proof (induction fs arbitrary: pre found)
  case Nil
  then show ?case by (subst last_position_in.simps) (simp add: get_frame_end)
next
  case (Cons f fs)
  then show ?case
    using Cons.IH[of "pre @ frame_bytes E f" "Some (position f)"]
    by (subst last_position_in.simps) (simp add: frame_header FRAME_HEADER_BYTES_def ac_simps)
qed

lemma frame_boundary_frames:
  "list_all small fs \<Longrightarrow> pre = frames_bytes E ps \<Longrightarrow>
   \<exists>as bs. fs = as @ bs \<and> frame_boundary_before (pre @ frames_bytes E fs) limit (length pre) = length pre + length (frames_bytes E as)
     \<and> (fs \<noteq> [] \<longrightarrow> ps = [] \<longrightarrow> as \<noteq> []) \<and> (length pre + length (frames_bytes E as) \<le> max limit (length pre) \<or> ps = [] \<and> length as = 1)"
proof (induction fs arbitrary: pre ps)
  case Nil
  then show ?case by (subst frame_boundary_before.simps) (simp add: get_frame_end)
next
  case (Cons f fs)
  let ?bs = "pre @ frame_bytes E f @ frames_bytes E fs"
  let ?next = "length pre + 20 + length (payload f)"
  have b: "frame_boundary_before ?bs limit (length pre) =
      (if limit < ?next then (if pre = [] then ?next else length pre) else frame_boundary_before ?bs limit ?next)"
    using Cons.prems by (subst frame_boundary_before.simps) (simp add: frame_header FRAME_HEADER_BYTES_def)
  show ?case
  proof (cases "limit < ?next")
    case True
    show ?thesis
    proof (cases "ps = []")
      case True
      then show ?thesis using b \<open>limit < ?next\<close> Cons.prems(2) by (intro exI[of _ "[f]"] exI[of _ fs]) simp
    next
      case False
      then show ?thesis using b \<open>limit < ?next\<close> Cons.prems(2) by (intro exI[of _ "[]"] exI[of _ "f # fs"]) simp
    qed
  next
    case False
    have "list_all small fs" using Cons.prems by simp
    from Cons.IH[OF this, of "pre @ frame_bytes E f" "ps @ [f]"] obtain as bs where
      "fs = as @ bs" "frame_boundary_before ?bs limit ?next = ?next + length (frames_bytes E as)"
      "?next + length (frames_bytes E as) \<le> max limit ?next"
      using Cons.prems(2) by (auto simp: ac_simps)
    then show ?thesis using b False by (intro exI[of _ "f # as"] exI[of _ bs]) auto
  qed
qed

definition same_log :: "shared \<Rightarrow> shared \<Rightarrow> bool" where
  "same_log s s' \<longleftrightarrow> wal_file s' = wal_file s \<and> durable_upto s' = durable_upto s \<and> durable_before s' = durable_before s
     \<and> next_position s' = next_position s \<and> failure s' = failure s \<and> header_checksummed s' = header_checksummed s
     \<and> reclaim_wanted s' = reclaim_wanted s"

lemma take_group_frames:
  assumes "pending s = frames_bytes E ps" and "list_all small ps"
  obtains as bs s' where "take_group g s = (frames_bytes E as, s')" and "ps = as @ bs" and "pending s' = frames_bytes E bs"
    and "same_log s s'" and "write_offset s' = write_offset s" and "committing s' = committing s" and "ps \<noteq> [] \<longrightarrow> as \<noteq> []"
    and "length (frames_bytes E as) \<le> max_group_bytes g \<or> length as = 1"
proof (cases "max_group_bytes g < length (pending s) \<or> max_group_frames g < pending_frames s")
  case True
  obtain as bs where a: "ps = as @ bs" "frame_boundary_before (frames_bytes E ps) (max_group_bytes g) 0 = length (frames_bytes E as)"
      "ps \<noteq> [] \<longrightarrow> as \<noteq> []" "length (frames_bytes E as) \<le> max_group_bytes g \<or> length as = 1"
    using frame_boundary_frames[OF assms(2), of "[]" E "[]" "max_group_bytes g"] by auto
  then show ?thesis using that[of as _ bs] assms(1) True by (simp add: take_group_def Let_def same_log_def)
next
  case False
  then show ?thesis using that[of ps _ "[]"] assms(1) by (simp add: take_group_def same_log_def)
qed

section \<open>What recovery keeps\<close>

lemma beyond_none: "a < n \<Longrightarrow> beyond E bs hc complete n a = []"
proof -
  assume "a < n"
  then have "filter (\<lambda>offset. case get_u64 bs (offset + 4) of Inr pos \<Rightarrow> n \<le> pos \<and> pos \<le> a | Inl _ \<Rightarrow> False) xs = []" for xs
    by (auto simp: filter_empty_conv split: sum.splits)
  then show ?thesis by (simp add: beyond_def map_filter_simps)
qed

lemma beyond_some:
  assumes "offset \<in> {complete + 1 ..< length bs}" and "get_u64 bs (offset + 4) = Inr p" and "n \<le> p" "p \<le> a" and "frame_at E bs offset hc = Some (p, end)"
  shows "\<exists>q qs. beyond E bs hc complete n a = q # qs"
proof -
  have "p \<in> set (beyond E bs hc complete n a)"
    using assms unfolding beyond_def List.map_filter_def by (force simp: image_iff)
  then show ?thesis by (cases "beyond E bs hc complete n a") auto
qed

lemma recover_scanned:
  assumes "list_all small fs" and "frame_at E (WAL_MAGIC @ frames_bytes E fs @ tail) (8 + length (frames_bytes E fs)) True = None"
  shows "scan E (WAL_MAGIC @ frames_bytes E fs @ tail) True 8 [] 0 = (fs, 8 + length (frames_bytes E fs), position_after 0 fs)"
proof -
  have "scan E (WAL_MAGIC @ frames_bytes E fs @ tail) True (8 + length (frames_bytes E fs)) fs (position_after 0 fs)
      = (fs, 8 + length (frames_bytes E fs), position_after 0 fs)"
    using assms(2) by (subst scan.simps) simp
  then show ?thesis using scan_frames[OF assms(1), of E WAL_MAGIC tail "[]" 0] by simp
qed

text \<open>C16: Recovery cuts a torn end and nothing else. A log whose last frame was only partly written gives
  all the frames before it, and the cut is exactly where that frame begins; a log that is damaged before a frame
  the store has acknowledged is refused, so that nobody cuts it.\<close>

theorem recovery_cuts_only_torn_end:
  assumes "list_all small fs" and "small f"
  shows "(frame_bytes E f = torn @ lost \<and> lost \<noteq> [] \<and> (\<forall>a. ack = Some a \<longrightarrow> a < position_after 0 fs) \<longrightarrow>
      recover E (File (WAL_MAGIC @ frames_bytes E fs @ torn)) ack
        = Inr \<lparr>r_frames = fs, r_durable_bytes = length (WAL_MAGIC @ frames_bytes E fs), r_next_position = position_after 0 fs, r_header_checksummed = True\<rparr>)
    \<and> (damage \<noteq> [] \<and> frame_at E (WAL_MAGIC @ frames_bytes E fs @ damage @ frame_bytes E f @ rest) (length (WAL_MAGIC @ frames_bytes E fs)) True = None
        \<and> position_after 0 fs \<le> position f \<and> position f \<le> a \<longrightarrow>
      (\<exists>p. recover E (File (WAL_MAGIC @ frames_bytes E fs @ damage @ frame_bytes E f @ rest)) (Some a)
        = Inl (WalDamaged (DamagedInTheMiddle (length (WAL_MAGIC @ frames_bytes E fs)) p))))"
proof (intro conjI impI)
  assume t: "frame_bytes E f = torn @ lost \<and> lost \<noteq> [] \<and> (\<forall>a. ack = Some a \<longrightarrow> a < position_after 0 fs)"
  have "frame_at E (WAL_MAGIC @ frames_bytes E fs @ torn) (8 + length (frames_bytes E fs)) True = None"
    using torn_frame[OF assms(2), of E torn lost "8 + length (frames_bytes E fs)" "WAL_MAGIC @ frames_bytes E fs"] t by simp
  from recover_scanned[OF assms(1) this] show "recover E (File (WAL_MAGIC @ frames_bytes E fs @ torn)) ack
      = Inr \<lparr>r_frames = fs, r_durable_bytes = length (WAL_MAGIC @ frames_bytes E fs), r_next_position = position_after 0 fs, r_header_checksummed = True\<rparr>"
    using t by (auto simp: recover_def beyond_none split: option.splits bool.splits)
next
  let ?bs = "WAL_MAGIC @ frames_bytes E fs @ damage @ frame_bytes E f @ rest" and ?at = "8 + length (frames_bytes E fs)"
  assume d: "damage \<noteq> [] \<and> frame_at E ?bs (length (WAL_MAGIC @ frames_bytes E fs)) True = None \<and> position_after 0 fs \<le> position f \<and> position f \<le> a"
  let ?offset = "?at + length damage" and ?pre = "WAL_MAGIC @ frames_bytes E fs @ damage"
  have "get_u64 ?bs (?offset + 4) = Inr (position f)"
    using frame_header(2)[OF assms(2), of ?offset ?pre E rest] by simp
  moreover have "frame_at E ?bs ?offset True = Some (position f, ?offset + 20 + length (payload f))"
    using frame_at_written[of ?offset ?pre f E rest] assms(2) by simp
  moreover have "?offset \<in> {?at + 1 ..< length ?bs}" using d by (cases damage) auto
  ultimately obtain q qs where "beyond E ?bs True ?at (position_after 0 fs) a = q # qs"
    using beyond_some[of ?offset ?at ?bs "position f" "position_after 0 fs" a E True] d by blast
  moreover have "scan E ?bs True 8 [] 0 = (fs, ?at, position_after 0 fs)" using recover_scanned[OF assms(1)] d by simp
  ultimately show "\<exists>p. recover E (File ?bs) (Some a) = Inl (WalDamaged (DamagedInTheMiddle (length (WAL_MAGIC @ frames_bytes E fs)) p))"
    by (simp add: recover_def)
qed

theorem recovery_cuts_only_torn_end_witness:
  "recover plain_externs (File (WAL_MAGIC @ frames_bytes plain_externs [\<lparr>position = 0, payload = [9]\<rparr>]
      @ take 20 (frame_bytes plain_externs \<lparr>position = 1, payload = [8]\<rparr>))) (Some 0)
    = Inr \<lparr>r_frames = [\<lparr>position = 0, payload = [9]\<rparr>], r_durable_bytes = 29, r_next_position = 1, r_header_checksummed = True\<rparr>
   \<and> (\<exists>p. recover plain_externs (File (WAL_MAGIC @ [255] @ frame_bytes plain_externs \<lparr>position = 1, payload = [8]\<rparr>)) (Some 1)
        = Inl (WalDamaged (DamagedInTheMiddle 8 p)))"
proof -
  let ?f = "\<lparr>position = 1 :: u64, payload = [8]\<rparr>" and ?E = plain_externs
  have "frame_bytes ?E ?f = take 20 (frame_bytes ?E ?f) @ [8]" using append_take_drop_id[of 20 "frame_bytes ?E ?f"] by simp
  moreover have "frame_at ?E (WAL_MAGIC @ frames_bytes ?E [] @ [255] @ frame_bytes ?E ?f @ []) (length (WAL_MAGIC @ frames_bytes ?E [])) True = None"
    by code_simp
  ultimately show ?thesis
    using recovery_cuts_only_torn_end[of "[\<lparr>position = 0, payload = [9]\<rparr>]" ?f ?E "take 20 (frame_bytes ?E ?f)" "[8]" "Some 0" "[255]" "[]" 1]
      recovery_cuts_only_torn_end[of "[]" ?f ?E "[]" "[]" None "[255]" "[]" 1]
    by (simp del: frames_bytes_simps(1)) simp
qed

end
