(* ===== verification/Wal_Invariant.thy ===== *)
theory Wal_Invariant
  imports Wal
begin

text \<open>
  Many callers of one append log, \<^verbatim>\<open>tallyowl-store/src/wal.rs\<close>: the steps they make between two
  holds of the lock, what a power loss may leave of the file, and the invariant of every state they
  reach. The invariant says where each frame is: durable, in the group being written, or pending.
\<close>

section \<open>Many callers\<close>

text \<open>
  The callers of a log, in the order they came, and what happened to them. \<open>sys_released\<close> are the
  positions the store has given up, by a reclamation or a truncation; \<open>sys_found\<close> the frames the
  log held when it was opened; \<open>sys_old\<close> what the name of the log may still stand for after a power
  loss, because a rename has not been flushed.
\<close>

record wal_system =
  sys_log :: shared
  sys_appends :: "(bytes \<times> append_pc) list"
  sys_reclaims :: "reclaim_pc list"
  sys_released :: "u64 set"
  sys_found :: "frame list"
  sys_old :: "bytes list"

definition renamed :: "shared \<Rightarrow> shared \<Rightarrow> bool \<Rightarrow> wal_error + nat \<Rightarrow> bytes list \<Rightarrow> bytes list" where
  "renamed before after replaced r old =
     (if \<not> replaced then old
      else if failure after = Some DirectoryNotFlushed \<and> r = Inl (Unavailable DirectoryNotFlushed)
      then take (durable_upto before) (wal_file before) # old
      else [])"

text \<open>A call of the log from outside. A reclamation that finds no group being written does not let
  go of the lock.\<close>

inductive wal_call :: "externs \<Rightarrow> group_commit \<Rightarrow> wal_system \<Rightarrow> wal_system \<Rightarrow> bool" for E g where
  append: "length body < 2 ^ 32 \<Longrightarrow> next_position (sys_log y) \<noteq> - 1 \<Longrightarrow>
    append_start E g (sys_log y) body = (s, pc) \<Longrightarrow>
    wal_call E g y (y\<lparr>sys_log := s, sys_appends := sys_appends y @ [(body, pc)]\<rparr>)"
| reclaim: "committing (sys_log y) \<Longrightarrow>
    wal_call E g y (y\<lparr>sys_log := reclaim_start (sys_log y), sys_reclaims := sys_reclaims y @ [ReclaimWaiting through],
      sys_released := sys_released y \<union> {p. p \<le> through}\<rparr>)"
| reclaim_at_once: "\<not> committing (sys_log y) \<Longrightarrow> reclaim_now E g (reclaim_start (sys_log y)) through refused = (s, replaced, r) \<Longrightarrow>
    wal_call E g y (y\<lparr>sys_released := sys_released y \<union> {p. p \<le> through}, sys_log := s,
      sys_reclaims := sys_reclaims y @ [ReclaimReturned r], sys_old := renamed (sys_log y) s replaced r (sys_old y)\<rparr>)"
| truncate_log: "refused \<in> {None, Some TrimLog} \<Longrightarrow> truncate_to_empty (sys_log y) refused = (s, r) \<Longrightarrow>
    wal_call E g y (y\<lparr>sys_log := s,
      sys_released := sys_released y \<union> (if r = Inr () then {p. p < next_position (sys_log y)} else {})\<rparr>)"
| start: "sys_appends y = [] \<Longrightarrow> wal_call E g y (y\<lparr>sys_log := start_at_least (sys_log y) floor\<rparr>)"

text \<open>A step of a call that has not returned. A caller that wakes and goes back to waiting has
  not made one.\<close>

inductive wal_step :: "externs \<Rightarrow> group_commit \<Rightarrow> wal_system \<Rightarrow> wal_system \<Rightarrow> bool" for E g where
  woken: "i < length (sys_appends y) \<Longrightarrow> sys_appends y ! i = (body, Waiting p) \<Longrightarrow>
    append_wait g (sys_log y) p = (s, pc) \<Longrightarrow> pc \<noteq> Waiting p \<Longrightarrow>
    wal_step E g y (y\<lparr>sys_log := s, sys_appends := (sys_appends y)[i := (body, pc)]\<rparr>)"
| lingered: "i < length (sys_appends y) \<Longrightarrow> sys_appends y ! i = (body, Lingering p) \<Longrightarrow>
    commit_round g (sys_log y) p = (s, pc) \<Longrightarrow>
    wal_step E g y (y\<lparr>sys_log := s, sys_appends := (sys_appends y)[i := (body, pc)]\<rparr>)"
| written: "i < length (sys_appends y) \<Longrightarrow> sys_appends y ! i = (body, Writing p at taken covers) \<Longrightarrow>
    commit_written g (sys_log y) p at taken covers = (s, pc) \<Longrightarrow>
    wal_step E g y (y\<lparr>sys_log := s, sys_appends := (sys_appends y)[i := (body, pc)]\<rparr>)"
| refused: "i < length (sys_appends y) \<Longrightarrow> sys_appends y ! i = (body, Writing p at taken covers) \<Longrightarrow>
    take at left = take at (wal_file (sys_log y)) \<Longrightarrow> commit_refused (sys_log y) left = (s, pc) \<Longrightarrow>
    wal_step E g y (y\<lparr>sys_log := s, sys_appends := (sys_appends y)[i := (body, pc)]\<rparr>)"
| reclaimed: "j < length (sys_reclaims y) \<Longrightarrow> sys_reclaims y ! j = ReclaimWaiting through \<Longrightarrow> \<not> committing (sys_log y) \<Longrightarrow>
    reclaim_now E g (sys_log y) through refused = (s, replaced, r) \<Longrightarrow>
    wal_step E g y (y\<lparr>sys_log := s, sys_reclaims := (sys_reclaims y)[j := ReclaimReturned r],
      sys_old := renamed (sys_log y) s replaced r (sys_old y)\<rparr>)"
| gave_up: "j < length (sys_reclaims y) \<Longrightarrow> sys_reclaims y ! j = ReclaimWaiting through \<Longrightarrow> committing (sys_log y) \<Longrightarrow>
    wal_step E g y (y\<lparr>sys_log := reclaim_timed_out (sys_log y), sys_reclaims := (sys_reclaims y)[j := ReclaimReturned (Inr 0)]\<rparr>)"

inductive_cases wal_callE: "wal_call E g y z"
inductive_cases wal_stepE: "wal_step E g y z"

text \<open>A log from its opening on.\<close>

definition opened_system :: "shared \<Rightarrow> frame list \<Rightarrow> wal_system" where
  "opened_system s found =
     \<lparr>sys_log = s, sys_appends = [], sys_reclaims = [], sys_released = {}, sys_found = found, sys_old = []\<rparr>"

inductive wal_reaches :: "externs \<Rightarrow> group_commit \<Rightarrow> wal_system \<Rightarrow> wal_system \<Rightarrow> bool" for E g where
  here: "wal_reaches E g y y"
| call: "wal_reaches E g y z \<Longrightarrow> wal_call E g z z' \<Longrightarrow> wal_reaches E g y z'"
| step: "wal_reaches E g y z \<Longrightarrow> wal_step E g z z' \<Longrightarrow> wal_reaches E g y z'"

text \<open>What a power loss may leave: everything that was flushed, and after it anything.\<close>

definition crash_image :: "wal_system \<Rightarrow> bytes \<Rightarrow> bool" where
  "crash_image y found \<longleftrightarrow>
     (\<exists>junk. found = take (durable_upto (sys_log y)) (wal_file (sys_log y)) @ junk \<or> (\<exists>old\<in>set (sys_old y). found = old @ junk))"

section \<open>What the log holds\<close>

text \<open>\<open>F\<close> are the frames that are durable, \<open>W\<close> those of the group being written, \<open>P\<close> the
  pending ones.\<close>

definition log_ok :: "externs \<Rightarrow> shared \<Rightarrow> frame list \<Rightarrow> frame list \<Rightarrow> frame list \<Rightarrow> bool" where
  "log_ok E s F W P \<longleftrightarrow> header_checksummed s \<and> durable_upto s \<le> length (wal_file s)
     \<and> take (durable_upto s) (wal_file s) = WAL_MAGIC @ frames_bytes E F \<and> pending s = frames_bytes E P
     \<and> list_all small (F @ W @ P) \<and> sorted_wrt (<) (map position (W @ P))
     \<and> (\<forall>f\<in>set F. position f < durable_before s)
     \<and> (\<forall>f\<in>set (W @ P). durable_before s \<le> position f \<and> position f < next_position s) \<and> durable_before s \<le> next_position s"

definition placed :: "u64 set \<Rightarrow> frame list \<Rightarrow> u64 \<Rightarrow> bytes \<Rightarrow> bool" where
  "placed R F p body \<longleftrightarrow> p \<in> R \<or> \<lparr>position = p, payload = body\<rparr> \<in> set F"

text \<open>Where the frame of a caller is.\<close>

definition held :: "shared \<Rightarrow> frame list \<Rightarrow> frame list \<Rightarrow> u64 set \<Rightarrow> u64 \<Rightarrow> bytes \<Rightarrow> bool" where
  "held s F Q R p body \<longleftrightarrow> p < next_position s
     \<and> (if p < durable_before s then placed R F p body else failure s \<noteq> None \<or> \<lparr>position = p, payload = body\<rparr> \<in> set Q)"

fun owned :: "shared \<Rightarrow> frame list \<Rightarrow> frame list \<Rightarrow> u64 set \<Rightarrow> bytes \<times> append_pc \<Rightarrow> bool" where
  "owned s F Q R (body, Waiting p) = held s F Q R p body"
| "owned s F Q R (body, Lingering p) = held s F Q R p body"
| "owned s F Q R (body, Writing p at taken covers) = held s F Q R p body"
| "owned s F Q R (body, Returned (Inr p)) = (p < durable_before s \<and> placed R F p body)"
| "owned s F Q R (body, Returned (Inl e)) = (failure s \<noteq> None)"

text \<open>How the log may change under the callers.\<close>

definition evolves :: "shared \<Rightarrow> frame list \<Rightarrow> frame list \<Rightarrow> u64 set \<Rightarrow> shared \<Rightarrow> frame list \<Rightarrow> frame list \<Rightarrow> u64 set \<Rightarrow> bool" where
  "evolves s F Q R s' F' Q' R' \<longleftrightarrow> next_position s \<le> next_position s' \<and> durable_before s \<le> durable_before s'
     \<and> (failure s \<noteq> None \<longrightarrow> failure s' \<noteq> None) \<and> (failure s' \<noteq> None \<longrightarrow> durable_before s' = durable_before s)
     \<and> R \<subseteq> R' \<and> (\<forall>f\<in>set F. position f \<in> R' \<or> f \<in> set F')
     \<and> (\<forall>f\<in>set Q. failure s' \<noteq> None \<or> (if position f < durable_before s' then f \<in> set F' else f \<in> set Q'))"

lemma placed_mono: "placed R F p body \<Longrightarrow> R \<subseteq> R' \<Longrightarrow> \<forall>f\<in>set F. position f \<in> R' \<or> f \<in> set F' \<Longrightarrow> placed R' F' p body"
  by (force simp: placed_def)

lemma held_mono:
  assumes "held s F Q R p body" and "evolves s F Q R s' F' Q' R'" and "\<forall>f\<in>set Q. durable_before s \<le> position f"
  shows "held s' F' Q' R' p body"
proof (cases "p < durable_before s")
  case True
  then show ?thesis using assms placed_mono[of R F p body R' F'] by (auto simp: held_def evolves_def)
next
  case False
  then show ?thesis using assms by (fastforce simp: held_def evolves_def placed_def split: if_splits)
qed

lemma owned_mono:
  "owned s F Q R x \<Longrightarrow> evolves s F Q R s' F' Q' R' \<Longrightarrow> \<forall>f\<in>set Q. durable_before s \<le> position f \<Longrightarrow> owned s' F' Q' R' x"
  using held_mono[of s F Q R _ _ s' F' Q' R'] placed_mono[of R F _ _ R' F']
  by (induction s F Q R x rule: owned.induct) (auto simp: evolves_def)

section \<open>What each operation does to it\<close>

text \<open>The result of the committer's loop: the committer has returned with its frame durable, or a
  group \<open>W\<close> is being written.\<close>

definition round_ok :: "externs \<Rightarrow> shared \<Rightarrow> frame list \<Rightarrow> frame list \<Rightarrow> u64 \<Rightarrow> shared \<Rightarrow> append_pc \<Rightarrow> frame list \<Rightarrow> frame list \<Rightarrow> bool" where
  "round_ok E s F P p s' pc W P' \<longleftrightarrow> P = W @ P' \<and> log_ok E s' F W P'
     \<and> same_log s s'
     \<and> (W = [] \<and> pc = Returned (Inr p) \<and> p < durable_before s \<and> \<not> committing s' \<and> write_offset s' = write_offset s
        \<or> W \<noteq> [] \<and> pc = Writing p (durable_upto s) (frames_bytes E W) (Some (position (last W))) \<and> committing s'
          \<and> write_offset s' = durable_upto s + length (frames_bytes E W))"

lemma commit_round_ok:
  assumes ok: "log_ok E s F [] P" and off: "write_offset s = durable_upto s" and "committing s" and "failure s = None"
    and p: "held s F P R p body" and r: "commit_round g s p = (s', pc)"
  shows "\<exists>W P'. round_ok E s F P p s' pc W P'"
proof (cases "0 < reclaim_wanted s \<and> p < durable_before s")
  case True
  then show ?thesis using assms
    by - (rule exI[of _ "[]"], rule exI[of _ P], auto simp: commit_round_def round_ok_def log_ok_def same_log_def)
next
  case False
  have small: "list_all small P" and pend: "pending s = frames_bytes E P" using ok by (simp_all add: log_ok_def)
  obtain W P' s1 where t: "take_group g s = (frames_bytes E W, s1)" "P = W @ P'" "pending s1 = frames_bytes E P'" "same_log s s1"
      "write_offset s1 = write_offset s" "committing s1 = committing s" "P \<noteq> [] \<longrightarrow> W \<noteq> []"
    by (rule take_group_frames[OF pend small, of g])
  show ?thesis
  proof (cases "W = []")
    case True
    have "P = []" using t(7) True by blast
    then have P: "P = []" "P' = []" using t(2) by simp_all
    then have "p < durable_before s" using p assms(4) by (auto simp: held_def split: if_splits)
    then have e: "s' = s1\<lparr>committing := False\<rparr>" "pc = Returned (Inr p)" using r False t(1,4) True by (auto simp: commit_round_def same_log_def)
    then show ?thesis
      using ok t(3-6) P \<open>p < durable_before s\<close> by (intro exI[of _ "[]"] exI[of _ "[]"]) (simp add: round_ok_def log_ok_def same_log_def)
  next
    case False
    have "frames_bytes E W \<noteq> []" using False by simp
    moreover have "last_position_in (frames_bytes E W) 0 None = Some (position (last W))"
      using last_position_frames[of W "[]" E None] small t(2) False by simp
    ultimately have e: "pc = Writing p (durable_upto s) (frames_bytes E W) (Some (position (last W)))"
        "same_log s1 s'" "write_offset s' = durable_upto s + length (frames_bytes E W)" "pending s' = pending s1" "committing s' = committing s1"
      using r \<open>\<not> (0 < reclaim_wanted s \<and> p < durable_before s)\<close> t(1,5) off by (auto simp: commit_round_def Let_def same_log_def)
    then show ?thesis
      using ok t False assms(3) by (intro exI[of _ W] exI[of _ P']) (auto simp: round_ok_def log_ok_def same_log_def)
  qed
qed

text \<open>A log opened for a caller that finds no committer.\<close>

lemma log_ok_committing [simp]: "log_ok E (s\<lparr>committing := b\<rparr>) F W P = log_ok E s F W P"
  by (simp add: log_ok_def)

lemma held_committing [simp]: "held (s\<lparr>committing := b\<rparr>) F Q R p body = held s F Q R p body"
  by (simp add: held_def)

lemma append_wait_cases:
  assumes ok: "log_ok E s F W P" and p: "held s F (W @ P) R p body" and r: "append_wait g s p = (s', pc)"
    and idle: "\<not> committing s \<longrightarrow> W = [] \<and> (failure s = None \<longrightarrow> write_offset s = durable_upto s)"
  shows "s' = s \<and> (pc = Waiting p \<or> pc = Returned (Inr p) \<and> p < durable_before s \<or> (\<exists>e. pc = Returned (Inl e) \<and> failure s \<noteq> None))
    \<or> \<not> committing s \<and> failure s = None \<and> (s' = s\<lparr>committing := True\<rparr> \<and> pc = Lingering p
        \<or> (\<exists>W' P'. round_ok E (s\<lparr>committing := True\<rparr>) F P p s' pc W' P'))"
proof (cases "p < durable_before s \<or> failure s \<noteq> None \<or> committing s \<or> reclaim_wanted s \<noteq> 0 \<or> lingers g")
  case True
  then show ?thesis using r by (auto simp: append_wait_def Let_def split: option.splits if_splits)
next
  case False
  then have "commit_round g (s\<lparr>committing := True\<rparr>) p = (s', pc)" using r by (simp add: append_wait_def)
  from commit_round_ok[OF _ _ _ _ _ this, of E F P R body] show ?thesis using False idle ok p by simp
qed

definition written_log :: "shared \<Rightarrow> nat \<Rightarrow> bytes \<Rightarrow> u64 option \<Rightarrow> shared" where
  "written_log s at taken covers =
     s\<lparr>wal_file := write_all_at (wal_file s) taken at,
       statistics := (statistics s)\<lparr>st_fsyncs := st_fsyncs (statistics s) + 1, st_bytes := st_bytes (statistics s) + length taken\<rparr>,
       durable_upto := max (durable_upto s) (at + length taken),
       durable_before := (case covers of Some c \<Rightarrow> max (durable_before s) (c + 1) | None \<Rightarrow> durable_before s)\<rparr>"

lemma commit_written_alt:
  "commit_written g s pos at taken covers =
     (let s = written_log s at taken covers
      in if pos < durable_before s \<and> pending s = [] then (s\<lparr>committing := False\<rparr>, Returned (Inr pos)) else commit_round g s pos)"
  by (simp add: commit_written_def written_log_def)

lemma last_is_largest: "sorted_wrt (<) (map position (W @ P)) \<Longrightarrow> W \<noteq> [] \<Longrightarrow> f \<in> set W \<Longrightarrow> position f \<le> position (last W)"
  by (cases W rule: rev_cases) (auto simp: sorted_wrt_append)

lemma word_le_less_plus_one:
  assumes "(a :: u64) < b"
  shows "a < a + 1 \<and> (\<forall>x. x \<le> a \<longrightarrow> x < a + 1) \<and> a + 1 \<le> b"
proof -
  have "a \<noteq> - 1" using assms by (metis word_n1_ge leD)
  then have l: "a < a + 1" and "1 + a \<noteq> 0" using less_plus_one[of a] by (auto simp: add.commute)
  then have "unat (a + 1) = Suc (unat a)" using unatSuc[of a] by (simp add: add.commute)
  then have "a + 1 \<le> b" using assms by (simp add: word_le_nat_alt word_less_nat_alt)
  then show ?thesis using l by (auto intro: le_less_trans)
qed

lemma write_all_at_take:
  "at \<le> length bs \<Longrightarrow> take (at + length new) (write_all_at bs new at) = take at bs @ new \<and> at + length new \<le> length (write_all_at bs new at)"
  by (simp add: write_all_at_def set_len_def min_def)

lemma written_log_ok:
  assumes ok: "log_ok E s F W P" and "W \<noteq> []" and "failure s = None"
  defines "s1 \<equiv> written_log s (durable_upto s) (frames_bytes E W) (Some (position (last W)))"
  shows "log_ok E s1 (F @ W) [] P" and "evolves s F (W @ P) R s1 (F @ W) P R"
    and "durable_upto s1 = durable_upto s + length (frames_bytes E W)"
proof -
  let ?c = "position (last W)"
  have last: "last W \<in> set (W @ P)" using assms(2) by simp
  then have c: "durable_before s \<le> ?c" "?c < next_position s" using ok by (auto simp: log_ok_def)
  note plus = word_le_less_plus_one[OF c(2)]
  have "durable_before s \<le> ?c + 1" using c(1) plus by (meson less_imp_le order.trans)
  then have db: "durable_before s1 = ?c + 1" by (simp add: s1_def written_log_def max_def)
  have W: "position f < ?c + 1" if "f \<in> set W" for f
    using last_is_largest[OF _ assms(2) that, of P] ok plus by (auto simp: log_ok_def)
  have FF: "position f < ?c + 1" if "f \<in> set F" for f
    using ok that c(1) plus by (auto simp: log_ok_def intro: less_le_trans)
  have P: "?c + 1 \<le> position f" if "f \<in> set P" for f
  proof -
    have "?c < position f" using ok that assms(2) by (auto simp: log_ok_def sorted_wrt_append)
    from word_le_less_plus_one[OF this] show ?thesis by simp
  qed
  have "take (durable_upto s1) (wal_file s1) = take (durable_upto s) (wal_file s) @ frames_bytes E W" "durable_upto s1 \<le> length (wal_file s1)"
    "durable_upto s1 = durable_upto s + length (frames_bytes E W)"
    using write_all_at_take[of "durable_upto s" "wal_file s" "frames_bytes E W"] ok by (auto simp: s1_def written_log_def log_ok_def max_def)
  then show "log_ok E s1 (F @ W) [] P" "durable_upto s1 = durable_upto s + length (frames_bytes E W)"
    using ok db P plus W FF by (auto simp: log_ok_def s1_def written_log_def sorted_wrt_append)
  show "evolves s F (W @ P) R s1 (F @ W) P R"
    using W P db c(1) plus assms(3) by (auto simp: evolves_def s1_def written_log_def not_less[symmetric])
qed

lemma commit_written_ok:
  assumes ok: "log_ok E s F W P" and W: "W \<noteq> []" and fail: "failure s = None" and "committing s"
    and off: "write_offset s = durable_upto s + length (frames_bytes E W)" and p: "held s F (W @ P) R p body"
    and r: "commit_written g s p (durable_upto s) (frames_bytes E W) (Some (position (last W))) = (s', pc)"
  shows "\<exists>s1 W' P'. evolves s F (W @ P) R s1 (F @ W) P R \<and> same_log s1 s' \<and> reclaim_wanted s1 = reclaim_wanted s \<and> failure s1 = None
    \<and> write_offset s1 = durable_upto s1 \<and> round_ok E s1 (F @ W) P p s' pc W' P'"
proof -
  define s1 where "s1 = written_log s (durable_upto s) (frames_bytes E W) (Some (position (last W)))"
  note l = written_log_ok[OF ok W fail, folded s1_def]
  have s1: "failure s1 = None" "write_offset s1 = durable_upto s1" "committing s1" "reclaim_wanted s1 = reclaim_wanted s"
    using fail off assms(4) l(3) by (simp_all add: s1_def written_log_def)
  have h: "held s1 (F @ W) P R p body" using held_mono[OF p l(2)] ok by (simp add: log_ok_def)
  have "\<exists>W' P'. round_ok E s1 (F @ W) P p s' pc W' P'"
  proof (cases "p < durable_before s1 \<and> pending s1 = []")
    case True
    then have "s' = s1\<lparr>committing := False\<rparr>" "pc = Returned (Inr p)"
      using r by (auto simp: commit_written_alt s1_def[symmetric])
    moreover have "frames_bytes E P = []" using True l(1) by (simp add: log_ok_def)
    ultimately show ?thesis using True l(1) by (intro exI[of _ "[]"] exI[of _ "[]"]) (simp add: round_ok_def same_log_def)
  next
    case False
    then have "commit_round g s1 p = (s', pc)" using r by (auto simp: commit_written_alt s1_def[symmetric] Let_def split: if_splits)
    from commit_round_ok[OF l(1) s1(2,3,1) h this] show ?thesis .
  qed
  then obtain W' P' where "round_ok E s1 (F @ W) P p s' pc W' P'" by blast
  moreover from this have "same_log s1 s'" by (simp add: round_ok_def)
  ultimately show ?thesis using l(2) s1 by blast
qed

lemma commit_refused_ok:
  assumes ok: "log_ok E s F W P" and left: "take (durable_upto s) left = take (durable_upto s) (wal_file s)"
    and r: "commit_refused s left = (s', pc)"
  shows "log_ok E s' F [] [] \<and> evolves s F (W @ P) R s' F [] R \<and> failure s' \<noteq> None \<and> \<not> committing s' \<and> reclaim_wanted s' = reclaim_wanted s
    \<and> (\<exists>e. pc = Returned (Inl e))"
proof -
  have "length (take (durable_upto s) left) = length (take (durable_upto s) (wal_file s))" by (simp only: left)
  then have "durable_upto s \<le> length left" using ok by (simp add: log_ok_def)
  then show ?thesis using assms by (auto simp: commit_refused_def log_ok_def evolves_def)
qed

lemma reclaim_scan_frames:
  "list_all small fs \<Longrightarrow> \<exists>as bs. fs = as @ bs \<and> (\<forall>f\<in>set as. position f \<le> through)
     \<and> reclaim_scan (pre @ frames_bytes E fs) through (length pre) = Inr (length pre + length (frames_bytes E as))"
proof (induction fs arbitrary: pre)
  case Nil
  then show ?case by (subst reclaim_scan.simps) simp
next
  case (Cons f fs)
  let ?bs = "pre @ frame_bytes E f @ frames_bytes E fs"
  have small: "small f" "list_all small fs" using Cons.prems by auto
  show ?case
  proof (cases "through < position f")
    case True
    then show ?thesis
      using small by (intro exI[of _ "[]"] exI[of _ "f # fs"]) (subst reclaim_scan.simps, simp add: frame_header in_log_def)
  next
    case False
    from Cons.IH[OF small(2), of "pre @ frame_bytes E f"] obtain as bs where
      a: "fs = as @ bs" "\<forall>f\<in>set as. position f \<le> through"
        "reclaim_scan ?bs through (length pre + 20 + length (payload f)) = Inr (length pre + 20 + length (payload f) + length (frames_bytes E as))"
      by (auto simp: ac_simps)
    have "reclaim_scan ?bs through (length pre) = reclaim_scan ?bs through (length pre + 20 + length (payload f))"
      using small False by (subst reclaim_scan.simps) (simp add: frame_header in_log_def FRAME_HEADER_BYTES_def)
    then show ?thesis using a False by (intro exI[of _ "f # as"] exI[of _ bs]) auto
  qed
qed

lemma reclaim_now_ok:
  assumes ok: "log_ok E s F [] P" and R: "{p. p \<le> through} \<subseteq> R" and r: "reclaim_now E g s through refused = (s', replaced, res)"
    and off: "failure s = None \<longrightarrow> write_offset s = durable_upto s" and "\<not> committing s"
  shows "\<exists>F'. log_ok E s' F' [] P \<and> evolves s F P R s' F' P R \<and> set F' \<subseteq> set F \<and> \<not> committing s'
    \<and> reclaim_wanted s' = reclaim_wanted s - 1 \<and> (failure s' = None \<longrightarrow> write_offset s' = durable_upto s')
    \<and> (replaced \<and> res = Inl (Unavailable DirectoryNotFlushed) \<longrightarrow> failure s' \<noteq> None)
    \<and> (replaced \<and> failure s' = None \<longrightarrow> res \<noteq> Inl (Unavailable DirectoryNotFlushed))"
proof -
  define s0 where "s0 = s\<lparr>reclaim_wanted := reclaim_wanted s - 1\<rparr>"
  have ok0: "log_ok E s0 F [] P" using ok by (simp add: s0_def log_ok_def)
  have same: ?thesis if "s' = s0" "\<not> replaced"
    using that ok0 off assms(5) by (intro exI[of _ F]) (auto simp: s0_def evolves_def log_ok_def not_less[symmetric])
  show ?thesis
  proof (cases "s' = s0 \<and> \<not> replaced")
    case True
    then show ?thesis using same by blast
  next
    case False
    let ?bs = "take (durable_upto s0 - 8) (drop 8 (wal_file s0))"
    have "?bs = drop 8 (take (durable_upto s0) (wal_file s0))" by (simp add: drop_take)
    then have bs: "?bs = frames_bytes E F" using ok0 by (simp add: log_ok_def)
    obtain F1 F2 where F: "F = F1 @ F2" "\<forall>f\<in>set F1. position f \<le> through" "reclaim_scan (frames_bytes E F) through 0 = Inr (length (frames_bytes E F1))"
      using reclaim_scan_frames[of F through "[]" E] ok by (auto simp: log_ok_def)
    have "header_checksummed s0" using ok0 by (simp add: log_ok_def)
    then have "reclaim_now E g s through refused = (s0, False, snd (snd (reclaim_now E g s through refused)))
        \<or> reclaim_now E g s through refused = reclaim_rewrite s0 (frames_bytes E F2) (length (frames_bytes E F1)) refused"
      unfolding reclaim_now_def s0_def[symmetric] Let_def length_WAL_MAGIC bs F(3) by (simp add: F(1))
    then have rw: "reclaim_rewrite s0 (frames_bytes E F2) (length (frames_bytes E F1)) refused = (s', replaced, res)"
      using r False by auto
    define s2 where "s2 = s0\<lparr>wal_file := WAL_MAGIC @ frames_bytes E F2, write_offset := 8 + length (frames_bytes E F2),
        durable_upto := 8 + length (frames_bytes E F2), header_checksummed := True\<rparr>"
    have c: "s' = s2 \<and> replaced \<and> res = Inr (length (frames_bytes E F1))
        \<or> s' = s2\<lparr>failure := Some DirectoryNotFlushed\<rparr> \<and> replaced \<and> res = Inl (Unavailable DirectoryNotFlushed)"
      using rw False by (auto simp: reclaim_rewrite_def s2_def Let_def split: if_splits)
    have l: "log_ok E s2 F2 [] P" using ok0 F(1) by (auto simp: log_ok_def s2_def)
    have "\<forall>f\<in>set P. durable_before s \<le> position f" "failure s2 = failure s" "durable_before s2 = durable_before s" "next_position s2 = next_position s"
      "committing s2 = committing s" "write_offset s2 = durable_upto s2" "reclaim_wanted s2 = reclaim_wanted s - 1"
      using ok by (auto simp: log_ok_def s2_def s0_def)
    then show ?thesis
      using c l F(1,2) R assms(5)
      by (intro exI[of _ F2]) (auto simp: evolves_def log_ok_def not_less[symmetric])
  qed
qed

section \<open>The invariant of the callers\<close>

fun active :: "append_pc \<Rightarrow> bool" where
  "active (Lingering p) = True"
| "active (Writing p at taken covers) = True"
| "active _ = False"

fun assigned :: "append_pc \<Rightarrow> u64 option" where
  "assigned (Waiting p) = Some p"
| "assigned (Lingering p) = Some p"
| "assigned (Writing p at taken covers) = Some p"
| "assigned (Returned (Inr p)) = Some p"
| "assigned (Returned (Inl e)) = None"

fun writing_ok :: "externs \<Rightarrow> shared \<Rightarrow> frame list \<Rightarrow> append_pc \<Rightarrow> bool" where
  "writing_ok E s W (Writing p at taken covers) =
     (W \<noteq> [] \<and> at = durable_upto s \<and> taken = frames_bytes E W \<and> covers = Some (position (last W)))"
| "writing_ok E s W (Lingering p) = (W = [])"
| "writing_ok E s W _ = True"

definition old_ok :: "externs \<Rightarrow> frame list \<Rightarrow> u64 set \<Rightarrow> bytes \<Rightarrow> bool" where
  "old_ok E F R old \<longleftrightarrow> (\<exists>Fo. old = WAL_MAGIC @ frames_bytes E Fo \<and> list_all small Fo \<and> (\<forall>f\<in>set F. position f \<in> R \<or> f \<in> set Fo))"

text \<open>\<open>c\<close> is the caller that has the committer's role, if any.\<close>

definition log_inv :: "externs \<Rightarrow> shared \<Rightarrow> frame list \<Rightarrow> frame list \<Rightarrow> frame list \<Rightarrow> bool" where
  "log_inv E s F W P \<longleftrightarrow> log_ok E s F W P \<and> (failure s = None \<longrightarrow> write_offset s = durable_upto s + length (frames_bytes E W))
     \<and> (committing s \<longrightarrow> failure s = None) \<and> (\<not> committing s \<longrightarrow> W = [])"

definition callers_ok :: "externs \<Rightarrow> wal_system \<Rightarrow> frame list \<Rightarrow> frame list \<Rightarrow> frame list \<Rightarrow> nat option \<Rightarrow> bool" where
  "callers_ok E y F W P c \<longleftrightarrow>
     (\<forall>i<length (sys_appends y). owned (sys_log y) F (W @ P) (sys_released y) (sys_appends y ! i)
        \<and> writing_ok E (sys_log y) W (snd (sys_appends y ! i)) \<and> (active (snd (sys_appends y ! i)) \<longleftrightarrow> c = Some i))
     \<and> (committing (sys_log y) \<longleftrightarrow> c \<noteq> None) \<and> (\<forall>i. c = Some i \<longrightarrow> i < length (sys_appends y))
     \<and> (\<forall>i j p. i < length (sys_appends y) \<longrightarrow> j < length (sys_appends y) \<longrightarrow> assigned (snd (sys_appends y ! i)) = Some p \<longrightarrow>
          assigned (snd (sys_appends y ! j)) = Some p \<longrightarrow> i = j)"

definition stored_ok :: "externs \<Rightarrow> wal_system \<Rightarrow> frame list \<Rightarrow> bool" where
  "stored_ok E y F \<longleftrightarrow> (\<forall>f\<in>set (sys_found y). position f \<in> sys_released y \<or> f \<in> set F)
     \<and> (sys_old y \<noteq> [] \<longrightarrow> failure (sys_log y) \<noteq> None) \<and> (\<forall>old\<in>set (sys_old y). old_ok E F (sys_released y) old)"

fun reclaiming :: "reclaim_pc \<Rightarrow> bool" where
  "reclaiming (ReclaimWaiting through) = True"
| "reclaiming (ReclaimReturned r) = False"

definition reclaims_ok :: "wal_system \<Rightarrow> bool" where
  "reclaims_ok y \<longleftrightarrow> reclaim_wanted (sys_log y) = length (filter reclaiming (sys_reclaims y))
     \<and> (\<forall>through. ReclaimWaiting through \<in> set (sys_reclaims y) \<longrightarrow> {p. p \<le> through} \<subseteq> sys_released y)"

definition sys_ok :: "externs \<Rightarrow> wal_system \<Rightarrow> frame list \<Rightarrow> frame list \<Rightarrow> frame list \<Rightarrow> nat option \<Rightarrow> bool" where
  "sys_ok E y F W P c \<longleftrightarrow> log_inv E (sys_log y) F W P \<and> callers_ok E y F W P c \<and> stored_ok E y F \<and> reclaims_ok y"

lemma owned_positions: "owned s F Q R x \<Longrightarrow> durable_before s \<le> next_position s \<Longrightarrow> assigned (snd x) = Some p \<Longrightarrow> p < next_position s"
  by (induction s F Q R x rule: owned.induct) (auto simp: held_def)

lemma inactive_writing_ok: "\<not> active pc \<Longrightarrow> writing_ok E s W pc"
  by (cases pc) auto

text \<open>One caller moves and the log with it.\<close>

lemma caller_moves:
  assumes inv: "sys_ok E y F W P c" and i: "i < length (sys_appends y)" "sys_appends y ! i = (body, pc)" and alone: "c = None \<or> c = Some i"
    and ev: "evolves (sys_log y) F (W @ P) (sys_released y) s' F' (W' @ P') (sys_released y)" and l: "log_inv E s' F' W' P'"
    and o: "owned s' F' (W' @ P') (sys_released y) (body, pc')" "writing_ok E s' W' pc'" "committing s' = active pc'"
    and rw: "reclaim_wanted s' = reclaim_wanted (sys_log y)" and a: "assigned pc' = assigned pc \<or> assigned pc' = None"
    and F': "failure (sys_log y) \<noteq> None \<longrightarrow> F' = F"
  shows "sys_ok E (y\<lparr>sys_log := s', sys_appends := (sys_appends y)[i := (body, pc')]\<rparr>) F' W' P' (if active pc' then Some i else None)"
proof -
  let ?y = "y\<lparr>sys_log := s', sys_appends := (sys_appends y)[i := (body, pc')]\<rparr>"
  have Q: "\<forall>f\<in>set (W @ P). durable_before (sys_log y) \<le> position f"
    using inv by (auto simp: sys_ok_def log_inv_def log_ok_def)
  have callers: "owned (sys_log y) F (W @ P) (sys_released y) (sys_appends y ! j)" "\<not> active (snd (sys_appends y ! j))"
    if "j < length (sys_appends y)" "j \<noteq> i" for j
    using inv that alone by (auto simp: sys_ok_def callers_ok_def)
  have unique: "j = k" if "j < length (sys_appends y)" "k < length (sys_appends y)" "assigned (snd (sys_appends y ! j)) = Some p"
      "assigned (snd (sys_appends y ! k)) = Some p" for j k p
    using inv that unfolding sys_ok_def callers_ok_def by blast
  have "callers_ok E ?y F' W' P' (if active pc' then Some i else None)"
    unfolding callers_ok_def
  proof (intro conjI allI impI)
    fix j assume "j < length (sys_appends ?y)"
    then show "owned (sys_log ?y) F' (W' @ P') (sys_released ?y) (sys_appends ?y ! j)" "writing_ok E (sys_log ?y) W' (snd (sys_appends ?y ! j))"
      "active (snd (sys_appends ?y ! j)) \<longleftrightarrow> (if active pc' then Some i else None) = Some j"
      using o owned_mono[OF callers(1) ev Q] inactive_writing_ok[OF callers(2)] callers(2) i(1) by (cases "j = i"; simp)+
  next
    fix j k p
    assume "j < length (sys_appends ?y)" "k < length (sys_appends ?y)" "assigned (snd (sys_appends ?y ! j)) = Some p" "assigned (snd (sys_appends ?y ! k)) = Some p"
    then have "assigned (snd (sys_appends y ! j)) = Some p" "assigned (snd (sys_appends y ! k)) = Some p"
      using i a by (cases "j = i"; cases "k = i"; auto)+
    then show "j = k" using unique \<open>j < _\<close> \<open>k < _\<close> by simp
  qed (use o(3) i(1) in \<open>auto split: if_splits\<close>)
  moreover have "stored_ok E ?y F'"
    using inv F' ev by (fastforce simp: sys_ok_def stored_ok_def evolves_def)
  moreover have "reclaims_ok ?y" using inv rw by (simp add: sys_ok_def reclaims_ok_def)
  ultimately show ?thesis using l by (simp add: sys_ok_def)
qed

lemma caller_returns:
  assumes inv: "sys_ok E y F W P c" and i: "i < length (sys_appends y)" "sys_appends y ! i = (body, pc)" and "\<not> active pc" "\<not> active pc'"
    and o: "owned (sys_log y) F (W @ P) (sys_released y) (body, pc')" and a: "assigned pc' = assigned pc \<or> assigned pc' = None"
  shows "sys_ok E (y\<lparr>sys_log := sys_log y, sys_appends := (sys_appends y)[i := (body, pc')]\<rparr>) F W P c"
proof -
  let ?y = "y\<lparr>sys_appends := (sys_appends y)[i := (body, pc')]\<rparr>"
  have "active (snd (sys_appends y ! i)) \<longleftrightarrow> c = Some i" using inv i(1) by (simp add: sys_ok_def callers_ok_def)
  then have c: "c \<noteq> Some i" using i(2) assms(4) by simp
  have unique: "j = k" if "j < length (sys_appends y)" "k < length (sys_appends y)" "assigned (snd (sys_appends y ! j)) = Some p"
      "assigned (snd (sys_appends y ! k)) = Some p" for j k p
    using inv that unfolding sys_ok_def callers_ok_def by blast
  have "callers_ok E ?y F W P c"
    unfolding callers_ok_def
  proof (intro conjI allI impI)
    fix j assume "j < length (sys_appends ?y)"
    then show "owned (sys_log ?y) F (W @ P) (sys_released ?y) (sys_appends ?y ! j)" "writing_ok E (sys_log ?y) W (snd (sys_appends ?y ! j))"
      "active (snd (sys_appends ?y ! j)) \<longleftrightarrow> c = Some j"
      using inv o inactive_writing_ok[OF assms(5)] assms(5) c i(1) by (cases "j = i"; simp add: sys_ok_def callers_ok_def)+
  next
    fix j k p
    assume "j < length (sys_appends ?y)" "k < length (sys_appends ?y)" "assigned (snd (sys_appends ?y ! j)) = Some p" "assigned (snd (sys_appends ?y ! k)) = Some p"
    then have "assigned (snd (sys_appends y ! j)) = Some p" "assigned (snd (sys_appends y ! k)) = Some p"
      using i a by (cases "j = i"; cases "k = i"; auto)+
    then show "j = k" using unique \<open>j < _\<close> \<open>k < _\<close> by simp
  qed (use inv in \<open>simp_all add: sys_ok_def callers_ok_def\<close>)
  then show ?thesis using inv by (simp add: sys_ok_def stored_ok_def reclaims_ok_def)
qed

lemma held_same: "same_log s s' \<Longrightarrow> held s' F Q R p body = held s F Q R p body"
  by (simp add: held_def same_log_def)

lemma evolves_same: "same_log s1 s' \<Longrightarrow> evolves s F Q R s' F' Q' R' = evolves s F Q R s1 F' Q' R'"
  by (simp add: evolves_def same_log_def)

lemma evolves_refl: "\<forall>f\<in>set Q. durable_before s \<le> position f \<Longrightarrow> evolves s F Q R s F Q R"
  by (auto simp: evolves_def not_less[symmetric])

lemma round_caller:
  assumes r: "round_ok E s1 F P p s' pc W' P'" and h: "held s1 F P R p body" and "failure s1 = None" "write_offset s1 = durable_upto s1"
  shows "log_inv E s' F W' P' \<and> owned s' F (W' @ P') R (body, pc) \<and> writing_ok E s' W' pc \<and> committing s' = active pc
    \<and> reclaim_wanted s' = reclaim_wanted s1 \<and> assigned pc = Some p \<and> P = W' @ P' \<and> same_log s1 s'"
proof -
  have e: "same_log s1 s'" "P = W' @ P'" "log_ok E s' F W' P'" using r by (simp_all add: round_ok_def)
  have h': "held s' F (W' @ P') R p body" using h held_same[OF e(1)] e(2) by simp
  have rw: "reclaim_wanted s' = reclaim_wanted s1" "failure s' = None" "durable_upto s' = durable_upto s1" "durable_before s' = durable_before s1"
    using e(1) assms(3) by (simp_all add: same_log_def)
  consider "W' = []" "pc = Returned (Inr p)" "p < durable_before s1" "\<not> committing s'" "write_offset s' = write_offset s1"
    | "W' \<noteq> []" "pc = Writing p (durable_upto s1) (frames_bytes E W') (Some (position (last W')))" "committing s'"
      "write_offset s' = durable_upto s1 + length (frames_bytes E W')"
    using r unfolding round_ok_def by blast
  then show ?thesis
  proof cases
    case 1
    then show ?thesis using e h' rw assms(4) by (simp add: log_inv_def held_def)
  next
    case 2
    then show ?thesis using e h' rw by (simp add: log_inv_def)
  qed
qed

lemma woken_ok:
  assumes inv: "sys_ok E y F W P c" and i: "i < length (sys_appends y)" "sys_appends y ! i = (body, Waiting p)"
    and r: "append_wait g (sys_log y) p = (s, pc)"
  shows "\<exists>F' W' P' c'. sys_ok E (y\<lparr>sys_log := s, sys_appends := (sys_appends y)[i := (body, pc)]\<rparr>) F' W' P' c'"
proof -
  let ?s = "sys_log y"
  have l: "log_ok E ?s F W P" "\<not> committing ?s \<longrightarrow> W = [] \<and> (failure ?s = None \<longrightarrow> write_offset ?s = durable_upto ?s)"
    using inv by (auto simp: sys_ok_def log_inv_def)
  have "owned ?s F (W @ P) (sys_released y) (sys_appends y ! i)" using inv i(1) by (simp add: sys_ok_def callers_ok_def)
  then have h: "held ?s F (W @ P) (sys_released y) p body" by (simp add: i(2))
  have none: "c = None" if "\<not> committing ?s" using inv that by (simp add: sys_ok_def callers_ok_def)
  have Q: "\<forall>f\<in>set (W @ P). durable_before ?s \<le> position f" using l(1) by (simp add: log_ok_def)
  note returns = caller_returns[OF inv i, of pc]
  note moves = caller_moves[OF inv i, of s F _ _ pc]
  from append_wait_cases[OF l(1) h r l(2)] consider
      "s = ?s" "pc = Waiting p" | "s = ?s" "pc = Returned (Inr p)" "p < durable_before ?s"
    | e where "s = ?s" "pc = Returned (Inl e)" "failure ?s \<noteq> None"
    | "\<not> committing ?s" "failure ?s = None" "s = ?s\<lparr>committing := True\<rparr>" "pc = Lingering p"
    | W' P' where "\<not> committing ?s" "failure ?s = None" "round_ok E (?s\<lparr>committing := True\<rparr>) F P p s pc W' P'"
    by metis
  then show ?thesis
  proof cases
    case 1
    then show ?thesis using returns h by auto
  next
    case 2
    then show ?thesis using returns h by (auto simp: held_def)
  next
    case 3
    then show ?thesis using returns by auto
  next
    case 4
    have "log_inv E s F [] P" using inv 4 l(2) by (auto simp: sys_ok_def log_inv_def)
    moreover have "evolves ?s F (W @ P) (sys_released y) s F P (sys_released y)"
      using evolves_refl[OF Q] l(2) 4 by (simp add: evolves_def)
    ultimately show ?thesis using moves[of "[]" P] none[OF 4(1)] h l(2)[rule_format, OF 4(1)] 4(2-4) by auto
  next
    case 5
    let ?s1 = "?s\<lparr>committing := True\<rparr>"
    have W: "W = []" using l(2) 5 by blast
    have "held ?s1 F P (sys_released y) p body" using h W by simp
    from round_caller[OF 5(3) this] have c: "log_inv E s F W' P'" "owned s F (W' @ P') (sys_released y) (body, pc)" "writing_ok E s W' pc"
        "committing s = active pc" "reclaim_wanted s = reclaim_wanted ?s" "assigned pc = Some p" "P = W' @ P'" "same_log ?s1 s"
      using 5(2) l(2)[rule_format, OF 5(1)] by auto
    have "evolves ?s F (W @ P) (sys_released y) s F (W' @ P') (sys_released y)"
      using evolves_refl[OF Q, of F "sys_released y"] c(7) W by (simp add: evolves_same[OF c(8)]) (simp add: evolves_def)
    then show ?thesis using moves[of W' P'] none[OF 5(1)] 5(2) c by auto
  qed
qed

lemma lingered_ok:
  assumes inv: "sys_ok E y F W P c" and i: "i < length (sys_appends y)" "sys_appends y ! i = (body, Lingering p)"
    and r: "commit_round g (sys_log y) p = (s, pc)"
  shows "\<exists>F' W' P' c'. sys_ok E (y\<lparr>sys_log := s, sys_appends := (sys_appends y)[i := (body, pc)]\<rparr>) F' W' P' c'"
proof -
  let ?s = "sys_log y"
  have a: "owned ?s F (W @ P) (sys_released y) (sys_appends y ! i)" "writing_ok E ?s W (snd (sys_appends y ! i))"
      "active (snd (sys_appends y ! i)) \<longleftrightarrow> c = Some i" "committing ?s \<longleftrightarrow> c \<noteq> None"
    using inv i(1) by (simp_all add: sys_ok_def callers_ok_def)
  then have c: "c = Some i" "W = []" "committing ?s" and h: "held ?s F P (sys_released y) p body" by (simp_all add: i(2))
  have l: "log_ok E ?s F [] P" "failure ?s = None" "write_offset ?s = durable_upto ?s"
    using inv c by (auto simp: sys_ok_def log_inv_def)
  obtain W' P' where rnd: "round_ok E ?s F P p s pc W' P'" using commit_round_ok[OF l(1,3) c(3) l(2) h r] by blast
  from round_caller[OF rnd h l(2,3)] have e: "log_inv E s F W' P'" "owned s F (W' @ P') (sys_released y) (body, pc)" "writing_ok E s W' pc"
      "committing s = active pc" "reclaim_wanted s = reclaim_wanted ?s" "assigned pc = Some p" "P = W' @ P'" "same_log ?s s"
    by auto
  have "\<forall>f\<in>set P. durable_before ?s \<le> position f" using l(1) by (simp add: log_ok_def)
  then have "evolves ?s F (W @ P) (sys_released y) s F (W' @ P') (sys_released y)"
    using evolves_refl[of P ?s F "sys_released y"] e(7) c(2) by (simp add: evolves_same[OF e(8)])
  from caller_moves[OF inv i _ this e(1-5)] show ?thesis using c(1) e(6) by auto
qed

lemma written_ok:
  assumes inv: "sys_ok E y F W P c" and i: "i < length (sys_appends y)" "sys_appends y ! i = (body, Writing p at taken covers)"
    and r: "commit_written g (sys_log y) p at taken covers = (s, pc)"
  shows "\<exists>F' W' P' c'. sys_ok E (y\<lparr>sys_log := s, sys_appends := (sys_appends y)[i := (body, pc)]\<rparr>) F' W' P' c'"
proof -
  let ?s = "sys_log y"
  have a: "owned ?s F (W @ P) (sys_released y) (sys_appends y ! i)" "writing_ok E ?s W (snd (sys_appends y ! i))"
      "active (snd (sys_appends y ! i)) \<longleftrightarrow> c = Some i" "committing ?s \<longleftrightarrow> c \<noteq> None"
    using inv i(1) by (simp_all add: sys_ok_def callers_ok_def)
  then have c: "c = Some i" "committing ?s" and h: "held ?s F (W @ P) (sys_released y) p body"
    and w: "W \<noteq> []" "at = durable_upto ?s" "taken = frames_bytes E W" "covers = Some (position (last W))" by (simp_all add: i(2))
  have l: "log_ok E ?s F W P" "failure ?s = None" "write_offset ?s = durable_upto ?s + length (frames_bytes E W)"
    using inv c by (auto simp: sys_ok_def log_inv_def)
  from commit_written_ok[OF l(1) w(1) l(2) c(2) l(3) h r[unfolded w(2-4)]] obtain s1 W' P' where
    s1: "evolves ?s F (W @ P) (sys_released y) s1 (F @ W) P (sys_released y)" "same_log s1 s" "reclaim_wanted s1 = reclaim_wanted ?s"
      "failure s1 = None" "write_offset s1 = durable_upto s1" "round_ok E s1 (F @ W) P p s pc W' P'"
    by blast
  have Q: "\<forall>f\<in>set (W @ P). durable_before ?s \<le> position f" using l(1) by (simp add: log_ok_def)
  from round_caller[OF s1(6) held_mono[OF h s1(1) Q] s1(4,5)] have e: "log_inv E s (F @ W) W' P'"
      "owned s (F @ W) (W' @ P') (sys_released y) (body, pc)" "writing_ok E s W' pc" "committing s = active pc"
      "reclaim_wanted s = reclaim_wanted ?s" "assigned pc = Some p" "P = W' @ P'"
    using s1(3) by auto
  have "evolves ?s F (W @ P) (sys_released y) s (F @ W) (W' @ P') (sys_released y)" using s1(1) e(7) by (simp add: evolves_same[OF s1(2)])
  from caller_moves[OF inv i _ this e(1-5)] show ?thesis using c(1) e(6) l(2) by auto
qed

lemma refused_ok:
  assumes inv: "sys_ok E y F W P c" and i: "i < length (sys_appends y)" "sys_appends y ! i = (body, Writing p at taken covers)"
    and left: "take at left = take at (wal_file (sys_log y))" and r: "commit_refused (sys_log y) left = (s, pc)"
  shows "\<exists>F' W' P' c'. sys_ok E (y\<lparr>sys_log := s, sys_appends := (sys_appends y)[i := (body, pc)]\<rparr>) F' W' P' c'"
proof -
  let ?s = "sys_log y"
  have a: "writing_ok E ?s W (snd (sys_appends y ! i))" "active (snd (sys_appends y ! i)) \<longleftrightarrow> c = Some i"
    using inv i(1) by (simp_all add: sys_ok_def callers_ok_def)
  then have c: "c = Some i" and at: "at = durable_upto ?s" by (simp_all add: i(2))
  have l: "log_ok E ?s F W P" using inv by (simp add: sys_ok_def log_inv_def)
  obtain e where e: "log_ok E s F [] []" "evolves ?s F (W @ P) (sys_released y) s F ([] @ []) (sys_released y)" "failure s \<noteq> None" "\<not> committing s"
      "reclaim_wanted s = reclaim_wanted ?s" "pc = Returned (Inl e)"
    using commit_refused_ok[OF l left[unfolded at] r, of "sys_released y"] by auto
  have "log_inv E s F [] []" using e by (auto simp: log_inv_def)
  from caller_moves[OF inv i _ e(2) this, of "Returned (Inl e)"] show ?thesis using e c by auto
qed

lemma writing_ok_same: "durable_upto s' = durable_upto s \<Longrightarrow> writing_ok E s' W pc = writing_ok E s W pc"
  by (cases pc) auto

text \<open>A new caller joins, and the log takes in its frame.\<close>

lemma caller_joins:
  assumes inv: "sys_ok E y F W P c" and ev: "evolves (sys_log y) F (W @ P) (sys_released y) s' F (W @ P') (sys_released y)"
    and l: "log_inv E s' F W P'" and same: "durable_upto s' = durable_upto (sys_log y)" "committing s' = committing (sys_log y)"
      "reclaim_wanted s' = reclaim_wanted (sys_log y)" "failure s' = failure (sys_log y)"
    and o: "owned s' F (W @ P') (sys_released y) (body, pc)" "\<not> active pc" "\<forall>p. assigned pc = Some p \<longrightarrow> next_position (sys_log y) \<le> p"
  shows "sys_ok E (y\<lparr>sys_log := s', sys_appends := sys_appends y @ [(body, pc)]\<rparr>) F W P' c"
proof -
  let ?y = "y\<lparr>sys_log := s', sys_appends := sys_appends y @ [(body, pc)]\<rparr>" and ?n = "length (sys_appends y)"
  have Q: "\<forall>f\<in>set (W @ P). durable_before (sys_log y) \<le> position f" and db: "durable_before (sys_log y) \<le> next_position (sys_log y)"
    using inv by (auto simp: sys_ok_def log_inv_def log_ok_def)
  have callers: "owned (sys_log y) F (W @ P) (sys_released y) (sys_appends y ! j)" "writing_ok E (sys_log y) W (snd (sys_appends y ! j))"
      "active (snd (sys_appends y ! j)) \<longleftrightarrow> c = Some j" if "j < ?n" for j
    using inv that by (simp_all add: sys_ok_def callers_ok_def)
  have c: "\<forall>i. c = Some i \<longrightarrow> i < ?n" "committing (sys_log y) \<longleftrightarrow> c \<noteq> None" using inv by (simp_all add: sys_ok_def callers_ok_def)
  have below: "p < next_position (sys_log y)" if "j < ?n" "assigned (snd (sys_appends y ! j)) = Some p" for j p
    using owned_positions[OF callers(1)[OF that(1)] db that(2)] .
  have unique: "j = k" if "j < ?n" "k < ?n" "assigned (snd (sys_appends y ! j)) = Some p" "assigned (snd (sys_appends y ! k)) = Some p" for j k p
    using inv that unfolding sys_ok_def callers_ok_def by blast
  have fresh: False if "j < ?n" "assigned (snd (sys_appends y ! j)) = Some p" "assigned pc = Some p" for j p
    using below[OF that(1,2)] o(3) that(3) by (auto simp: not_less[symmetric])
  have "callers_ok E ?y F W P' c"
    unfolding callers_ok_def
  proof (intro conjI allI impI)
    fix j assume j: "j < length (sys_appends ?y)"
    show "owned (sys_log ?y) F (W @ P') (sys_released ?y) (sys_appends ?y ! j)" "writing_ok E (sys_log ?y) W (snd (sys_appends ?y ! j))"
      "active (snd (sys_appends ?y ! j)) \<longleftrightarrow> c = Some j"
      using j o(1,2) owned_mono[OF callers(1) ev Q] callers(2,3) inactive_writing_ok[OF o(2)] c(1) writing_ok_same[OF same(1)]
      by (cases "j = ?n"; auto simp: nth_append)+
  next
    fix j k p
    assume "j < length (sys_appends ?y)" "k < length (sys_appends ?y)" "assigned (snd (sys_appends ?y ! j)) = Some p" "assigned (snd (sys_appends ?y ! k)) = Some p"
    then show "j = k" using unique[of j k p] fresh[of j p] fresh[of k p] by (cases "j = ?n"; cases "k = ?n"; auto simp: nth_append)
  qed (use c same in auto)
  then show ?thesis using inv l same by (simp add: sys_ok_def stored_ok_def reclaims_ok_def)
qed

lemma append_ok:
  assumes inv: "sys_ok E y F W P c" and body: "length body < 2 ^ 32" and room: "next_position (sys_log y) \<noteq> - 1"
    and r: "append_start E g (sys_log y) body = (s, pc)"
  shows "\<exists>F' W' P' c'. sys_ok E (y\<lparr>sys_log := s, sys_appends := sys_appends y @ [(body, pc)]\<rparr>) F' W' P' c'"
proof -
  let ?s = "sys_log y"
  have li: "log_inv E ?s F W P" using inv by (simp add: sys_ok_def)
  then have l: "log_ok E ?s F W P" by (simp add: log_inv_def)
  then have Q: "\<forall>f\<in>set (W @ P). durable_before ?s \<le> position f \<and> position f < next_position ?s" by (simp add: log_ok_def)
  show ?thesis
  proof (cases "failure ?s")
    case (Some m)
    have "sys_ok E (y\<lparr>sys_log := ?s, sys_appends := sys_appends y @ [(body, Returned (Inl (Unavailable m)))]\<rparr>) F W P c"
      by (rule caller_joins[OF inv _ li]) (use evolves_refl[of "W @ P" ?s F "sys_released y"] Q Some in auto)
    moreover have "s = ?s" "pc = Returned (Inl (Unavailable m))" using r Some by (auto simp: append_start_def)
    ultimately show ?thesis by metis
  next
    case None
    define p where "p = next_position ?s"
    define s1 where "s1 = ?s\<lparr>next_position := p + 1, pending := pending ?s @ encode_frame E p body (header_checksummed ?s),
        pending_frames := pending_frames ?s + 1\<rparr>"
    let ?f = "\<lparr>position = p, payload = body\<rparr>"
    have p: "p < p + 1" "durable_before ?s \<le> p" using less_plus_one[OF room] l by (simp_all add: p_def log_ok_def)
    have "log_ok E s1 F W (P @ [?f])"
      using l Q p body by (auto simp: log_ok_def s1_def p_def[symmetric] frame_bytes_def sorted_wrt_append intro: less_trans)
    then have l1: "log_inv E s1 F W (P @ [?f])" using li by (simp add: log_inv_def s1_def)
    have "evolves ?s F (W @ P) (sys_released y) s1 F (W @ P @ [?f]) (sys_released y)"
      using Q p by (auto simp: evolves_def s1_def p_def[symmetric] not_less[symmetric])
    moreover have "held s1 F (W @ P @ [?f]) (sys_released y) p body" using p by (simp add: held_def s1_def not_less[symmetric])
    ultimately have y1: "sys_ok E (y\<lparr>sys_log := s1, sys_appends := sys_appends y @ [(body, Waiting p)]\<rparr>) F W (P @ [?f]) c"
      by (intro caller_joins[OF inv _ l1]) (simp_all add: s1_def p_def)
    have "append_wait g s1 p = (s, pc)" using r None by (simp add: append_start_def s1_def p_def Let_def)
    then show ?thesis using woken_ok[OF y1, of "length (sys_appends y)" body p g s pc] by simp
  qed
qed

text \<open>The log changes under callers that stay where they are, none of them the committer unless the
  log is as it was.\<close>

lemma log_moves:
  assumes inv: "sys_ok E y F W P c" and ev: "evolves (sys_log y) F (W @ P) (sys_released y) s' F' (W @ P) R'"
    and l: "log_inv E s' F' W P" and cm: "committing s' = committing (sys_log y)"
    and du: "committing (sys_log y) \<longrightarrow> durable_upto s' = durable_upto (sys_log y)"
  shows "callers_ok E (y\<lparr>sys_log := s', sys_reclaims := rs, sys_released := R', sys_old := os\<rparr>) F' W P c"
proof -
  have Q: "\<forall>f\<in>set (W @ P). durable_before (sys_log y) \<le> position f" using inv by (auto simp: sys_ok_def log_inv_def log_ok_def)
  have "writing_ok E s' W (snd (sys_appends y ! j))" if "j < length (sys_appends y)" for j
  proof (cases "active (snd (sys_appends y ! j))")
    case True
    then have "committing (sys_log y)" "writing_ok E (sys_log y) W (snd (sys_appends y ! j))"
      using inv that by (auto simp: sys_ok_def callers_ok_def)
    then show ?thesis using du writing_ok_same[of s' "sys_log y"] by simp
  qed (rule inactive_writing_ok)
  moreover have "owned s' F' (W @ P) R' (sys_appends y ! j)" if "j < length (sys_appends y)" for j
    using inv that by (intro owned_mono[OF _ ev Q]) (simp add: sys_ok_def callers_ok_def)
  ultimately show ?thesis using inv cm unfolding sys_ok_def callers_ok_def by simp
qed


lemma length_filter_update:
  "i < length xs \<Longrightarrow> Q (xs ! i) \<Longrightarrow> \<not> Q x \<Longrightarrow> length (filter Q (xs[i := x])) = length (filter Q xs) - 1 \<and> 0 < length (filter Q xs)"
proof (induction xs arbitrary: i)
  case (Cons a xs)
  then show ?case by (cases i) auto
qed simp

lemma reclaims_finish:
  assumes "reclaims_ok y" and j: "j < length (sys_reclaims y)" "sys_reclaims y ! j = ReclaimWaiting through"
    and "reclaim_wanted s' = reclaim_wanted (sys_log y) - 1"
  shows "reclaims_ok (y\<lparr>sys_log := s', sys_reclaims := (sys_reclaims y)[j := ReclaimReturned r], sys_old := os\<rparr>)"
  using assms length_filter_update[of j "sys_reclaims y" reclaiming "ReclaimReturned r"] set_update_subset_insert[of "sys_reclaims y" j "ReclaimReturned r"]
  unfolding reclaims_ok_def by auto

lemma old_ok_mono: "old_ok E F R old \<Longrightarrow> R \<subseteq> R' \<Longrightarrow> set F' \<subseteq> set F \<Longrightarrow> old_ok E F' R' old"
  unfolding old_ok_def by blast

lemma stored_mono:
  assumes "stored_ok E y F" and "\<forall>f\<in>set F. position f \<in> R' \<or> f \<in> set F'" and "sys_released y \<subseteq> R'" and "set F' \<subseteq> set F"
    and "failure (sys_log y) \<noteq> None \<longrightarrow> failure s' \<noteq> None"
  shows "stored_ok E (y\<lparr>sys_log := s', sys_released := R'\<rparr>) F'"
  using assms old_ok_mono[of E F "sys_released y" _ R' F'] unfolding stored_ok_def by auto

lemma evolves_id:
  "\<forall>f\<in>set Q. durable_before s \<le> position f \<Longrightarrow> R \<subseteq> R' \<Longrightarrow> next_position s' = next_position s \<Longrightarrow> durable_before s' = durable_before s \<Longrightarrow>
   failure s' = failure s \<Longrightarrow> evolves s F Q R s' F Q R'"
  by (auto simp: evolves_def not_less[symmetric])

lemma sys_okI:
  "callers_ok E z F W P c \<Longrightarrow> stored_ok E z F \<Longrightarrow> reclaims_ok z \<Longrightarrow> log_inv E (sys_log z) F W P \<Longrightarrow> \<exists>F W P c. sys_ok E z F W P c"
  unfolding sys_ok_def by blast

lemma log_ok_length:
  assumes "log_ok E s F W P"
  shows "durable_upto s = 8 + length (frames_bytes E F)"
proof -
  have "length (take (durable_upto s) (wal_file s)) = length (WAL_MAGIC @ frames_bytes E F)" using assms unfolding log_ok_def by metis
  moreover have "durable_upto s \<le> length (wal_file s)" using assms by (simp add: log_ok_def)
  ultimately show ?thesis by simp
qed

lemma reclaim_ok:
  assumes inv: "sys_ok E y F W P c"
  shows "\<exists>F W P c. sys_ok E (y\<lparr>sys_log := reclaim_start (sys_log y), sys_reclaims := sys_reclaims y @ [ReclaimWaiting through],
      sys_released := sys_released y \<union> {p. p \<le> through}\<rparr>) F W P c"
proof -
  define z where reclaim: "z = y\<lparr>sys_log := reclaim_start (sys_log y), sys_reclaims := sys_reclaims y @ [ReclaimWaiting through],
      sys_released := sys_released y \<union> {p. p \<le> through}\<rparr>"
  let ?R = "sys_released y \<union> {p. p \<le> through}" and ?s = "reclaim_start (sys_log y)"
  have Q: "\<forall>f\<in>set (W @ P). durable_before (sys_log y) \<le> position f" and li: "log_inv E ?s F W P"
    using inv by (auto simp: sys_ok_def log_inv_def log_ok_def reclaim_start_def)
  have "evolves (sys_log y) F (W @ P) (sys_released y) ?s F (W @ P) ?R"
    by (rule evolves_id[OF Q]) (auto simp: reclaim_start_def)
  from log_moves[where rs = "sys_reclaims y @ [ReclaimWaiting through]" and os = "sys_old y", OF inv this li] have "callers_ok E z F W P c"
    by (simp add: reclaim reclaim_start_def)
  moreover have "stored_ok E z F" using inv stored_mono[of E y F ?R F ?s] by (auto simp: reclaim sys_ok_def stored_ok_def reclaim_start_def)
  moreover have "reclaims_ok z" using inv by (auto simp: reclaim sys_ok_def reclaims_ok_def reclaim_start_def)
  ultimately show ?thesis using li unfolding reclaim by (intro sys_okI[of _ _ F]) simp_all
qed

lemma reclaimed_ok:
  assumes inv: "sys_ok E y F W P c" and j: "j < length (sys_reclaims y)" "sys_reclaims y ! j = ReclaimWaiting through"
    and idle: "\<not> committing (sys_log y)" and r: "reclaim_now E g (sys_log y) through refused = (s, replaced, res)"
  shows "\<exists>F W P c. sys_ok E (y\<lparr>sys_log := s, sys_reclaims := (sys_reclaims y)[j := ReclaimReturned res],
      sys_old := renamed (sys_log y) s replaced res (sys_old y)\<rparr>) F W P c"
proof -
  let ?s = "sys_log y" and ?R = "sys_released y"
  let ?old = "renamed ?s s replaced res (sys_old y)"
  have W: "W = []" and l: "log_ok E ?s F [] P" and off: "failure ?s = None \<longrightarrow> write_offset ?s = durable_upto ?s"
    using inv idle by (auto simp: sys_ok_def log_inv_def)
  have "ReclaimWaiting through \<in> set (sys_reclaims y)" using j nth_mem[of j "sys_reclaims y"] by simp
  then have R: "{p. p \<le> through} \<subseteq> ?R" using inv by (simp add: sys_ok_def reclaims_ok_def)
  obtain F' where F': "log_ok E s F' [] P" "evolves ?s F P ?R s F' P ?R" "set F' \<subseteq> set F" "\<not> committing s"
      "reclaim_wanted s = reclaim_wanted ?s - 1" "failure s = None \<longrightarrow> write_offset s = durable_upto s"
    using reclaim_now_ok[OF l R r off idle] by metis
  have li: "log_inv E s F' W P" using F' W by (simp add: log_inv_def)
  have "evolves ?s F (W @ P) ?R s F' (W @ P) ?R" using F'(2) W by simp
  from log_moves[where rs = "(sys_reclaims y)[j := ReclaimReturned res]" and os = ?old, OF inv this li] F'(4) idle
  have "callers_ok E (y\<lparr>sys_log := s, sys_reclaims := (sys_reclaims y)[j := ReclaimReturned res], sys_old := ?old\<rparr>) F' W P c" by simp
  moreover have "stored_ok E (y\<lparr>sys_log := s, sys_reclaims := (sys_reclaims y)[j := ReclaimReturned res], sys_old := ?old\<rparr>) F'"
  proof -
    have st: "stored_ok E (y\<lparr>sys_log := s, sys_released := ?R\<rparr>) F'"
      using inv F'(2,3) by (intro stored_mono[of E y F]) (auto simp: sys_ok_def evolves_def)
    have "take (durable_upto ?s) (wal_file ?s) = WAL_MAGIC @ frames_bytes E F" "list_all small F" using l by (simp_all add: log_ok_def)
    then have "old_ok E F' ?R (take (durable_upto ?s) (wal_file ?s))" using F'(3) unfolding old_ok_def by blast
    then show ?thesis using st by (auto simp: stored_ok_def renamed_def)
  qed
  moreover have "reclaims_ok (y\<lparr>sys_log := s, sys_reclaims := (sys_reclaims y)[j := ReclaimReturned res], sys_old := ?old\<rparr>)"
    using inv j F'(5) by (intro reclaims_finish) (auto simp: sys_ok_def)
  ultimately show ?thesis using li by (intro sys_okI) simp_all
qed

lemma call_ok:
  assumes inv: "sys_ok E y F W P c" and call: "wal_call E g y z"
  shows "\<exists>F' W' P' c'. sys_ok E z F' W' P' c'"
  using call
proof cases
  case (append body s pc)
  show ?thesis unfolding append(1) by (rule append_ok[OF inv append(2-4)])
next
  case (reclaim through)
  show ?thesis unfolding reclaim(1) by (rule reclaim_ok[OF inv])
next
  case (reclaim_at_once through refused s replaced r)
  let ?y = "y\<lparr>sys_log := reclaim_start (sys_log y), sys_reclaims := sys_reclaims y @ [ReclaimWaiting through],
      sys_released := sys_released y \<union> {p. p \<le> through}\<rparr>"
  obtain F W P c where y: "sys_ok E ?y F W P c" using reclaim_ok[OF inv] by blast
  have "renamed (reclaim_start (sys_log y)) = renamed (sys_log y)" by (simp add: renamed_def reclaim_start_def fun_eq_iff)
  then show ?thesis
    using reclaimed_ok[OF y, of "length (sys_reclaims y)" through g refused s replaced r] reclaim_at_once by (simp add: reclaim_start_def)
next
  case (truncate_log refused s r)
  show ?thesis
  proof (cases "committing (sys_log y) \<or> pending (sys_log y) \<noteq> [] \<or> refused = Some TrimLog")
    case True
    then have "s = sys_log y" "r \<noteq> Inr ()" using truncate_log(3) by (auto simp: truncate_to_empty_def split: if_splits)
    then have "z = y" by (simp add: truncate_log(1))
    then show ?thesis using inv by blast
  next
    case False
    let ?R = "sys_released y \<union> {p. p < next_position (sys_log y)}"
    have li: "log_inv E (sys_log y) F W P" using inv by (simp add: sys_ok_def)
    then have l: "log_ok E (sys_log y) F W P" and W: "W = []" using False by (auto simp: log_inv_def)
    have P: "P = []" using False l by (simp add: log_ok_def)
    have s: "s = (sys_log y)\<lparr>wal_file := set_len (wal_file (sys_log y)) 8, write_offset := 8, durable_upto := 8\<rparr>" "r = Inr ()"
      using truncate_log(2,3) False l by (auto simp: truncate_to_empty_def log_ok_def Let_def)
    have "take 8 (take (durable_upto (sys_log y)) (wal_file (sys_log y))) = WAL_MAGIC" using l by (simp add: log_ok_def)
    then have "take 8 (wal_file (sys_log y)) = WAL_MAGIC" using log_ok_length[OF l] by (simp add: min_def)
    moreover have "8 \<le> length (wal_file (sys_log y))" using log_ok_length[OF l] l by (simp add: log_ok_def)
    ultimately have "log_ok E s [] [] []" using l P by (auto simp: log_ok_def s(1) set_len_def)
    then have l': "log_inv E s [] W P" using li False W P by (auto simp: log_inv_def s(1))
    have F: "\<forall>f\<in>set F. position f \<in> ?R" using l by (auto simp: log_ok_def intro: less_le_trans)
    then have "evolves (sys_log y) F (W @ P) (sys_released y) s [] (W @ P) ?R" by (auto simp: evolves_def s(1) W P)
    from log_moves[where rs = "sys_reclaims y" and os = "sys_old y", OF inv this l'] have "callers_ok E z [] W P c"
      using False by (simp add: truncate_log(1) s)
    moreover have "stored_ok E z []" using inv stored_mono[of E y F ?R "[]" s] F by (auto simp: truncate_log(1) s sys_ok_def)
    moreover have "reclaims_ok z" using inv by (auto simp: truncate_log(1) s sys_ok_def reclaims_ok_def)
    ultimately show ?thesis using l' by (intro sys_okI[of _ _ "[]"]) (simp_all add: truncate_log(1))
  qed
next
  case (start floor)
  let ?s = "start_at_least (sys_log y) floor"
  have c: "c = None" "\<not> committing (sys_log y)" using inv start(2) by (auto simp: sys_ok_def callers_ok_def)
  have li: "log_inv E (sys_log y) F W P" using inv by (simp add: sys_ok_def)
  then have l: "log_ok E (sys_log y) F W P" by (simp add: log_inv_def)
  have le: "durable_before (sys_log y) \<le> durable_before ?s" by (simp add: start_at_least_def Let_def)
  have "W = []" using li c(2) by (simp add: log_inv_def)
  then have "log_ok E ?s F W P" using l
    by (auto simp: log_ok_def start_at_least_def Let_def intro: less_le_trans order.trans)
  then have "log_inv E ?s F W P" using li by (auto simp: log_inv_def start_at_least_def Let_def)
  moreover have "callers_ok E z F W P c" using inv start by (auto simp: sys_ok_def callers_ok_def start_at_least_def Let_def)
  moreover have "stored_ok E z F" using inv by (auto simp: start sys_ok_def stored_ok_def start_at_least_def Let_def)
  moreover have "reclaims_ok z" using inv by (auto simp: start sys_ok_def reclaims_ok_def start_at_least_def Let_def)
  ultimately show ?thesis by (intro sys_okI[of _ _ F]) (simp_all add: start)
qed

lemma gave_up_ok:
  assumes inv: "sys_ok E y F W P c" and j: "j < length (sys_reclaims y)" "sys_reclaims y ! j = ReclaimWaiting through"
  shows "\<exists>F W P c. sys_ok E (y\<lparr>sys_log := reclaim_timed_out (sys_log y), sys_reclaims := (sys_reclaims y)[j := ReclaimReturned (Inr 0)]\<rparr>) F W P c"
proof -
  let ?s = "reclaim_timed_out (sys_log y)" and ?R = "sys_released y"
  have Q: "\<forall>f\<in>set (W @ P). durable_before (sys_log y) \<le> position f" and li: "log_inv E ?s F W P"
    using inv by (auto simp: sys_ok_def log_inv_def log_ok_def reclaim_timed_out_def)
  have "evolves (sys_log y) F (W @ P) ?R ?s F (W @ P) ?R"
    by (rule evolves_id[OF Q]) (auto simp: reclaim_timed_out_def)
  from log_moves[where rs = "(sys_reclaims y)[j := ReclaimReturned (Inr 0)]" and os = "sys_old y", OF inv this li]
  have "callers_ok E (y\<lparr>sys_log := ?s, sys_reclaims := (sys_reclaims y)[j := ReclaimReturned (Inr 0)]\<rparr>) F W P c"
    by (simp add: reclaim_timed_out_def)
  moreover have "stored_ok E (y\<lparr>sys_log := ?s, sys_reclaims := (sys_reclaims y)[j := ReclaimReturned (Inr 0)]\<rparr>) F"
    using inv by (simp add: sys_ok_def stored_ok_def reclaim_timed_out_def)
  moreover have "reclaims_ok (y\<lparr>sys_log := ?s, sys_reclaims := (sys_reclaims y)[j := ReclaimReturned (Inr 0)]\<rparr>)"
    using inv j reclaims_finish[where y = y and j = j and through = through and s' = ?s and r = "Inr 0" and os = "sys_old y"] by (simp add: sys_ok_def reclaim_timed_out_def)
  ultimately show ?thesis using li by (intro sys_okI) simp_all
qed

lemma step_ok:
  assumes inv: "sys_ok E y F W P c" and step: "wal_step E g y z"
  shows "\<exists>F W P c. sys_ok E z F W P c"
  using step
proof cases
  case (woken i body p s pc)
  then show ?thesis using woken_ok[OF inv] by simp
next
  case (lingered i body p s pc)
  then show ?thesis using lingered_ok[OF inv] by simp
next
  case (written i body p at taken covers s pc)
  then show ?thesis using written_ok[OF inv] by simp
next
  case (refused i body p at taken covers left s pc)
  then show ?thesis using refused_ok[OF inv] by simp
next
  case (reclaimed j through refused s replaced r)
  show ?thesis unfolding reclaimed(1) by (rule reclaimed_ok[OF inv reclaimed(2-5)])
next
  case (gave_up j through)
  show ?thesis unfolding gave_up(1) by (rule gave_up_ok[OF inv gave_up(2,3)])
qed

lemma reaches_ok: "wal_reaches E g y z \<Longrightarrow> \<exists>F W P c. sys_ok E y F W P c \<Longrightarrow> \<exists>F W P c. sys_ok E z F W P c"
  by (induction rule: wal_reaches.induct) (use call_ok step_ok in blast)+

section \<open>Opening\<close>

lemma frame_at_bytes:
  assumes "frame_at E bs at True = Some (pos, end)"
  shows "take (end - at) (drop at bs) = frame_bytes E \<lparr>position = pos, payload = take (end - (at + 20)) (drop (at + 20) bs)\<rparr>
    \<and> end - (at + 20) < 2 ^ 32"
proof -
  let ?a = "take 4 (drop at bs)" and ?b = "take 8 (drop (at + 4) bs)" and ?c = "take 8 (drop (at + 12) bs)"
  obtain len checksum where u: "get_u32 bs at = Inr len" "get_u64 bs (at + 4) = Inr pos" "get_u64 bs (at + 12) = Inr checksum"
      "end = at + 20 + unat len" "end \<le> length bs" "frame_checksum E len pos (take (unat len) (drop (at + 20) bs)) True = checksum"
    using assms by (auto simp: frame_at_def FRAME_HEADER_BYTES_def Let_def split: sum.splits if_splits)
  have lens: "length ?a = 4" "length ?b = 8" "length ?c = 8" using u(4,5) by simp_all
  have "len = word_of_nat (le_nat ?a)" "pos = word_of_nat (le_nat ?b)" "checksum = word_of_nat (le_nat ?c)"
    using u(1-3) by (auto simp: get_u32_def get_u64_def result_convs slice_Inr_conv)
  then have parts: "put_u32 [] len = ?a" "put_u64 [] pos = ?b" "put_u64 [] checksum = ?c"
    using le_nat_bound[of ?a] le_nat_bound[of ?b] le_nat_bound[of ?c] le_bytes_le_nat[of ?a] le_bytes_le_nat[of ?b] le_bytes_le_nat[of ?c] lens
    by (simp_all add: put_u32_def put_u64_def unat_of_nat)
  let ?body = "take (unat len) (drop (at + 20) bs)"
  have n: "length ?body = unat len" "word_of_nat (length ?body) = len" using u(4,5) by simp_all
  have "take (4 + (8 + (8 + unat len))) (drop at bs) = ?a @ ?b @ ?c @ ?body"
    unfolding take_add drop_drop by (simp add: add.commute)
  then have "take (20 + unat len) (drop at bs) = ?a @ ?b @ ?c @ ?body" by (simp add: add.assoc[symmetric])
  moreover have "frame_bytes E \<lparr>position = pos, payload = ?body\<rparr> = put_u32 [] len @ put_u64 [] pos @ put_u64 [] checksum @ ?body"
    using n u(6) by (simp add: frame_bytes_def encode_frame_def put_u32_def put_u64_def)
  moreover have "unat len < 2 ^ 32" using unsigned_less[of len] by simp
  ultimately show ?thesis using u(4) parts by simp
qed

lemma scan_bytes:
  "scan E bs True at acc n = (fs, complete, m) \<Longrightarrow> at \<le> length bs \<Longrightarrow>
   \<exists>gs. fs = acc @ gs \<and> at \<le> complete \<and> complete \<le> length bs \<and> take (complete - at) (drop at bs) = frames_bytes E gs \<and> list_all small gs
     \<and> m = position_after n gs"
proof (induction E bs True at acc n rule: scan.induct)
  case (1 E bs at acc n)
  show ?case
  proof (cases "at < length bs \<and> frame_at E bs at True \<noteq> None")
    case True
    then obtain pos "end" where f: "frame_at E bs at True = Some (pos, end)" by auto
    define x where "x = \<lparr>position = pos, payload = take (end - (at + FRAME_HEADER_BYTES)) (drop (at + FRAME_HEADER_BYTES) bs)\<rparr>"
    have s: "scan E bs True end (acc @ [x]) (max n (pos + 1)) = (fs, complete, m)"
      using "1.prems"(1) True f by (subst (asm) scan.simps) (simp add: x_def)
    note e = frame_at_end[OF f]
    obtain gs where gs: "fs = (acc @ [x]) @ gs" "end \<le> complete" "complete \<le> length bs" "take (complete - end) (drop end bs) = frames_bytes E gs"
        "list_all small gs" "m = position_after (max n (pos + 1)) gs"
      using "1.hyps"[OF _ f refl, folded x_def, OF _ s] True e by blast
    have "take (complete - at) (drop at bs) = take (end - at) (drop at bs) @ take (complete - end) (drop end bs)"
      using e gs(2) take_add[of "end - at" "complete - end" "drop at bs"] by simp
    moreover have "take (end - at) (drop at bs) = frame_bytes E x \<and> small x"
      using frame_at_bytes[OF f] e by (auto simp: x_def FRAME_HEADER_BYTES_def)
    moreover have "position x = pos" by (simp add: x_def)
    ultimately show ?thesis using gs e by (intro exI[of _ "x # gs"]) auto
  next
    case False
    then show ?thesis
      using "1.prems" by (subst (asm) scan.simps) (auto split: if_splits option.splits intro!: exI[of _ "[]"])
  qed
qed

lemma recover_bytes:
  assumes "recover E (File bs) ack = Inr r" and "r_header_checksummed r" and "r_frames r \<noteq> []"
  shows "take (r_durable_bytes r) bs = WAL_MAGIC @ frames_bytes E (r_frames r) \<and> r_durable_bytes r \<le> length bs \<and> 8 \<le> r_durable_bytes r
    \<and> list_all small (r_frames r) \<and> r_next_position r = position_after 0 (r_frames r)"
proof -
  obtain fs complete m where s: "scan E bs True 8 [] 0 = (fs, complete, m)" by (metis surj_pair)
  have r: "8 \<le> length bs" "take 8 bs = WAL_MAGIC" "r = \<lparr>r_frames = fs, r_durable_bytes = complete, r_next_position = m, r_header_checksummed = True\<rparr>"
    using assms s by (auto simp: recover_def nothing_def Let_def split: if_splits prod.splits option.splits bool.splits list.splits)
  from scan_bytes[OF s r(1)] have c: "8 \<le> complete" "complete \<le> length bs" "take (complete - 8) (drop 8 bs) = frames_bytes E fs" "list_all small fs"
      "m = position_after 0 fs" by auto
  have "take complete bs = take 8 bs @ take (complete - 8) (drop 8 bs)" using c(1) take_add[of 8 "complete - 8" bs] by simp
  then show ?thesis using c r by simp
qed

lemma recover_no_file: "recover E NoFile ack = Inr r \<Longrightarrow> r_frames r = [] \<and> r_durable_bytes r = 0 \<and> r_next_position r = 0"
  by (auto simp: recover_def nothing_def)

lemma recover_empty:
  "recover E (File bs) ack = Inr r \<Longrightarrow> r_frames r = [] \<Longrightarrow> r_durable_bytes r \<le> 8 \<and> r_next_position r = 0"
proof -
  assume a: "recover E (File bs) ack = Inr r" "r_frames r = []"
  obtain fs complete m where s: "scan E bs (take 8 bs = WAL_MAGIC) 8 [] 0 = (fs, complete, m)" by (metis surj_pair)
  have "r = nothing \<or> 8 \<le> length bs \<and> fs = [] \<and> r_durable_bytes r = complete \<and> r_next_position r = m"
    using a s by (auto simp: recover_def Let_def split: if_splits prod.splits option.splits bool.splits list.splits)
  moreover have "complete = 8 \<and> m = 0" if "8 \<le> length bs" "fs = []"
  proof (cases "8 < length bs \<and> frame_at E bs 8 (take 8 bs = WAL_MAGIC) \<noteq> None")
    case True
    then obtain x "end" n where "scan E bs (take 8 bs = WAL_MAGIC) end [x] n = (fs, complete, m)"
      using s by (subst (asm) scan.simps) auto
    from scan_extends[OF this] show ?thesis using that(2) by simp
  next
    case False
    then show ?thesis using s by (subst (asm) scan.simps) (auto split: if_splits option.splits)
  qed
  ultimately show ?thesis by (auto simp: nothing_def)
qed

lemma opened_ok:
  assumes "open_acknowledged E ack f refused = (f', Inr s)" and "recover E f ack = Inr r"
    and "r_header_checksummed r \<or> r_frames r = []" and "\<forall>x\<in>set (r_frames r). position x \<noteq> - 1"
  shows "sys_ok E (opened_system s (r_frames r)) (r_frames r) [] [] None"
proof -
  have "log_ok E s (r_frames r) [] [] \<and> \<not> committing s \<and> failure s = None \<and> write_offset s = durable_upto s \<and> reclaim_wanted s = 0"
  proof (cases "r_frames r = []")
    case True
    then have s: "s = opened r WAL_MAGIC True" using assms(1,2) by (auto simp: open_acknowledged_def Let_def split: if_splits)
    have "r_durable_bytes r \<le> 8 \<and> r_next_position r = 0"
    proof (cases f)
      case (File bs)
      then show ?thesis using recover_empty assms(2) True by blast
    next
      case NoFile
      then show ?thesis using recover_no_file assms(2) by simp
    qed (use assms(2) in \<open>simp add: recover_def\<close>)
    then show ?thesis using True by (simp add: s opened_def log_ok_def max_def)
  next
    case False
    then obtain bs where f: "f = File bs" using assms(2) recover_no_file by (cases f) (auto simp: recover_def)
    have "r_header_checksummed r" using assms(3) False by simp
    note b = recover_bytes[OF assms(2)[unfolded f] this False]
    have s: "s = opened r (set_len bs (r_durable_bytes r)) True"
      using assms False \<open>r_header_checksummed r\<close> by (auto simp: open_acknowledged_def f Let_def split: if_splits)
    have w: "durable_upto s = r_durable_bytes r" "wal_file s = take (r_durable_bytes r) bs" "durable_before s = r_next_position r"
        "next_position s = r_next_position r" "pending s = []" "header_checksummed s" "write_offset s = durable_upto s"
      using b by (simp_all add: s opened_def set_len_def)
    have "durable_upto s \<le> length (wal_file s)" unfolding w(1,2) using b[THEN conjunct2, THEN conjunct1] by simp
    moreover have "take (durable_upto s) (wal_file s) = WAL_MAGIC @ frames_bytes E (r_frames r)"
      unfolding w(1,2) take_take min.idem using b by blast
    moreover have "\<forall>x\<in>set (r_frames r). position x < durable_before s"
      using b w(3) position_after_gt[of _ "r_frames r" 0] assms(4) by simp
    ultimately show ?thesis using b w by (simp add: log_ok_def) (simp add: s opened_def)
  qed
  then show ?thesis by (simp add: sys_ok_def log_inv_def callers_ok_def stored_ok_def reclaims_ok_def opened_system_def)
qed

lemma reaches_found: "wal_reaches E g y z \<Longrightarrow> sys_found z = sys_found y"
  by (induction rule: wal_reaches.induct) (auto elim!: wal_callE wal_stepE)

end
