(* ===== verification/Wal_Runs.thy ===== *)
theory Wal_Runs
  imports Wal_Invariant
begin

text \<open>
  What the append log promises its callers: acknowledged frames survive, every call returns, a
  position is given out once, how large a group gets; and a run on a log of the version before
  that loses an acknowledged frame.
\<close>

section \<open>What survives\<close>


section \<open>Every call returns\<close>

fun rank :: "append_pc \<Rightarrow> nat" where
  "rank (Waiting p) = 3"
| "rank (Lingering p) = 2"
| "rank (Writing p at taken covers) = 1"
| "rank (Returned r) = 0"

definition work_left :: "wal_system \<Rightarrow> nat" where
  "work_left y = sum_list (map (rank \<circ> snd) (sys_appends y)) + length (pending (sys_log y)) + length (filter reclaiming (sys_reclaims y))"

definition all_returned :: "wal_system \<Rightarrow> bool" where
  "all_returned y \<longleftrightarrow> (\<forall>x\<in>set (sys_appends y). \<exists>r. snd x = Returned r) \<and> (\<forall>x\<in>set (sys_reclaims y). \<not> reclaiming x)"

lemma take_group_length: "take_group g s = (taken, s') \<Longrightarrow> length taken + length (pending s') = length (pending s)"
  by (auto simp: take_group_def Let_def split: if_splits)

lemma commit_round_work:
  assumes "commit_round g s p = (s', pc)"
  shows "rank pc + length (pending s') \<le> length (pending s) \<and> rank pc \<le> 1"
proof -
  obtain taken s1 where t: "take_group g s = (taken, s1)" by fastforce
  have "length (pending s1) + (if taken = [] then 0 else 1) \<le> length (pending s)"
    using take_group_length[OF t] by (cases taken) auto
  then show ?thesis using assms t by (auto simp: commit_round_def Let_def split: if_splits)
qed

lemma append_wait_work:
  "append_wait g s p = (s', pc) \<Longrightarrow> pc \<noteq> Waiting p \<Longrightarrow> rank pc + length (pending s') \<le> 2 + length (pending s)"
  using commit_round_work[of g "s\<lparr>committing := True\<rparr>" p s' pc]
  by (auto simp: append_wait_def Let_def split: if_splits option.splits)

lemma work_update:
  assumes "i < length (sys_appends y)" and "sys_appends y ! i = (body, pc)" and "rank pc' + length (pending s') < rank pc + length (pending (sys_log y))"
  shows "work_left (y\<lparr>sys_log := s', sys_appends := (sys_appends y)[i := (body, pc')]\<rparr>) < work_left y"
proof -
  have "rank pc \<le> sum_list (map (rank \<circ> snd) (sys_appends y))"
    using assms(1,2) elem_le_sum_list[of i "map (rank \<circ> snd) (sys_appends y)"] by simp
  then show ?thesis
    using assms sum_list_update[of i "map (rank \<circ> snd) (sys_appends y)" "rank pc'"] by (simp add: work_left_def map_update)
qed

lemma reclaim_pending: "reclaim_now E g s through refused = (s', replaced, r) \<Longrightarrow> pending s' = pending s"
  by (auto simp: reclaim_now_def reclaim_rewrite_def Let_def split: if_splits sum.splits)

lemma step_works: "wal_step E g y z \<Longrightarrow> work_left z < work_left y"
proof -
  assume "wal_step E g y z"
  then show ?thesis
  proof cases
    case (woken i body p s pc)
    then show ?thesis using work_update[OF woken(2,3), of pc s] append_wait_work[OF woken(4,5)] by simp
  next
    case (lingered i body p s pc)
    then show ?thesis using work_update[OF lingered(2,3), of pc s] commit_round_work[OF lingered(4)] by simp
  next
    case (written i body p at taken covers s pc)
    have "rank pc + length (pending s) < 1 + length (pending (sys_log y))"
      using written(4) commit_round_work[of g "written_log (sys_log y) at taken covers" p s pc]
      by (auto simp: commit_written_alt Let_def written_log_def split: if_splits)
    then show ?thesis using work_update[OF written(2,3), of pc s] written(1) by simp
  next
    case (refused i body p at taken covers left s pc)
    then show ?thesis using work_update[OF refused(2,3), of pc s] by (auto simp: commit_refused_def)
  next
    case (reclaimed j through refused s replaced r)
    then show ?thesis
      using length_filter_update[of j "sys_reclaims y" reclaiming "ReclaimReturned r"] reclaim_pending[OF reclaimed(5)]
      by (simp add: work_left_def)
  next
    case (gave_up j through)
    then show ?thesis
      using length_filter_update[of j "sys_reclaims y" reclaiming "ReclaimReturned (Inr 0)"] by (simp add: work_left_def reclaim_timed_out_def)
  qed
qed

lemma append_wait_moves:
  "\<not> committing s \<Longrightarrow> reclaim_wanted s = 0 \<Longrightarrow> append_wait g s p = (s', pc) \<Longrightarrow> pc \<noteq> Waiting p"
  by (auto simp: append_wait_def commit_round_def Let_def split: if_splits option.splits prod.splits)

lemma step_enabled:
  assumes inv: "sys_ok E y F W P c" and "\<not> all_returned y"
  shows "\<exists>z. wal_step E g y z"
proof (cases c)
  case (Some i)
  then have i: "i < length (sys_appends y)" "active (snd (sys_appends y ! i))" using inv by (auto simp: sys_ok_def callers_ok_def)
  obtain body pc where x: "sys_appends y ! i = (body, pc)" by fastforce
  then consider p where "pc = Lingering p" | p at taken covers where "pc = Writing p at taken covers" using i(2) by (cases pc) auto
  then show ?thesis
  proof cases
    case 1
    then show ?thesis using wal_step.lingered[OF i(1)] x by (metis surj_pair)
  next
    case 2
    then show ?thesis using wal_step.written[OF i(1)] x by (metis surj_pair)
  qed
next
  case None
  then have idle: "\<not> committing (sys_log y)" using inv by (simp add: sys_ok_def callers_ok_def)
  show ?thesis
  proof (cases "\<exists>x\<in>set (sys_reclaims y). reclaiming x")
    case True
    then obtain j through where "j < length (sys_reclaims y)" "sys_reclaims y ! j = ReclaimWaiting through"
      by (metis in_set_conv_nth reclaiming.elims(2))
    then show ?thesis using wal_step.reclaimed[OF _ _ idle] by (metis surj_pair)
  next
    case False
    then obtain x where x: "x \<in> set (sys_appends y)" "\<nexists>r. snd x = Returned r" using assms(2) by (auto simp: all_returned_def)
    then obtain i where i: "i < length (sys_appends y)" "sys_appends y ! i = x" by (auto simp: in_set_conv_nth)
    have "\<not> active (snd x)" using inv None i by (auto simp: sys_ok_def callers_ok_def)
    then obtain body p where w: "sys_appends y ! i = (body, Waiting p)" using x(2) i(2) by (cases x; cases "snd x") auto
    have "reclaim_wanted (sys_log y) = 0" using inv False by (simp add: sys_ok_def reclaims_ok_def)
    then show ?thesis using wal_step.woken[OF i(1) w] append_wait_moves[OF idle] by (metis surj_pair)
  qed
qed

lemma steps_bounded: "(wal_step E g ^^ k) y z \<Longrightarrow> work_left z + k \<le> work_left y"
proof (induction k arbitrary: z)
  case (Suc k)
  then obtain x where "(wal_step E g ^^ k) y x" "wal_step E g x z" by auto
  then show ?case using Suc.IH step_works[of E g x z] by fastforce
qed simp

lemma steps_reach: "(wal_step E g)\<^sup>*\<^sup>* y z \<Longrightarrow> wal_reaches E g x y \<Longrightarrow> wal_reaches E g x z"
  by (induction rule: rtranclp_induct) (auto intro: wal_reaches.step)



section \<open>Runs\<close>

text \<open>Steps as functions, for concrete runs in which the device does what it is told.\<close>

definition appended :: "externs \<Rightarrow> group_commit \<Rightarrow> bytes \<Rightarrow> wal_system \<Rightarrow> wal_system" where
  "appended E g body y =
     (let (s, pc) = append_start E g (sys_log y) body in y\<lparr>sys_log := s, sys_appends := sys_appends y @ [(body, pc)]\<rparr>)"

definition asked :: "u64 \<Rightarrow> wal_system \<Rightarrow> wal_system" where
  "asked through y = y\<lparr>sys_log := reclaim_start (sys_log y), sys_reclaims := sys_reclaims y @ [ReclaimWaiting through],
     sys_released := sys_released y \<union> {p. p \<le> through}\<rparr>"

definition moved :: "group_commit \<Rightarrow> nat \<Rightarrow> wal_system \<Rightarrow> wal_system" where
  "moved g i y =
     (let (body, pc) = sys_appends y ! i;
          (s, pc) = (case pc of
             Waiting p \<Rightarrow> append_wait g (sys_log y) p
           | Lingering p \<Rightarrow> commit_round g (sys_log y) p
           | Writing p at taken covers \<Rightarrow> commit_written g (sys_log y) p at taken covers
           | Returned r \<Rightarrow> (sys_log y, pc))
      in y\<lparr>sys_log := s, sys_appends := (sys_appends y)[i := (body, pc)]\<rparr>)"

definition did_reclaim :: "externs \<Rightarrow> group_commit \<Rightarrow> nat \<Rightarrow> u64 \<Rightarrow> wal_system \<Rightarrow> wal_system" where
  "did_reclaim E g j through y =
     (let (s, replaced, r) = reclaim_now E g (sys_log y) through None
      in y\<lparr>sys_log := s, sys_reclaims := (sys_reclaims y)[j := ReclaimReturned r], sys_old := renamed (sys_log y) s replaced r (sys_old y)\<rparr>)"

lemma reaches_appended:
  assumes "wal_reaches E g x y" and "length body < 2 ^ 32" and "next_position (sys_log y) \<noteq> - 1"
  shows "wal_reaches E g x (appended E g body y)"
  using wal_reaches.call[OF assms(1) wal_call.append[OF assms(2,3)]] by (cases "append_start E g (sys_log y) body") (simp add: appended_def)

lemma reaches_asked: "wal_reaches E g x y \<Longrightarrow> committing (sys_log y) \<Longrightarrow> wal_reaches E g x (asked through y)"
  unfolding asked_def by (rule wal_reaches.call[OF _ wal_call.reclaim])

lemma reaches_moved:
  assumes "wal_reaches E g x y" and "i < length (sys_appends y)" and "snd (sys_appends y ! i) \<noteq> snd (sys_appends (moved g i y) ! i)"
  shows "wal_reaches E g x (moved g i y)"
proof -
  obtain body pc where p: "sys_appends y ! i = (body, pc)" by fastforce
  note step = wal_reaches.step[OF assms(1)]
  show ?thesis
  proof (cases pc)
    case (Waiting p)
    then show ?thesis
      using assms(2,3) p step[OF wal_step.woken[OF assms(2)]] by (cases "append_wait g (sys_log y) p") (auto simp: moved_def)
  next
    case (Lingering p)
    then show ?thesis
      using assms(2) p step[OF wal_step.lingered[OF assms(2)]] by (cases "commit_round g (sys_log y) p") (auto simp: moved_def)
  next
    case (Writing p at taken covers)
    then show ?thesis
      using assms(2) p step[OF wal_step.written[OF assms(2)]] by (cases "commit_written g (sys_log y) p at taken covers") (auto simp: moved_def)
  qed (use assms p in \<open>simp add: moved_def\<close>)
qed

lemma reaches_reclaimed:
  "wal_reaches E g x y \<Longrightarrow> j < length (sys_reclaims y) \<Longrightarrow> sys_reclaims y ! j = ReclaimWaiting through \<Longrightarrow> \<not> committing (sys_log y) \<Longrightarrow>
   wal_reaches E g x (did_reclaim E g j through y)"
  by (cases "reclaim_now E g (sys_log y) through None") (auto simp: did_reclaim_def intro: wal_reaches.step wal_step.reclaimed)

definition commit_at_once :: group_commit where
  "commit_at_once = \<lparr>lingers = False, max_group_bytes = 1000, max_group_frames = 100, min_reclaim_bytes = 0\<rparr>"

text \<open>A log of the version before, with one frame.\<close>

definition old_log :: bytes where
  "old_log = WAL_MAGIC_V1 @ encode_frame plain_externs 0 [7] False"

definition old_opened :: shared where
  "old_opened = projr (snd (open_acknowledged plain_externs None (File old_log) None))"

text \<open>One caller writes, a second one and a reclamation wait for it; the second one's frame is still pending when
  the file is rewritten.\<close>

definition stranding_run :: "externs \<Rightarrow> group_commit \<Rightarrow> shared \<Rightarrow> bool" where
  "stranding_run E g s =
     (case append_start E g s [9] of (s1, pc1) \<Rightarrow>
      case append_start E g s1 [8] of (s2, pc2) \<Rightarrow>
      pc2 = Waiting 2 \<and> committing s2 \<and> next_position s = 1 \<and> next_position s1 = 2 \<and>
      (case pc1 of Writing p1 at1 t1 c1 \<Rightarrow>
        (case commit_written g (reclaim_start s2) p1 at1 t1 c1 of (s3, pc3) \<Rightarrow>
         case reclaim_now E g s3 0 None of (s4, replaced, r) \<Rightarrow>
         pc3 = Returned (Inr 1) \<and> \<not> committing s3 \<and>
         (case append_wait g s4 2 of (s5, pc5) \<Rightarrow>
          case pc5 of Writing p5 at5 t5 c5 \<Rightarrow>
            (case commit_written g s5 p5 at5 t5 c5 of (s6, pc6) \<Rightarrow>
              pc6 = Returned (Inr 2) \<and> (case recover E (File (wal_file s6)) None of Inr r \<Rightarrow> map position (r_frames r) = [1] | Inl _ \<Rightarrow> False))
          | _ \<Rightarrow> False))
       | _ \<Rightarrow> False))"

lemma stranded: "stranding_run plain_externs commit_at_once old_opened"
  by code_simp

lemma old_opens:
  "fst (open_acknowledged plain_externs None (File old_log) None) = File old_log \<and> isl (snd (open_acknowledged plain_externs None (File old_log) None)) = False
   \<and> (case recover plain_externs (File old_log) None of Inr r \<Rightarrow> map position (r_frames r) = [0] | Inl _ \<Rightarrow> False)"
  by code_simp

lemma stranding_reaches:
  assumes run: "stranding_run E g s"
  shows "\<exists>y r'. wal_reaches E g (opened_system s found) y \<and> ([8], Returned (Inr 2)) \<in> set (sys_appends y) \<and> 2 \<notin> sys_released y
    \<and> recover E (File (wal_file (sys_log y))) None = Inr r' \<and> 2 \<notin> position ` set (r_frames r')"
proof -
  obtain s1 pc1 where a1: "append_start E g s [9] = (s1, pc1)" by fastforce
  obtain s2 pc2 where a2: "append_start E g s1 [8] = (s2, pc2)" by fastforce
  note run1 = run[unfolded stranding_run_def a1 a2 prod.case]
  then obtain p1 at1 t1 c1 where pc1: "pc1 = Writing p1 at1 t1 c1" by (cases pc1) simp_all
  obtain s3 pc3 where b1: "commit_written g (reclaim_start s2) p1 at1 t1 c1 = (s3, pc3)" by fastforce
  obtain s4 replaced r where c: "reclaim_now E g s3 0 None = (s4, replaced, r)" by (metis prod_cases3)
  obtain s5 pc5 where d1: "append_wait g s4 2 = (s5, pc5)" by fastforce
  note run2 = run1[unfolded pc1 append_pc.case b1 c d1 prod.case]
  then obtain p5 at5 t5 c5 where pc5: "pc5 = Writing p5 at5 t5 c5" by (cases pc5) simp_all
  obtain s6 pc6 where e1: "commit_written g s5 p5 at5 t5 c5 = (s6, pc6)" by fastforce
  note run3 = run2[unfolded pc5 append_pc.case e1 prod.case]
  then obtain r' where f: "recover E (File (wal_file s6)) None = Inr r'" "map position (r_frames r') = [1]"
    by (cases "recover E (File (wal_file s6)) None") simp_all
  have a: "append_start E g s [9] = (s1, Writing p1 at1 t1 c1)" "append_start E g s1 [8] = (s2, Waiting 2)" "committing s2"
      "next_position s = 1" "next_position s1 = 2" and b: "commit_written g (reclaim_start s2) p1 at1 t1 c1 = (s3, Returned (Inr 1))" "\<not> committing s3"
    and d: "append_wait g s4 2 = (s5, Writing p5 at5 t5 c5)" and e: "commit_written g s5 p5 at5 t5 c5 = (s6, Returned (Inr 2))"
    using run3 a1 a2 b1 d1 e1 pc1 pc5 by simp_all
  let ?x = "opened_system s found"
  note reach = wal_reaches.here[of E g ?x]
  have y1: "wal_reaches E g ?x (appended E g [9] ?x)" by (rule reaches_appended[OF reach]) (simp_all add: opened_system_def a(4))
  have y2: "wal_reaches E g ?x (appended E g [8] (appended E g [9] ?x))"
    by (rule reaches_appended[OF y1]) (simp_all add: appended_def opened_system_def a(1,5))
  define y3 where "y3 = asked 0 (appended E g [8] (appended E g [9] ?x))"
  define y4 where "y4 = moved g 0 y3"
  define y5 where "y5 = did_reclaim E g 0 0 y4"
  define y6 where "y6 = moved g 1 y5"
  define y7 where "y7 = moved g 1 y6"
  have v3: "y3 = \<lparr>sys_log = reclaim_start s2, sys_appends = [([9], Writing p1 at1 t1 c1), ([8], Waiting 2)], sys_reclaims = [ReclaimWaiting 0],
      sys_released = {p. p \<le> 0}, sys_found = found, sys_old = []\<rparr>"
    by (simp add: y3_def asked_def appended_def opened_system_def a)
  have v4: "y4 = \<lparr>sys_log = s3, sys_appends = [([9], Returned (Inr 1)), ([8], Waiting 2)], sys_reclaims = [ReclaimWaiting 0],
      sys_released = {p. p \<le> 0}, sys_found = found, sys_old = []\<rparr>"
    by (simp add: y4_def v3 moved_def b)
  have v5: "y5 = \<lparr>sys_log = s4, sys_appends = [([9], Returned (Inr 1)), ([8], Waiting 2)], sys_reclaims = [ReclaimReturned r],
      sys_released = {p. p \<le> 0}, sys_found = found, sys_old = renamed s3 s4 replaced r []\<rparr>"
    by (simp add: y5_def v4 did_reclaim_def c)
  have v6: "y6 = \<lparr>sys_log = s5, sys_appends = [([9], Returned (Inr 1)), ([8], Writing p5 at5 t5 c5)], sys_reclaims = [ReclaimReturned r],
      sys_released = {p. p \<le> 0}, sys_found = found, sys_old = renamed s3 s4 replaced r []\<rparr>"
    by (simp add: y6_def v5 moved_def d)
  have v7: "y7 = \<lparr>sys_log = s6, sys_appends = [([9], Returned (Inr 1)), ([8], Returned (Inr 2))], sys_reclaims = [ReclaimReturned r],
      sys_released = {p. p \<le> 0}, sys_found = found, sys_old = renamed s3 s4 replaced r []\<rparr>"
    by (simp add: y7_def v6 moved_def e)
  have r3: "wal_reaches E g ?x y3" unfolding y3_def by (rule reaches_asked[OF y2]) (simp add: appended_def opened_system_def a)
  have r4: "wal_reaches E g ?x y4" using reaches_moved[OF r3, of 0, folded y4_def] by (simp add: v3 v4)
  have r5: "wal_reaches E g ?x y5" unfolding y5_def by (rule reaches_reclaimed[OF r4]) (simp_all add: v4 b(2))
  have r6: "wal_reaches E g ?x y6" using reaches_moved[OF r5, of 1, folded y6_def] by (simp add: v5 v6)
  have r7: "wal_reaches E g ?x y7" using reaches_moved[OF r6, of 1, folded y7_def] by (simp add: v6 v7)
  have "2 \<notin> position ` set (r_frames r')" using arg_cong[OF f(2), of set] by simp
  then show ?thesis using r7 f(1) by (intro exI[of _ y7] exI[of _ r']) (simp add: v7)
qed


section \<open>A log that is new\<close>

definition new_opened :: shared where
  "new_opened = opened nothing WAL_MAGIC True"

lemma new_opens: "open_acknowledged plain_externs None NoFile None = (File WAL_MAGIC, Inr new_opened)" "recover plain_externs NoFile None = Inr nothing"
  "r_frames nothing = []"
  by (simp_all add: open_acknowledged_def recover_def new_opened_def nothing_def)

definition first_run :: "externs \<Rightarrow> group_commit \<Rightarrow> shared \<Rightarrow> bool" where
  "first_run E g s =
     (case append_start E g s [9] of (s1, pc1) \<Rightarrow>
      case pc1 of Writing p at taken covers \<Rightarrow>
        next_position s = 0 \<and> p = 0 \<and> snd (commit_written g s1 p at taken covers) = Returned (Inr 0)
      | _ \<Rightarrow> False)"

lemma first_runs: "first_run plain_externs commit_at_once new_opened"
  by code_simp

lemma first_reaches:
  obtains y z p at taken covers where "wal_reaches plain_externs commit_at_once (opened_system new_opened []) y"
    and "sys_appends y = [([9], Writing p at taken covers)]"
    and "wal_reaches plain_externs commit_at_once (opened_system new_opened []) z"
    and "sys_appends z = [([9], Returned (Inr 0))]" and "sys_released z = {}"
proof -
  let ?E = plain_externs and ?g = commit_at_once and ?x = "opened_system new_opened []"
  obtain s1 pc1 where a: "append_start ?E ?g new_opened [9] = (s1, pc1)" by fastforce
  note run = first_runs[unfolded first_run_def a prod.case]
  then obtain p at taken covers where pc1: "pc1 = Writing p at taken covers" by (cases pc1) simp_all
  obtain s2 pc2 where b: "commit_written ?g s1 p at taken covers = (s2, pc2)" by fastforce
  define y where "y = appended ?E ?g [9] ?x"
  define z where "z = moved ?g 0 y"
  have v: "y = ?x\<lparr>sys_log := s1, sys_appends := [([9], Writing p at taken covers)]\<rparr>"
    by (simp add: y_def appended_def opened_system_def a pc1)
  have w: "z = ?x\<lparr>sys_log := s2, sys_appends := [([9], Returned (Inr 0))]\<rparr>"
    using run b by (auto simp: z_def v moved_def pc1)
  have "wal_reaches ?E ?g ?x y"
    unfolding y_def by (rule reaches_appended[OF wal_reaches.here]) (use run pc1 in \<open>simp_all add: opened_system_def\<close>)
  moreover from this have "wal_reaches ?E ?g ?x z" using reaches_moved[of ?E ?g ?x y 0, folded z_def] by (simp add: v w)
  ultimately show thesis using that[of y p at taken covers z] by (simp add: v w opened_system_def)
qed




lemma frame_boundary_all:
  "list_all small fs \<Longrightarrow> length (pre @ frames_bytes E fs) \<le> limit \<Longrightarrow>
   frame_boundary_before (pre @ frames_bytes E fs) limit (length pre) = length (pre @ frames_bytes E fs)"
proof (induction fs arbitrary: pre)
  case Nil
  then show ?case by (subst frame_boundary_before.simps) (simp add: get_frame_end)
next
  case (Cons f fs)
  then show ?case
    using Cons.IH[of "pre @ frame_bytes E f"]
    by (subst frame_boundary_before.simps) (simp add: frame_header FRAME_HEADER_BYTES_def ac_simps)
qed

text \<open>C40: A group is whole frames from the front of the pending ones, and the limit on its bytes holds unless
  the first frame alone is larger; the limit on its frames does not hold: when the pending bytes are within the limit
  on bytes, the group is everything that is pending, however many frames that is.\<close>

theorem group_bounded_by_bytes_only:
  assumes "pending s = frames_bytes E ps" and "list_all small ps"
  shows "\<exists>as bs s'. take_group g s = (frames_bytes E as, s') \<and> ps = as @ bs \<and> pending s' = frames_bytes E bs \<and> (ps \<noteq> [] \<longrightarrow> as \<noteq> [])
    \<and> (length (frames_bytes E as) \<le> max_group_bytes g \<or> length as = 1) \<and> (length (frames_bytes E ps) \<le> max_group_bytes g \<longrightarrow> as = ps)"
proof -
  obtain as bs s' where t: "take_group g s = (frames_bytes E as, s')" "ps = as @ bs" "pending s' = frames_bytes E bs" "ps \<noteq> [] \<longrightarrow> as \<noteq> []"
      "length (frames_bytes E as) \<le> max_group_bytes g \<or> length as = 1"
    by (rule take_group_frames[OF assms, of g])
  have "bs = []" if "length (frames_bytes E ps) \<le> max_group_bytes g"
  proof -
    have "frame_boundary_before (frames_bytes E ps) (max_group_bytes g) 0 = length (frames_bytes E ps)"
      using frame_boundary_all[OF assms(2), of "[]" E "max_group_bytes g"] that by simp
    then have "fst (take_group g s) = frames_bytes E ps" using assms(1) by (simp add: take_group_def Let_def)
    then show ?thesis using t(1,2) by simp
  qed
  then show ?thesis using t by (intro exI[of _ as] exI[of _ bs] exI[of _ s']) auto
qed

theorem group_bounded_by_bytes_only_witness:
  "\<exists>s'. take_group (commit_at_once\<lparr>max_group_frames := 1\<rparr>)
      (new_opened\<lparr>pending := frames_bytes plain_externs [\<lparr>position = 0, payload = [9]\<rparr>, \<lparr>position = 1, payload = [8]\<rparr>], pending_frames := 2\<rparr>)
    = (frames_bytes plain_externs [\<lparr>position = 0, payload = [9]\<rparr>, \<lparr>position = 1, payload = [8]\<rparr>], s')"
proof -
  let ?ps = "[\<lparr>position = 0 :: u64, payload = [9]\<rparr>, \<lparr>position = 1, payload = [8]\<rparr>]" and ?g = "commit_at_once\<lparr>max_group_frames := 1\<rparr>"
  let ?s = "new_opened\<lparr>pending := frames_bytes plain_externs ?ps, pending_frames := 2\<rparr>"
  have "length (frames_bytes plain_externs ?ps) \<le> max_group_bytes ?g" by (simp add: commit_at_once_def)
  then show ?thesis using group_bounded_by_bytes_only[of ?s plain_externs ?ps ?g] by force
qed

end
