(* ===== verification/Spec2Isabelle.thy ===== *)
theory Spec2Isabelle
  imports Prelude Segment_Format Cbor Keys Page Index Locator Topology Directory Routing Tally_Error Movement Cluster_Query
    Numeric_Text Float64 Money Row Wire Expr_Values Civil_Days Expr Schema Segment_File Segment_Parts Segment_Round_Trip
    Wal Wal_Invariant Wal_Runs
begin

text \<open>
  HEADER
\<close>

end
